(* ===== verification/Prelude.thy ===== *)
theory Prelude
  imports Main "HOL-Library.Word"
begin

text \<open>
  What every theory of the development shares: the widths of the source's integers, the
  operations of \<open>Vec\<close> that the source uses with their panics as \<open>None\<close>, and lemmas on
  lists, options and maps.

  A computation of the source that can panic or recurse for ever has a result of type
  \<open>'a option\<close>: \<open>None\<close> is a call that does not return (an index out of range, a missing key
  under \<open>[]\<close>, \<open>expect\<close> or \<open>unwrap\<close> on nothing, a recursion without end), \<open>Some r\<close> is a call that
  returns \<open>r\<close>. A \<open>Result\<close> of the source is a sum: \<open>Inl\<close> its \<open>Err\<close>, \<open>Inr\<close> its \<open>Ok\<close>.
\<close>

section \<open>Shared notation and automation\<close>

named_theorems vec_simps \<open>reading and updating a vector by index\<close>
named_theorems frame_simps \<open>fields an operation leaves alone\<close>

type_synonym u32 = "32 word"

text \<open>The identity of a character: \<open>(id, peer)\<close>, \<open>(IdSize, PeerIdSize)\<close> in the source.\<close>

type_synonym key = "u32 \<times> u32"

text \<open>A position of a projection: \<open>(line, column)\<close>, both \<open>usize\<close>.\<close>

type_synonym pos = "nat \<times> nat"

abbreviation root :: key where
  "root \<equiv> (0, 0)"

section \<open>Vectors\<close>

text \<open>\<open>slice::get\<close>: no panic, \<open>None\<close> out of range.\<close>

definition vec_get :: "'a list \<Rightarrow> nat \<Rightarrow> 'a option" where
  "vec_get xs i = (if i < length xs then Some (xs ! i) else None)"

text \<open>\<open>Vec::insert\<close>: panics when the index is past the end.\<close>

definition vec_insert :: "nat \<Rightarrow> 'a \<Rightarrow> 'a list \<Rightarrow> 'a list option" where
  "vec_insert i x xs = (if i \<le> length xs then Some (take i xs @ x # drop i xs) else None)"

text \<open>\<open>Vec::remove\<close>: panics when the index is out of range.\<close>

definition vec_remove :: "nat \<Rightarrow> 'a list \<Rightarrow> 'a list option" where
  "vec_remove i xs = (if i < length xs then Some (take i xs @ drop (Suc i) xs) else None)"

text \<open>\<open>iter().position(|&item| item == x)\<close>: the first index.\<close>

fun index_of :: "'a \<Rightarrow> 'a list \<Rightarrow> nat option" where
  "index_of x [] = None"
| "index_of x (y # ys) = (if y = x then Some 0 else map_option Suc (index_of x ys))"

lemma vec_get_Some [vec_simps]: "vec_get xs i = Some x \<longleftrightarrow> i < length xs \<and> xs ! i = x"
  by (auto simp: vec_get_def)

lemma vec_get_None [vec_simps]: "vec_get xs i = None \<longleftrightarrow> length xs \<le> i"
  by (auto simp: vec_get_def)

lemma vec_insert_append [simp]: "vec_insert (length xs) x (xs @ ys) = Some (xs @ x # ys)"
  by (simp add: vec_insert_def)

lemma vec_remove_append [simp]: "vec_remove (length xs) (xs @ y # ys) = Some (xs @ ys)"
  by (simp add: vec_remove_def)

lemma vec_remove_0_Cons [simp]: "vec_remove 0 (x # xs) = Some xs"
  by (simp add: vec_remove_def)

lemma index_of_None_iff [vec_simps]: "index_of x xs = None \<longleftrightarrow> x \<notin> set xs"
  by (induction xs) auto

lemma index_of_SomeD: "index_of x xs = Some i \<Longrightarrow> i < length xs \<and> xs ! i = x"
  by (induction xs arbitrary: i) (auto split: if_splits)

lemma index_of_append: "x \<notin> set xs \<Longrightarrow> index_of x (xs @ x # ys) = Some (length xs)"
  by (induction xs) auto

lemma index_of_in_set: "x \<in> set xs \<Longrightarrow> \<exists>i. index_of x xs = Some i"
  using index_of_None_iff [of x xs] by (cases "index_of x xs") auto

lemma index_of_distinct:
  "distinct xs \<Longrightarrow> i < length xs \<Longrightarrow> index_of (xs ! i) xs = Some i"
  using index_of_in_set [of "xs ! i" xs] index_of_SomeD [of "xs ! i" xs]
  by (metis nth_eq_iff_index_eq nth_mem)

text \<open>A bound computation that returns.\<close>

lemma bind_SomeE:
  "Option.bind m g = Some y \<Longrightarrow> (\<And>x. m = Some x \<Longrightarrow> g x = Some y \<Longrightarrow> P) \<Longrightarrow> P"
  by (cases m) auto

text \<open>An element of a distinct list splits it in one way.\<close>

lemma distinct_split_unique:
  "distinct (us @ k # vs) \<Longrightarrow> us @ k # vs = xs @ k # ys \<Longrightarrow> us = xs \<and> vs = ys"
  by (metis append_Cons_eq_iff disjoint_insert(1) distinct.simps(2) distinct_append not_distinct_conv_prefix)

section \<open>Lists of lines\<close>

lemma nth_split: "i < length xs \<Longrightarrow> xs = take i xs @ xs ! i # drop (Suc i) xs"
  by (simp add: id_take_nth_drop)

lemma concat_split:
  "i < length xss \<Longrightarrow> concat xss = concat (take i xss) @ xss ! i @ concat (drop (Suc i) xss)"
  using arg_cong [OF nth_split, of i xss concat] by simp

lemma concat_update:
  "i < length xss \<Longrightarrow>
     concat (xss[i := ys]) = concat (take i xss) @ ys @ concat (drop (Suc i) xss)"
  by (simp add: upd_conv_take_nth_drop)

lemma in_concat_iff: "x \<in> set (concat xss) \<longleftrightarrow> (\<exists>r<length xss. x \<in> set (xss ! r))"
  by (simp add: Bex_def) (metis in_set_conv_nth)

lemma distinct_concat_row:
  "distinct (concat xss) \<Longrightarrow> i < length xss \<Longrightarrow> distinct (xss ! i)"
  using concat_split [of i xss] by simp

lemma distinct_concat_same_row:
  assumes "distinct (concat xss)" "i < length xss" "j < length xss"
    and "x \<in> set (xss ! i)" "x \<in> set (xss ! j)"
  shows "i = j"
proof (rule ccontr)
  assume "i \<noteq> j"
  have aux: False if "a < b" "b < length xss" "x \<in> set (xss ! a)" "x \<in> set (xss ! b)" for a b
  proof -
    have "xss ! a \<in> set (take b xss)"
      using that(1,2) by (metis in_set_conv_nth length_take min.absorb4 nth_take)
    with that(3) have "x \<in> set (concat (take b xss))" by auto
    with that(2,4) assms(1) concat_split [of b xss] show False by auto
  qed
  show False
    using \<open>i \<noteq> j\<close> aux [of i j] aux [of j i] assms(2-5) by (cases "i < j") auto
qed

end
