(* ===== verification/Paths.thy ===== *)
theory Paths
  imports Prelude
begin

text \<open>
  \<open>std::path\<close> on Unix as far as the source uses it: a \<open>PathBuf\<close> is the list of its components, as
  \<open>iter()\<close> gives them, the root directory being the component \<open>''/''\<close>. Comparison, \<open>ends_with\<close>,
  \<open>strip_prefix\<close> and \<open>file_name\<close> work by component in the standard library too.
\<close>

type_synonym path = "string list"

definition is_absolute :: "path \<Rightarrow> bool" where
  "is_absolute p \<longleftrightarrow> (\<exists>cs. p = ''/'' # cs)"

lemma is_absolute_code [code]:
  "is_absolute p = (case p of [] \<Rightarrow> False | c # _ \<Rightarrow> c = ''/'')"
  by (auto simp: is_absolute_def split: list.splits)

text \<open>
  \<open>join\<close>: an absolute argument replaces the base. A leading \<open>''.''\<close> is a component only at the
  start of a path, so it is lost behind a base.
\<close>

definition join :: "path \<Rightarrow> path \<Rightarrow> path" where
  "join base p =
     (if is_absolute p then p
      else if base = [] then p
      else base @ (case p of [] \<Rightarrow> [] | c # cs \<Rightarrow> if c = ''.'' then cs else p))"

fun strip_prefix :: "path \<Rightarrow> path \<Rightarrow> path option" where
  "strip_prefix p [] = Some p"
| "strip_prefix [] (b # bs) = None"
| "strip_prefix (c # cs) (b # bs) = (if c = b then strip_prefix cs bs else None)"

text \<open>\<open>file_name\<close>: the last component when it is a normal one.\<close>

definition file_name :: "path \<Rightarrow> string option" where
  "file_name p =
     (if p = [] then None
      else if last p \<in> {''/'', ''.'', ''..''} then None else Some (last p))"

text \<open>\<open>ends_with\<close> with an argument of one component.\<close>

definition ends_with :: "path \<Rightarrow> string \<Rightarrow> bool" where
  "ends_with p c \<longleftrightarrow> p \<noteq> [] \<and> last p = c"

lemma strip_prefix_append [simp]: "strip_prefix (b @ p) b = Some p"
  by (induction b) auto

lemma strip_prefix_Some_iff: "strip_prefix p b = Some q \<longleftrightarrow> p = b @ q"
  by (induction p b rule: strip_prefix.induct) auto

lemma strip_prefix_None_iff: "strip_prefix p b = None \<longleftrightarrow> (\<forall>q. p \<noteq> b @ q)"
  using strip_prefix_Some_iff [of p b] by (cases "strip_prefix p b") auto

lemma join_absolute [simp]: "is_absolute p \<Longrightarrow> join base p = p"
  by (simp add: join_def)

lemma is_absolute_append [simp]: "is_absolute b \<Longrightarrow> is_absolute (b @ p)"
  by (auto simp: is_absolute_def)

lemma join_relative:
  "\<not> is_absolute p \<Longrightarrow> b \<noteq> [] \<Longrightarrow> p = [] \<or> hd p \<noteq> ''.'' \<Longrightarrow> join b p = b @ p"
  by (auto simp: join_def split: list.splits)

lemma is_absolute_join: "is_absolute b \<Longrightarrow> is_absolute (join b p)"
  by (auto simp: join_def is_absolute_def)

end
