(* ===== verification/Types.thy ===== *)
theory Types
  imports Paths
begin

text \<open>
  The data of \<open>src/types.rs\<close> and \<open>src/shar/error.rs\<close>: one record per struct and one datatype
  per enum, with the constructors' \<open>new\<close> functions. A Rust \<open>char\<close> is its code point. The
  optional fields of the source are \<open>option\<close>s; identities are 32-bit words.
\<close>

section \<open>Errors\<close>

datatype error =
    Generic string
  | ReadFail string
  | OutOfBounds string

section \<open>Characters\<close>

type_synonym uchar = nat

text \<open>The characters that end a projection line: LF, CR, VT, FF, NEL, LS, PS.\<close>

definition is_line_break :: "uchar \<Rightarrow> bool" where
  "is_line_break c \<longleftrightarrow>
     c = 10 \<or> c = 13 \<or> c = 11 \<or> c = 12 \<or> c = 133 \<or> c = 8232 \<or> c = 8233"

section \<open>Nodes of the tree\<close>

record crdt_relation =
  cr_value :: uchar
  cr_parent_id :: u32
  cr_parent_peer :: u32
  cr_deleted :: bool

definition CrdtRelation_new :: "uchar \<Rightarrow> u32 \<Rightarrow> u32 \<Rightarrow> crdt_relation" where
  "CrdtRelation_new v pid ppeer =
     \<lparr>cr_value = v, cr_parent_id = pid, cr_parent_peer = ppeer, cr_deleted = False\<rparr>"

text \<open>The identity of the parent, the pair the source builds at every use.\<close>

definition parent_key :: "crdt_relation \<Rightarrow> key" where
  "parent_key r = (cr_parent_id r, cr_parent_peer r)"

record crdt =
  crdt_id :: u32
  crdt_peer :: u32
  crdt_relation :: crdt_relation

definition CRDT_new :: "u32 \<Rightarrow> u32 \<Rightarrow> crdt_relation \<Rightarrow> crdt" where
  "CRDT_new i p r = \<lparr>crdt_id = i, crdt_peer = p, crdt_relation = r\<rparr>"

definition crdt_key :: "crdt \<Rightarrow> key" where
  "crdt_key c = (crdt_id c, crdt_peer c)"

lemma CrdtRelation_new_simps [simp]:
  "cr_value (CrdtRelation_new v i p) = v"
  "parent_key (CrdtRelation_new v i p) = (i, p)"
  "cr_deleted (CrdtRelation_new v i p) = False"
  by (simp_all add: CrdtRelation_new_def parent_key_def)

lemma CRDT_new_simps [simp]:
  "crdt_key (CRDT_new i p r) = (i, p)"
  "crdt_id (CRDT_new i p r) = i"
  "crdt_peer (CRDT_new i p r) = p"
  "crdt_relation (CRDT_new i p r) = r"
  by (simp_all add: CRDT_new_def crdt_key_def)

lemma parent_key_deleted [simp]: "parent_key (r\<lparr>cr_deleted := b\<rparr>) = parent_key r"
  by (simp add: parent_key_def)

section \<open>Operations\<close>

record network_add =
  na_file_path :: path
  na_crdt :: crdt
  na_row :: nat

definition NetworkAdd_new :: "path \<Rightarrow> crdt \<Rightarrow> nat \<Rightarrow> network_add" where
  "NetworkAdd_new p c r = \<lparr>na_file_path = p, na_crdt = c, na_row = r\<rparr>"

record remove =
  rm_file_path :: path
  rm_id :: u32
  rm_peer :: u32
  rm_row :: nat

definition Remove_new :: "path \<Rightarrow> u32 \<Rightarrow> u32 \<Rightarrow> nat \<Rightarrow> remove" where
  "Remove_new p i q r = \<lparr>rm_file_path = p, rm_id = i, rm_peer = q, rm_row = r\<rparr>"

definition rm_key :: "remove \<Rightarrow> key" where
  "rm_key op = (rm_id op, rm_peer op)"

record ide_add =
  ia_file_path :: path
  ia_parent_id :: "u32 option"
  ia_parent_peer :: "u32 option"
  ia_parent_tag :: "u32 option"
  ia_val :: uchar
  ia_tag :: u32
  ia_line_hint :: nat

definition IdeAdd_new ::
  "path \<Rightarrow> u32 option \<Rightarrow> u32 option \<Rightarrow> u32 option \<Rightarrow> uchar \<Rightarrow> u32 \<Rightarrow> nat \<Rightarrow> ide_add"
where
  "IdeAdd_new p i q t v tag n =
     \<lparr>ia_file_path = p, ia_parent_id = i, ia_parent_peer = q, ia_parent_tag = t, ia_val = v,
      ia_tag = tag, ia_line_hint = n\<rparr>"

datatype network_op = ADD network_add | REMOVE remove

record connect =
  cn_local :: bool
  cn_path :: path

record ide_add_confirmed =
  ic_tag :: u32
  ic_id :: u32
  ic_peer :: u32

definition IdeAddConfirmed_new :: "u32 \<Rightarrow> u32 \<Rightarrow> u32 \<Rightarrow> ide_add_confirmed" where
  "IdeAddConfirmed_new t i p = \<lparr>ic_tag = t, ic_id = i, ic_peer = p\<rparr>"

lemma operation_new_simps [simp]:
  "na_file_path (NetworkAdd_new p c r) = p" "na_crdt (NetworkAdd_new p c r) = c"
  "na_row (NetworkAdd_new p c r) = r"
  "rm_file_path (Remove_new p i q r) = p" "rm_key (Remove_new p i q r) = (i, q)"
  "rm_row (Remove_new p i q r) = r"
  by (simp_all add: NetworkAdd_new_def Remove_new_def rm_key_def)

end
