(* ===== verification/SharFile.thy ===== *)
theory SharFile
  imports Types
begin

text \<open>
  \<open>SharFile\<close> of \<open>src/shar/core/tree.rs\<close>: the characters of one file and their projection, and
  every operation on them, as the source writes them. The lemmas about them are in the theories
  \<open>FindCrdt\<close>, \<open>Wellformed\<close> and after.
\<close>

record shar_file =
  file_path :: path
  characters :: "key \<rightharpoonup> crdt_relation"
  projection :: "key list list"

text \<open>\<open>PartialEq for SharFile\<close> leaves the path out.\<close>

definition shar_file_eq :: "shar_file \<Rightarrow> shar_file \<Rightarrow> bool" where
  "shar_file_eq f g \<longleftrightarrow> characters f = characters g \<and> projection f = projection g"

section \<open>Finding a character\<close>

text \<open>
  The two closures of \<open>find_crdt\<close>: each looks at one line at its offset, and moves the offset on
  when the line does not hold the character. Row indices are in range when they are used.
\<close>

definition check_up :: "key list list \<Rightarrow> nat \<Rightarrow> key \<Rightarrow> nat \<Rightarrow> (error + pos) \<times> nat" where
  "check_up proj line_num k up_offset =
     (if line_num < up_offset then (Inl (OutOfBounds ''up exhausted''), up_offset)
      else case index_of k (proj ! (line_num - up_offset)) of
          Some index \<Rightarrow> (Inr (line_num - up_offset, index), up_offset)
        | None \<Rightarrow> (Inl (Generic ''not found on line''), up_offset + 1))"

definition check_down :: "key list list \<Rightarrow> nat \<Rightarrow> key \<Rightarrow> nat \<Rightarrow> (error + pos) \<times> nat" where
  "check_down proj line_num k down_offset =
     (if line_num + down_offset \<ge> length proj
      then (Inl (OutOfBounds ''down exhausted''), down_offset)
      else case index_of k (proj ! (line_num + down_offset)) of
          Some index \<Rightarrow> (Inr (line_num + down_offset, index), down_offset)
        | None \<Rightarrow> (Inl (Generic ''not found on line''), down_offset + 1))"

text \<open>The \<open>while\<close> loop: up, then down, until both directions are exhausted.\<close>

function ring_search ::
  "key list list \<Rightarrow> nat \<Rightarrow> key \<Rightarrow> nat \<Rightarrow> nat \<Rightarrow> bool \<Rightarrow> bool \<Rightarrow> error + pos"
where
  "ring_search proj line_num k up_offset down_offset up_exhausted down_exhausted =
     (if \<not> up_exhausted \<or> \<not> down_exhausted then
        (case check_up proj line_num k up_offset of
           (Inr p, _) \<Rightarrow> Inr p
         | (Inl e, up') \<Rightarrow>
             (case check_down proj line_num k down_offset of
                (Inr p, _) \<Rightarrow> Inr p
              | (Inl e', down') \<Rightarrow>
                  ring_search proj line_num k up' down'
                    (if e = OutOfBounds ''up exhausted'' then True else up_exhausted)
                    (if e' = OutOfBounds ''down exhausted'' then True else down_exhausted)))
      else Inl (OutOfBounds ''parent cannot be found''))"
  by pat_completeness auto
termination
  by (relation "measure (\<lambda>(proj, n, k, up, down, ux, dx).
        (if ux then 0 else Suc (Suc n - up)) + (if dx then 0 else Suc (length proj - (n + down))))")
    (auto simp: check_up_def check_down_def split: if_splits option.splits)

declare ring_search.simps [simp del]

definition find_crdt :: "shar_file \<Rightarrow> nat \<Rightarrow> key \<Rightarrow> (error + pos) option" where
  "find_crdt f line_num k =
     (if k = root then Some (Inr (0, 0))
      else
        let line_num' = (case vec_get (projection f) line_num of Some _ \<Rightarrow> line_num | None \<Rightarrow> 0)
        in (case vec_get (projection f) line_num' of
              None \<Rightarrow> None
            | Some line \<Rightarrow>
                Some (case index_of k line of
                    Some index \<Rightarrow> Inr (line_num', index)
                  | None \<Rightarrow> ring_search (projection f) line_num' k 1 1 False False)))"

section \<open>The slot of a character among its siblings\<close>

text \<open>
  The loop \<open>for j in start..range\<close> that \<open>find_tombstone\<close> and \<open>add_crdt\<close> share: it walks the
  line from the parent on and stops at the first element with another parent or after which the
  character does not belong. \<open>Slot_at p\<close> is a slot before an element, \<open>Slot_end p\<close> the end of
  the line, \<open>No_slot\<close> a loop that ran out. The loop reads \<open>characters[next_element]\<close>, which
  panics on a missing key.
\<close>

datatype slot = Slot_at nat | Slot_end nat | No_slot

fun scan_siblings ::
  "(key \<rightharpoonup> crdt_relation) \<Rightarrow> key list \<Rightarrow> key \<Rightarrow> key \<Rightarrow> nat \<Rightarrow> nat list \<Rightarrow> slot option"
where
  "scan_siblings chars line k parent offset [] = Some No_slot"
| "scan_siblings chars line k parent offset (j # js) =
     (case vec_get line (j + offset) of
        None \<Rightarrow> Some (Slot_end (j + offset))
      | Some next_element \<Rightarrow>
          (case chars next_element of
             None \<Rightarrow> None
           | Some next_rel \<Rightarrow>
               if parent_key next_rel \<noteq> parent then Some (Slot_at (j + offset))
               else if fst next_element < fst k then Some (Slot_at (j + offset))
               else if fst next_element = fst k then
                 (if snd next_element < snd k
                  then scan_siblings chars line k parent offset js
                  else Some (Slot_at (j + offset)))
               else scan_siblings chars line k parent offset js))"

text \<open>The range of the loop: \<open>offset\<close> is 0 below a tombstone, 1 after a live parent.\<close>

definition scan_range :: "key list \<Rightarrow> nat \<Rightarrow> nat \<Rightarrow> nat list" where
  "scan_range line offset start =
     [start ..< (if offset = 0 then length line + 1 else length line)]"

text \<open>The end of \<open>find_tombstone\<close>: from the coordinates of the ancestor to a slot.\<close>

definition tombstone_slot ::
  "shar_file \<Rightarrow> key \<Rightarrow> key \<Rightarrow> pos \<Rightarrow> nat \<Rightarrow> (error + pos) option"
where
  "tombstone_slot f k parent coordinates offset =
     (case vec_get (projection f) (fst coordinates) of
        None \<Rightarrow> None
      | Some line \<Rightarrow>
          map_option (\<lambda>s. case s of
              Slot_at p \<Rightarrow> Inr (fst coordinates, p)
            | Slot_end p \<Rightarrow> Inr (fst coordinates, p)
            | No_slot \<Rightarrow> Inr (0, 0))
            (scan_siblings (characters f) line k parent offset
              (scan_range line offset (snd coordinates))))"

text \<open>
  \<open>find_tombstone\<close> climbs the parents of the tombstone \<open>k\<close>: \<open>None\<close> covers a panic and a climb
  that never ends. The recursive call's error is passed on (\<open>?\<close>).
\<close>

partial_function (option) find_tombstone ::
  "shar_file \<Rightarrow> nat \<Rightarrow> key \<Rightarrow> (error + pos) option"
where
  "find_tombstone f line_num k =
     (case characters f k of
        None \<Rightarrow> Some (Inl (Generic ''tombstone not found''))
      | Some rel \<Rightarrow>
          (case characters f (parent_key rel) of
             None \<Rightarrow> Some (Inl (Generic ''tombstone not found''))
           | Some parent \<Rightarrow>
               if cr_deleted parent then
                 Option.bind (find_tombstone f line_num (parent_key rel))
                   (\<lambda>res. case res of
                      Inl e \<Rightarrow> Some (Inl e)
                    | Inr coordinates \<Rightarrow> tombstone_slot f k (parent_key rel) coordinates 0)
               else if parent_key rel = root then
                 tombstone_slot f k (parent_key rel) (0, 0) 0
               else
                 Option.bind (find_crdt f line_num (parent_key rel))
                   (\<lambda>res. case res of
                      Inl e \<Rightarrow> Some (Inl e)
                    | Inr coordinates \<Rightarrow> tombstone_slot f k (parent_key rel) coordinates 1)))"

declare find_tombstone.simps [code]

section \<open>Inserting\<close>

text \<open>Splitting a line right after \<open>coordinates\<close>: \<open>split_off\<close> and \<open>insert\<close> may panic.\<close>

definition add_line_to_projection ::
  "key list list \<Rightarrow> pos \<Rightarrow> key \<Rightarrow> bool \<Rightarrow> key list list option"
where
  "add_line_to_projection proj coordinates k parent_real =
     (let offset = (if parent_real then 1 else 0); row = fst coordinates in
      case vec_get proj row of
        None \<Rightarrow> None
      | Some line \<Rightarrow>
          if line = [] then vec_insert (row + offset) [k] proj
          else
            let cut = snd coordinates + offset in
            if cut \<le> length line
            then vec_insert (row + offset) (k # drop cut line) (proj[row := take cut line])
            else None)"

text \<open>The \<open>Ok(coordinates)\<close> arm of \<open>add_crdt\<close>, after the character is in the map.\<close>

definition place_crdt ::
  "shar_file \<Rightarrow> key \<Rightarrow> crdt_relation \<Rightarrow> pos \<Rightarrow> bool \<Rightarrow> (shar_file \<times> (error + pos option)) option"
where
  "place_crdt f k rel coordinates parent_exists =
     (if is_line_break (cr_value rel) then
        map_option (\<lambda>proj. (f\<lparr>projection := proj\<rparr>, Inr (Some (fst coordinates + 1, 0))))
          (add_line_to_projection (projection f) coordinates k parent_exists)
      else
        let row = fst coordinates; offset = (if parent_exists then 1 else 0) in
        case vec_get (projection f) row of
          None \<Rightarrow> None
        | Some line \<Rightarrow>
            Option.bind
              (scan_siblings (characters f) line k (parent_key rel) offset
                (scan_range line offset (snd coordinates)))
              (\<lambda>s. case s of
                 Slot_at p \<Rightarrow>
                   map_option
                     (\<lambda>line'. (f\<lparr>projection := (projection f)[row := line']\<rparr>, Inr (Some (row, p))))
                     (vec_insert p k line)
               | Slot_end p \<Rightarrow>
                   Some (f\<lparr>projection := (projection f)[row := line @ [k]]\<rparr>,
                         Inr (Some (row, length line)))
               | No_slot \<Rightarrow> Some (f, Inr None)))"

definition add_crdt ::
  "shar_file \<Rightarrow> nat \<Rightarrow> crdt \<Rightarrow> (shar_file \<times> (error + pos option)) option"
where
  "add_crdt f line_num c =
     (let k = crdt_key c; rel = crdt_relation c; par = parent_key rel in
      case characters f par of
        None \<Rightarrow> Some (f, Inl (Generic ''Parent does not exist''))
      | Some p \<Rightarrow>
          let parent_exists = (\<not> cr_deleted p) in
          if characters f k \<noteq> None then Some (f, Inr None)
          else
            Option.bind
              (if parent_exists then find_crdt f line_num par else find_tombstone f line_num par)
              (\<lambda>res. case res of
                 Inl _ \<Rightarrow> Some (f, Inl (OutOfBounds ''parent could not be found''))
               | Inr coordinates \<Rightarrow>
                   place_crdt (f\<lparr>characters := (characters f)(k \<mapsto> rel)\<rparr>) k rel coordinates
                     parent_exists))"

section \<open>Removing\<close>

text \<open>
  \<open>remove_crdt\<close> marks the node first. A line break's line is appended, without its first
  element, to the line above: row 0 has none, and \<open>actual_row - 1\<close> panics there.
\<close>

definition remove_line :: "shar_file \<Rightarrow> nat \<Rightarrow> (shar_file \<times> (error + pos option)) option" where
  "remove_line f row =
     (case vec_get (projection f) row of
        None \<Rightarrow> Some (f, Inl (Generic ''character does not exist to be deleted''))
      | Some old_line \<Rightarrow>
          Option.bind (vec_remove 0 old_line) (\<lambda>rest.
            if row = 0 then None
            else map_option (\<lambda>proj. (f\<lparr>projection := proj\<rparr>, Inr (Some (row, 0))))
                   (vec_remove row
                     ((projection f)[row - 1 := projection f ! (row - 1) @ rest]))))"

definition remove_crdt ::
  "shar_file \<Rightarrow> nat \<Rightarrow> key \<Rightarrow> (shar_file \<times> (error + pos option)) option"
where
  "remove_crdt f line_num k =
     (case characters f k of
        None \<Rightarrow> Some (f, Inl (Generic ''crdt cannot be found''))
      | Some val \<Rightarrow>
          if cr_deleted val then Some (f, Inr None)
          else
            let f1 = f\<lparr>characters := (characters f)(k \<mapsto> val\<lparr>cr_deleted := True\<rparr>)\<rparr> in
            Option.bind (find_crdt f1 line_num k)
              (\<lambda>res.
                 if is_line_break (cr_value val) then
                   (case res of
                      Inl _ \<Rightarrow> Some (f1, Inl (Generic ''anchor not found''))
                    | Inr p \<Rightarrow> remove_line f1 (fst p))
                 else
                   (case res of
                      Inl _ \<Rightarrow> Some (f1, Inl (Generic ''crdt not found''))
                    | Inr p \<Rightarrow>
                        (case vec_get (projection f1) (fst p) of
                           None \<Rightarrow> None
                         | Some line \<Rightarrow>
                             map_option
                               (\<lambda>line'. (f1\<lparr>projection := (projection f1)[fst p := line']\<rparr>,
                                         Inr (Some p)))
                               (vec_remove (snd p) line)))))"

section \<open>Reading\<close>

text \<open>\<open>_get_id_peer\<close>: \<open>projection.len() - 1\<close> underflows on an empty projection.\<close>

definition get_id_peer :: "shar_file \<Rightarrow> pos \<Rightarrow> key option option" where
  "get_id_peer f p =
     (if projection f = [] then None
      else if fst p \<le> length (projection f) - 1
      then Some (vec_get (projection f ! fst p) (snd p))
      else Some None)"

definition predecessor_identity :: "shar_file \<Rightarrow> pos \<Rightarrow> key option" where
  "predecessor_identity f p =
     (if snd p > 0
      then Option.bind (vec_get (projection f) (fst p)) (\<lambda>line. vec_get line (snd p - 1))
      else if fst p = 0 then None
      else Option.bind (vec_get (projection f) (fst p - 1))
             (\<lambda>line. if line = [] then None else Some (last line)))"

definition full_state :: "shar_file \<Rightarrow> key \<rightharpoonup> crdt_relation" where
  "full_state f = (characters f)(root := None)"

text \<open>\<open>None\<close> when a projected identity has no character, where the source panics.\<close>

fun values_of :: "(key \<rightharpoonup> crdt_relation) \<Rightarrow> key list \<Rightarrow> (key \<times> uchar) list option" where
  "values_of chars [] = Some []"
| "values_of chars (k # ks) =
     (case chars k of
        None \<Rightarrow> None
      | Some r \<Rightarrow> map_option (\<lambda>rest. (k, cr_value r) # rest) (values_of chars ks))"

fun lines_values :: "(key \<rightharpoonup> crdt_relation) \<Rightarrow> key list list \<Rightarrow> (key \<times> uchar) list list option" where
  "lines_values chars [] = Some []"
| "lines_values chars (l # ls) =
     Option.bind (values_of chars l)
       (\<lambda>vs. map_option (\<lambda>rest. vs # rest) (lines_values chars ls))"

definition identities_with_values :: "shar_file \<Rightarrow> (key \<times> uchar) list list option" where
  "identities_with_values f = lines_values (characters f) (projection f)"

section \<open>Loading a file\<close>

text \<open>
  The loop of \<open>add_file\<close> over the characters of the file, with its counter, its line and the id
  of the previous character. The counter is a \<open>u32\<close> and wraps around in a release build.
\<close>

fun add_chars ::
  "shar_file \<Rightarrow> u32 \<Rightarrow> nat \<Rightarrow> u32 \<Rightarrow> uchar list \<Rightarrow> (shar_file \<times> u32) option"
where
  "add_chars f counter line prev_id [] = Some (f, counter)"
| "add_chars f counter line prev_id (c # cs) =
     (let i = counter + 1 in
      case add_crdt f line (CRDT_new i 0 (CrdtRelation_new c prev_id 0)) of
        None \<Rightarrow> None
      | Some (f', _) \<Rightarrow> add_chars f' i (if is_line_break c then line + 1 else line) i cs)"

definition add_file :: "shar_file \<Rightarrow> uchar list \<Rightarrow> u32 \<Rightarrow> (shar_file \<times> u32) option" where
  "add_file f file_contents counter =
     (let proj = projection f @ [[]];
          proj' = proj[0 := proj ! 0 @ [root]];
          f' = f\<lparr>projection := proj',
                 characters := (characters f)(root \<mapsto> CrdtRelation_new 0 0 0)\<rparr>
      in add_chars f' counter 0 0 file_contents)"

text \<open>
  \<open>SharFile::new\<close>: \<open>std::fs::read_to_string\<close> is a parameter, the text of its error on the left.
\<close>

definition SharFile_new ::
  "(path \<Rightarrow> string + uchar list) \<Rightarrow> path \<Rightarrow> u32 \<Rightarrow> (error + shar_file \<times> u32) option"
where
  "SharFile_new read_to_string p counter =
     (case read_to_string p of
        Inr contents \<Rightarrow>
          map_option Inr
            (add_file \<lparr>file_path = p, characters = Map.empty, projection = []\<rparr> contents counter)
      | Inl e \<Rightarrow>
          Some (Inl (ReadFail (''Something went wrong while trying to read file contents: '' @ [CHR 0x0A]
                               @ '' '' @ e @ '' '' @ [CHR 0x0A]))))"

end
