(* ===== verification/FindCrdt.thy ===== *)
theory FindCrdt
  imports SharFile
begin

text \<open>
  \<open>find_crdt\<close> and its ring search: whatever the hint, the search returns the position of the
  character, and an error exactly when no line holds it.
\<close>

section \<open>The ring search\<close>

lemma check_upD:
  "check_up proj n k up = (Inr (r, c), up') \<Longrightarrow> n < length proj \<Longrightarrow>
     r < length proj \<and> c < length (proj ! r) \<and> proj ! r ! c = k"
  by (auto simp: check_up_def split: if_splits option.splits dest: index_of_SomeD)

lemma check_downD:
  "check_down proj n k down = (Inr (r, c), down') \<Longrightarrow>
     r < length proj \<and> c < length (proj ! r) \<and> proj ! r ! c = k"
  by (auto simp: check_down_def split: if_splits option.splits dest: index_of_SomeD)

lemma ring_search_step:
  "ux \<Longrightarrow> dx \<Longrightarrow>
     ring_search proj n k up down ux dx = Inl (OutOfBounds ''parent cannot be found'')"
  "\<not> ux \<or> \<not> dx \<Longrightarrow> check_up proj n k up = (Inr p, up') \<Longrightarrow>
     ring_search proj n k up down ux dx = Inr p"
  "\<not> ux \<or> \<not> dx \<Longrightarrow> check_up proj n k up = (Inl e, up') \<Longrightarrow>
     check_down proj n k down = (Inr p, down') \<Longrightarrow>
     ring_search proj n k up down ux dx = Inr p"
  "\<not> ux \<or> \<not> dx \<Longrightarrow> check_up proj n k up = (Inl e, up') \<Longrightarrow>
     check_down proj n k down = (Inl e', down') \<Longrightarrow>
     ring_search proj n k up down ux dx =
       ring_search proj n k up' down'
         (if e = OutOfBounds ''up exhausted'' then True else ux)
         (if e' = OutOfBounds ''down exhausted'' then True else dx)"
  by (subst ring_search.simps, simp)+

text \<open>What the search returns is right, and it fails with one error only.\<close>

definition ring_result_ok :: "key list list \<Rightarrow> key \<Rightarrow> error + pos \<Rightarrow> bool" where
  "ring_result_ok proj k res =
     (case res of
        Inl e \<Rightarrow> e = OutOfBounds ''parent cannot be found''
      | Inr p \<Rightarrow> fst p < length proj \<and> snd p < length (proj ! fst p) \<and> proj ! fst p ! snd p = k)"

lemma ring_search_ok:
  "n < length proj \<Longrightarrow> ring_result_ok proj k (ring_search proj n k up down ux dx)"
proof (induction proj n k up down ux dx rule: ring_search.induct)
  case (1 proj n k up down ux dx)
  obtain u up' where u: "check_up proj n k up = (u, up')" by fastforce
  obtain d down' where d: "check_down proj n k down = (d, down')" by fastforce
  consider "ux \<and> dx" | p where "\<not> ux \<or> \<not> dx" "u = Inr p"
    | e p where "\<not> ux \<or> \<not> dx" "u = Inl e" "d = Inr p"
    | e e' where "\<not> ux \<or> \<not> dx" "u = Inl e" "d = Inl e'"
    by (metis sum.exhaust)
  then show ?case
  proof cases
    case 1
    then show ?thesis by (simp add: ring_search_step(1) ring_result_ok_def)
  next
    case 2
    then show ?thesis
      using u check_upD [of proj n k up "fst p" "snd p"] "1.prems"
      by (simp add: ring_search_step(2) ring_result_ok_def)
  next
    case 3
    then show ?thesis
      using u d check_downD [of proj n k down "fst p" "snd p"]
      by (simp add: ring_search_step(3) ring_result_ok_def)
  next
    case 4
    then show ?thesis
      using "1.IH" [OF 4(1) u [symmetric] 4(2) d [symmetric] 4(3) "1.prems"] u d
      by (simp only: ring_search_step(4) [OF 4(1)])
  qed
qed

text \<open>A row that the search has not passed yet is still found.\<close>

definition ahead :: "nat \<Rightarrow> nat \<Rightarrow> nat \<Rightarrow> bool \<Rightarrow> bool \<Rightarrow> nat \<Rightarrow> bool" where
  "ahead n up down ux dx r \<longleftrightarrow> (r < n \<and> up \<le> n - r \<and> \<not> ux) \<or> (n < r \<and> down \<le> r - n \<and> \<not> dx)"

lemma check_up_miss:
  assumes "check_up proj n k up = (Inl e, up')" "k \<in> set (proj ! r)" "r < n" "up \<le> n - r"
  shows "up' \<le> n - r \<and> e \<noteq> OutOfBounds ''up exhausted''"
proof -
  have le: "\<not> n < up" using assms(3,4) by arith
  with assms(1) have up': "up' = up + 1" "e \<noteq> OutOfBounds ''up exhausted''"
    and no: "k \<notin> set (proj ! (n - up))"
    by (auto simp: check_up_def vec_simps split: option.splits)
  from no assms(2,3) have "n - up \<noteq> r" by blast
  with assms(3,4) le have "Suc up \<le> n - r" by arith
  with up' show ?thesis by simp
qed

lemma check_down_miss:
  assumes "check_down proj n k down = (Inl e, down')" "k \<in> set (proj ! r)" "r < length proj"
    "n < r" "down \<le> r - n"
  shows "down' \<le> r - n \<and> e \<noteq> OutOfBounds ''down exhausted''"
proof -
  have le: "\<not> n + down \<ge> length proj" using assms(3-5) by arith
  with assms(1) have down': "down' = down + 1" "e \<noteq> OutOfBounds ''down exhausted''"
    and no: "k \<notin> set (proj ! (n + down))"
    by (auto simp: check_down_def vec_simps split: option.splits)
  from no assms(2) have "n + down \<noteq> r" by blast
  with assms(5) down' assms(4) show ?thesis by auto
qed

lemma ring_search_complete:
  "k \<in> set (proj ! r) \<Longrightarrow> r < length proj \<Longrightarrow> ahead n up down ux dx r \<Longrightarrow>
     \<exists>p. ring_search proj n k up down ux dx = Inr p"
proof (induction proj n k up down ux dx rule: ring_search.induct)
  case (1 proj n k up down ux dx)
  have go: "\<not> ux \<or> \<not> dx" using "1.prems"(3) by (auto simp: ahead_def)
  obtain u up' where u: "check_up proj n k up = (u, up')" by fastforce
  obtain d down' where d: "check_down proj n k down = (d, down')" by fastforce
  show ?case
  proof (cases "\<exists>p. u = Inr p \<or> d = Inr p")
    case True
    with go u d show ?thesis
      by (cases u) (auto simp: ring_search_step)
  next
    case False
    then obtain e e' where e: "u = Inl e" "d = Inl e'"
      by (metis sum.exhaust)
    let ?ux = "if e = OutOfBounds ''up exhausted'' then True else ux"
    let ?dx = "if e' = OutOfBounds ''down exhausted'' then True else dx"
    have "ahead n up' down' ?ux ?dx r"
      using "1.prems" u d e check_up_miss [of proj n k up e up' r]
        check_down_miss [of proj n k down e' down' r]
      unfolding ahead_def by (metis (full_types))
    then have "\<exists>p. ring_search proj n k up' down' ?ux ?dx = Inr p"
      by (rule "1.IH" [OF go u [symmetric] e(1) d [symmetric] e(2) "1.prems"(1,2)])
    with go u d e show ?thesis
      by (simp only: ring_search_step(4))
  qed
qed

section \<open>\<open>find_crdt\<close>\<close>

lemma find_crdt_root [simp]: "find_crdt f n root = Some (Inr (0, 0))"
  by (simp add: find_crdt_def)

lemma find_crdt_returns:
  "projection f \<noteq> [] \<Longrightarrow> \<exists>res. find_crdt f n k = Some res"
  by (auto simp: find_crdt_def Let_def vec_get_def split: option.splits)

text \<open>The line the search starts at: the hint when it is a row, row 0 otherwise.\<close>

lemma find_crdt_eq:
  assumes "projection f \<noteq> []" "k \<noteq> root"
  obtains m where "m < length (projection f)"
    and "find_crdt f n k =
      Some (case index_of k (projection f ! m) of Some i \<Rightarrow> Inr (m, i)
            | None \<Rightarrow> ring_search (projection f) m k 1 1 False False)"
proof (cases "n < length (projection f)")
  case True
  show ?thesis by (rule that [of n]) (use True assms in \<open>auto simp: find_crdt_def vec_get_def\<close>)
next
  case False
  show ?thesis by (rule that [of 0]) (use False assms in \<open>auto simp: find_crdt_def vec_get_def\<close>)
qed

lemma find_crdt_ok:
  assumes "find_crdt f n k = Some res" "k \<noteq> root"
  shows "ring_result_ok (projection f) k res"
proof -
  have "projection f \<noteq> []" using assms by (auto simp: find_crdt_def Let_def vec_get_def)
  then obtain m where m: "m < length (projection f)"
    "res = (case index_of k (projection f ! m) of Some i \<Rightarrow> Inr (m, i)
            | None \<Rightarrow> ring_search (projection f) m k 1 1 False False)"
    using find_crdt_eq [OF _ assms(2), of f n] assms(1) by (metis option.inject)
  then show ?thesis
    using ring_search_ok [OF m(1)]
    by (auto simp: ring_result_ok_def split: option.splits dest: index_of_SomeD)
qed

lemma find_crdt_sound:
  assumes "find_crdt f n k = Some (Inr (r, c))" "k \<noteq> root"
  shows "r < length (projection f) \<and> c < length (projection f ! r) \<and> projection f ! r ! c = k"
  using find_crdt_ok [OF assms] by (simp add: ring_result_ok_def)

lemma find_crdt_complete:
  assumes "k \<in> set (concat (projection f))"
  shows "\<exists>p. find_crdt f n k = Some (Inr p)"
proof (cases "k = root")
  case False
  obtain r where r: "r < length (projection f)" "k \<in> set (projection f ! r)"
    using assms by (auto simp del: set_concat simp: in_concat_iff)
  then have "projection f \<noteq> []" by auto
  then obtain m where eq: "find_crdt f n k =
      Some (case index_of k (projection f ! m) of Some i \<Rightarrow> Inr (m, i)
            | None \<Rightarrow> ring_search (projection f) m k 1 1 False False)"
    using find_crdt_eq [OF _ False, of f n] by metis
  show ?thesis
  proof (cases "index_of k (projection f ! m)")
    case None
    with r(2) have "r \<noteq> m" by (auto simp: vec_simps)
    then have "ahead m 1 1 False False r" by (auto simp: ahead_def)
    then show ?thesis
      using ring_search_complete [OF r(2) r(1)] eq None by fastforce
  qed (simp add: eq)
qed simp

lemma find_crdt_at:
  assumes "distinct (concat (projection f))"
    and "r < length (projection f)" "c < length (projection f ! r)" "projection f ! r ! c = k"
    and "k \<noteq> root"
  shows "find_crdt f n k = Some (Inr (r, c))"
proof -
  have "k \<in> set (concat (projection f))" using assms(2-4) by (auto simp del: set_concat simp: in_concat_iff)
  then obtain r' c' where found: "find_crdt f n k = Some (Inr (r', c'))"
    using find_crdt_complete by fastforce
  note s = find_crdt_sound [OF found assms(5)]
  have "r' = r"
    using distinct_concat_same_row [OF assms(1), of r' r k] s assms(2-4) by (metis nth_mem)
  moreover have "c' = c"
    using distinct_concat_row [OF assms(1,2)] s assms(3,4) \<open>r' = r\<close> nth_eq_iff_index_eq by blast
  ultimately show ?thesis using found by simp
qed

lemma find_crdt_missing:
  assumes "projection f \<noteq> []" "k \<notin> set (concat (projection f))" "k \<noteq> root"
  shows "find_crdt f n k = Some (Inl (OutOfBounds ''parent cannot be found''))"
proof -
  obtain res where res: "find_crdt f n k = Some res"
    using find_crdt_returns [OF assms(1)] by blast
  have "\<nexists>p. res = Inr p"
    using find_crdt_sound [of f n k] res assms(2,3) nth_mem
    by (fastforce simp del: set_concat simp: in_concat_iff)
  then obtain e where "res = Inl e" by (cases res) auto
  with find_crdt_ok [OF res assms(3)] res show ?thesis by (simp add: ring_result_ok_def)
qed

end
