(* ===== verification/Wellformed.thy ===== *)
theory Wellformed
  imports FindCrdt
begin

text \<open>
  What a \<open>SharFile\<close> keeps true while every insertion has a live parent or a tombstone below a
  live character: the projection shows exactly the live characters, once each; line 0 starts with
  the root sentinel and every other line with its own line break; every parent chain ends at the
  root. The projection is then determined by its flat reading order.
\<close>

section \<open>Rows\<close>

definition plain_row :: "(key \<Rightarrow> bool) \<Rightarrow> key list \<Rightarrow> bool" where
  "plain_row br l \<longleftrightarrow> (\<forall>x \<in> set l. \<not> br x)"

definition break_row :: "(key \<Rightarrow> bool) \<Rightarrow> key list \<Rightarrow> bool" where
  "break_row br l \<longleftrightarrow> (case l of [] \<Rightarrow> False | b # cs \<Rightarrow> br b \<and> plain_row br cs)"

fun rows_ok :: "(key \<Rightarrow> bool) \<Rightarrow> key list list \<Rightarrow> bool" where
  "rows_ok br [] = False"
| "rows_ok br (l # ls) = (plain_row br l \<and> (\<forall>l' \<in> set ls. break_row br l'))"

lemma rows_ok_append:
  "A \<noteq> [] \<Longrightarrow> rows_ok br (A @ B) \<longleftrightarrow> rows_ok br A \<and> (\<forall>l \<in> set B. break_row br l)"
  by (cases A) auto

lemma rows_ok_snoc:
  "rows_ok br (A @ l # B) \<longleftrightarrow>
     (if A = [] then plain_row br l else rows_ok br A \<and> break_row br l) \<and>
     (\<forall>l' \<in> set B. break_row br l')"
  by (cases A) auto

lemma break_row_cong:
  "(\<And>x. x \<in> set l \<Longrightarrow> br x = br' x) \<Longrightarrow> break_row br l = break_row br' l"
  by (cases l) (auto simp: break_row_def plain_row_def)

lemma rows_ok_cong:
  assumes "\<And>x. x \<in> set (concat p) \<Longrightarrow> br x = br' x"
  shows "rows_ok br p = rows_ok br' p"
proof (cases p)
  case (Cons l ls)
  have "plain_row br l = plain_row br' l"
    using assms Cons by (auto simp: plain_row_def)
  moreover have "break_row br l' = break_row br' l'" if "l' \<in> set ls" for l'
    by (rule break_row_cong) (use assms Cons that in auto)
  ultimately show ?thesis using Cons by auto
qed simp

lemma plain_row_insert:
  "plain_row br (xs @ ys) \<Longrightarrow> \<not> br k \<Longrightarrow> plain_row br (xs @ k # ys)"
  by (auto simp: plain_row_def)

lemma break_row_insert:
  "break_row br (xs @ ys) \<Longrightarrow> xs \<noteq> [] \<Longrightarrow> \<not> br k \<Longrightarrow> break_row br (xs @ k # ys)"
  by (cases xs) (auto simp: break_row_def plain_row_def)

lemma break_row_prefix: "break_row br (xs @ ys) \<Longrightarrow> xs \<noteq> [] \<Longrightarrow> break_row br xs \<and> plain_row br ys"
  by (cases xs) (auto simp: break_row_def plain_row_def)

lemma plain_row_append: "plain_row br (xs @ ys) \<longleftrightarrow> plain_row br xs \<and> plain_row br ys"
  by (auto simp: plain_row_def)

lemma break_row_append:
  "break_row br l \<Longrightarrow> plain_row br ys \<Longrightarrow> break_row br (l @ ys)"
  by (cases l) (auto simp: break_row_def plain_row_def)

lemma break_row_Cons: "break_row br (b # cs) \<longleftrightarrow> br b \<and> plain_row br cs"
  by (simp add: break_row_def)

text \<open>The three edits an operation makes to well-formed rows.\<close>

lemma rows_ok_insert:
  "rows_ok br (A @ (xs @ ys) # B) \<Longrightarrow> xs \<noteq> [] \<Longrightarrow> \<not> br k \<Longrightarrow> rows_ok br (A @ (xs @ k # ys) # B)"
  by (auto simp: rows_ok_snoc intro: plain_row_insert break_row_insert split: if_splits)

lemma rows_ok_split:
  "rows_ok br (A @ (xs @ ys) # B) \<Longrightarrow> xs \<noteq> [] \<Longrightarrow> br k \<Longrightarrow> rows_ok br (A @ xs # (k # ys) # B)"
  by (auto simp: rows_ok_snoc plain_row_append break_row_Cons dest: break_row_prefix
      split: if_splits)

lemma rows_ok_delete:
  "rows_ok br (A @ (xs @ k # ys) # B) \<Longrightarrow> \<not> br k \<Longrightarrow> rows_ok br (A @ (xs @ ys) # B)"
  by (cases xs) (auto simp: rows_ok_snoc plain_row_append break_row_def plain_row_def
      split: if_splits)

lemma rows_ok_merge:
  "rows_ok br (A @ l # (k # ys) # B) \<Longrightarrow> rows_ok br (A @ (l @ ys) # B)"
  by (auto simp: rows_ok_snoc plain_row_append break_row_Cons break_row_append split: if_splits)

text \<open>Well-formed rows are determined by the flat list.\<close>

lemma takeWhile_rows:
  assumes "plain_row br ds" "\<forall>l \<in> set r. break_row br l"
  shows "takeWhile (\<lambda>x. \<not> br x) (ds @ concat r) = ds"
proof (cases r)
  case (Cons l r')
  with assms(2) obtain b ds' where "l = b # ds'" "br b"
    by (auto simp: break_row_def split: list.splits)
  with assms(1) Cons show ?thesis by (auto simp: plain_row_def takeWhile_append)
qed (use assms(1) in \<open>auto simp: plain_row_def takeWhile_eq_all_conv\<close>)

lemma break_rows_unique:
  "(\<forall>l \<in> set p. break_row br l) \<Longrightarrow> (\<forall>l \<in> set q. break_row br l) \<Longrightarrow>
     concat p = concat q \<Longrightarrow> p = q"
proof (induction p arbitrary: q)
  case Nil
  then show ?case by (cases q) (auto simp: break_row_def split: list.splits)
next
  case (Cons l p)
  then obtain b cs where l: "l = b # cs" "br b" "plain_row br cs"
    by (auto simp: break_row_def split: list.splits)
  from Cons.prems l obtain m q' where q: "q = m # q'" by (cases q) auto
  with Cons.prems obtain b' cs' where m: "m = b' # cs'" "br b'" "plain_row br cs'"
    by (auto simp: break_row_def split: list.splits)
  have eq: "cs @ concat p = cs' @ concat q'" "b = b'"
    using Cons.prems(3) l q m by auto
  have "cs = cs'"
    using takeWhile_rows [OF l(3), of p] takeWhile_rows [OF m(3), of q'] eq(1) Cons.prems(1,2) q by simp
  with eq Cons.IH [of q'] Cons.prems(1,2) q l m show ?case by simp
qed

lemma rows_ok_unique:
  assumes "rows_ok br p" "rows_ok br q" "concat p = concat q"
  shows "p = q"
proof -
  obtain l ls where p: "p = l # ls" "plain_row br l" "\<forall>l' \<in> set ls. break_row br l'"
    using assms(1) by (cases p) auto
  obtain m ms where q: "q = m # ms" "plain_row br m" "\<forall>l' \<in> set ms. break_row br l'"
    using assms(2) by (cases q) auto
  have "l = m"
    using takeWhile_rows [OF p(2,3)] takeWhile_rows [OF q(2,3)] assms(3) p(1) q(1) by simp
  with assms(3) p(1) q(1) have "l = m" "concat ls = concat ms" by auto
  with break_rows_unique [OF p(3) q(3)] p(1) q(1) show ?thesis by simp
qed

section \<open>Files\<close>

definition is_break :: "(key \<rightharpoonup> crdt_relation) \<Rightarrow> key \<Rightarrow> bool" where
  "is_break chars k =
     (case chars k of None \<Rightarrow> False | Some r \<Rightarrow> is_line_break (cr_value r))"

text \<open>The reading order of the file: its lines, one after the other.\<close>

definition flat :: "shar_file \<Rightarrow> key list" where
  "flat f = concat (projection f)"

text \<open>The parent chain of a character ends at the root.\<close>

inductive anchored :: "(key \<rightharpoonup> crdt_relation) \<Rightarrow> key \<Rightarrow> bool" for chars where
  anchored_root: "chars root = Some r \<Longrightarrow> anchored chars root"
| anchored_step: "chars k = Some r \<Longrightarrow> anchored chars (parent_key r) \<Longrightarrow> anchored chars k"

inductive_cases anchored_elim: "anchored chars k"

definition root_ok :: "(key \<rightharpoonup> crdt_relation) \<Rightarrow> bool" where
  "root_ok chars \<longleftrightarrow> chars root = Some (CrdtRelation_new 0 0 0)"

text \<open>The tree part of the invariant, and the part on the projection.\<close>

definition wf_chars :: "(key \<rightharpoonup> crdt_relation) \<Rightarrow> bool" where
  "wf_chars chars \<longleftrightarrow>
     root_ok chars \<and> finite (dom chars) \<and> (\<forall>k \<in> dom chars. anchored chars k)"

definition live_keys :: "(key \<rightharpoonup> crdt_relation) \<Rightarrow> key set" where
  "live_keys chars = {k. \<exists>r. chars k = Some r \<and> \<not> cr_deleted r}"

definition wf_proj :: "(key \<rightharpoonup> crdt_relation) \<Rightarrow> key list list \<Rightarrow> bool" where
  "wf_proj chars p \<longleftrightarrow>
     distinct (concat p) \<and> set (concat p) = live_keys chars \<and>
     rows_ok (is_break chars) p \<and> (\<exists>cs ls. p = (root # cs) # ls)"

definition wf_file :: "shar_file \<Rightarrow> bool" where
  "wf_file f \<longleftrightarrow> wf_chars (characters f) \<and> wf_proj (characters f) (projection f)"

lemma wf_fileD:
  assumes "wf_file f"
  shows "wf_chars (characters f)" "wf_proj (characters f) (projection f)"
    "distinct (flat f)" "set (flat f) = live_keys (characters f)"
    "rows_ok (is_break (characters f)) (projection f)" "projection f \<noteq> []"
  using assms by (auto simp: wf_file_def wf_proj_def flat_def simp del: set_concat)

lemma is_break_upd [simp]:
  "is_break (chars(k \<mapsto> r)) x = (if x = k then is_line_break (cr_value r) else is_break chars x)"
  by (simp add: is_break_def)

lemma anchored_dom: "anchored chars k \<Longrightarrow> k \<in> dom chars"
  by (auto elim: anchored_elim)

lemma anchored_parent:
  "anchored chars k \<Longrightarrow> chars k = Some r \<Longrightarrow> root_ok chars \<Longrightarrow> anchored chars (parent_key r)"
proof (induction rule: anchored.cases)
  case (anchored_root r')
  then show ?case
    by (simp add: root_ok_def) (metis CrdtRelation_new_simps(2) anchored.anchored_root)
qed simp

text \<open>A new node under a known parent, and a change of a node's flag, keep the chains.\<close>

lemma anchored_upd:
  "anchored chars k \<Longrightarrow> (\<And>r. chars x = Some r \<Longrightarrow> parent_key r' = parent_key r) \<Longrightarrow>
     anchored (chars(x \<mapsto> r')) k"
proof (induction rule: anchored.induct)
  case (anchored_root r)
  show ?case
    by (rule anchored.anchored_root [of _ "if x = root then r' else r"]) (use anchored_root in auto)
next
  case (anchored_step k r)
  show ?case
    by (rule anchored.anchored_step [of _ _ "if x = k then r' else r"]) (use anchored_step in auto)
qed

lemma wf_chars_upd:
  assumes "wf_chars chars" "\<And>r. chars k = Some r \<Longrightarrow> parent_key r' = parent_key r"
    and "k \<noteq> root" "parent_key r' \<in> dom chars"
  shows "wf_chars (chars(k \<mapsto> r'))"
proof -
  have old: "anchored (chars(k \<mapsto> r')) x" if "x \<in> dom chars" for x
    by (rule anchored_upd) (use assms(1,2) that in \<open>auto simp: wf_chars_def\<close>)
  have "anchored (chars(k \<mapsto> r')) k"
    by (rule anchored_step [of _ _ r']) (use old assms(4) in auto)
  then have "anchored (chars(k \<mapsto> r')) x" if "x \<in> dom (chars(k \<mapsto> r'))" for x
    using old [of x] that by (cases "x = k") (simp_all only: dom_fun_upd, auto)
  with assms(1,3) show ?thesis by (simp add: wf_chars_def root_ok_def)
qed

lemma wf_chars_root: "wf_chars chars \<Longrightarrow> chars root = Some (CrdtRelation_new 0 0 0)"
  by (simp add: wf_chars_def root_ok_def)

lemma wf_chars_add:
  "wf_chars chars \<Longrightarrow> parent_key r \<in> dom chars \<Longrightarrow> chars k = None \<Longrightarrow> wf_chars (chars(k \<mapsto> r))"
  by (rule wf_chars_upd) (auto dest: wf_chars_root)

lemma wf_parent:
  "wf_chars chars \<Longrightarrow> chars k = Some r \<Longrightarrow> parent_key r \<in> dom chars"
  unfolding wf_chars_def by (blast dest: anchored_parent anchored_dom)

lemma wf_chars_mark:
  "wf_chars chars \<Longrightarrow> chars k = Some r \<Longrightarrow> k \<noteq> root \<Longrightarrow>
     wf_chars (chars(k \<mapsto> r\<lparr>cr_deleted := b\<rparr>))"
  by (rule wf_chars_upd) (auto dest: wf_parent)

lemma root_live: "wf_chars chars \<Longrightarrow> root \<in> live_keys chars"
  by (simp add: wf_chars_def root_ok_def live_keys_def)

lemma root_not_break: "wf_chars chars \<Longrightarrow> \<not> is_break chars root"
  by (simp add: wf_chars_def root_ok_def is_break_def is_line_break_def)

text \<open>Where a live character is.\<close>

lemma wf_live_split:
  assumes "wf_file f" "k \<in> live_keys (characters f)"
  obtains A xs ys B where "projection f = A @ (xs @ k # ys) # B"
    and "\<And>n. find_crdt f n k = Some (Inr (length A, length xs))"
proof (cases "k = root")
  case True
  obtain cs ls where "projection f = (root # cs) # ls"
    using assms(1) by (auto simp: wf_file_def wf_proj_def)
  then show ?thesis using that [of "[]" "[]" cs ls] True by simp
next
  case False
  have "k \<in> set (concat (projection f))"
    using assms(2) wf_fileD(4) [OF assms(1)] by (simp only: flat_def)
  then obtain r where r: "r < length (projection f)" "k \<in> set (projection f ! r)"
    by (auto simp only: in_concat_iff)
  then obtain c where c: "c < length (projection f ! r)" "projection f ! r ! c = k"
    by (auto simp: in_set_conv_nth)
  show ?thesis
  proof (rule that [of "take r (projection f)" "take c (projection f ! r)"
        "drop (Suc c) (projection f ! r)" "drop (Suc r) (projection f)"])
    show "projection f = take r (projection f) @
        (take c (projection f ! r) @ k # drop (Suc c) (projection f ! r)) #
        drop (Suc r) (projection f)"
      using c nth_split [OF r(1)] nth_split [OF c(1)] by simp
    show "find_crdt f n k = Some (Inr (length (take r (projection f)), length (take c (projection f ! r))))"
      for n
      using find_crdt_at [OF _ r(1) c False] wf_fileD(3) [OF assms(1)] r(1) c(1)
      by (simp add: flat_def)
  qed
qed

text \<open>Two well-formed files with the same characters and reading order are equal.\<close>

lemma wf_proj_unique:
  "wf_proj chars p \<Longrightarrow> wf_proj chars q \<Longrightarrow> concat p = concat q \<Longrightarrow> p = q"
  by (rule rows_ok_unique [of "is_break chars"]) (simp_all add: wf_proj_def)

lemma wf_file_unique:
  "wf_file f \<Longrightarrow> wf_file g \<Longrightarrow> characters f = characters g \<Longrightarrow> flat f = flat g \<Longrightarrow>
     projection f = projection g"
  by (metis flat_def wf_fileD(2) wf_proj_unique)

section \<open>The edits keep the invariant\<close>

lemma live_keys_add:
  "\<not> cr_deleted r \<Longrightarrow> live_keys (chars(k \<mapsto> r)) = insert k (live_keys chars)"
  by (auto simp: live_keys_def)

lemma live_keys_mark:
  "chars k = Some r \<Longrightarrow> live_keys (chars(k \<mapsto> r\<lparr>cr_deleted := True\<rparr>)) = live_keys chars - {k}"
  by (auto simp: live_keys_def)

lemma live_keys_dom: "live_keys chars \<subseteq> dom chars"
  by (auto simp: live_keys_def)

lemma is_break_mark [simp]:
  "chars k = Some r \<Longrightarrow> is_break (chars(k \<mapsto> r\<lparr>cr_deleted := b\<rparr>)) = is_break chars"
  by (rule ext) (simp add: is_break_def)

text \<open>
  An edit of the projection: what it does to the flat list and to the rows is all the invariant
  needs.
\<close>

lemma wf_proj_add:
  assumes "wf_proj chars p" "chars k = None" "\<not> cr_deleted r"
    and "concat p = us @ vs" "concat p' = us @ k # vs"
    and "rows_ok (is_break (chars(k \<mapsto> r))) p \<Longrightarrow> rows_ok (is_break (chars(k \<mapsto> r))) p'"
    and "\<exists>cs ls. p' = (root # cs) # ls"
  shows "wf_proj (chars(k \<mapsto> r)) p'"
proof -
  have flat: "distinct (us @ vs)" "set (us @ vs) = live_keys chars"
    using assms(1,4) by (simp_all add: wf_proj_def)
  with assms(2) have new: "k \<notin> set (us @ vs)" by (simp add: live_keys_def)
  have "rows_ok (is_break (chars(k \<mapsto> r))) p = rows_ok (is_break chars) p"
    by (rule rows_ok_cong) (use new assms(4) in auto)
  then have "rows_ok (is_break (chars(k \<mapsto> r))) p"
    using assms(1) by (simp only: wf_proj_def)
  then have rows: "rows_ok (is_break (chars(k \<mapsto> r))) p'" by (rule assms(6))
  from flat have "distinct (concat p')" "set (concat p') = insert k (live_keys chars)"
    using new unfolding assms(5) by auto
  then show ?thesis
    using rows assms(7) live_keys_add [OF assms(3)] by (simp add: wf_proj_def)
qed

lemma wf_proj_remove:
  assumes "wf_proj chars p" "chars k = Some r"
    and "concat p = us @ k # vs" "concat p' = us @ vs"
    and "rows_ok (is_break chars) p \<Longrightarrow> rows_ok (is_break chars) p'"
    and "\<exists>cs ls. p' = (root # cs) # ls"
  shows "wf_proj (chars(k \<mapsto> r\<lparr>cr_deleted := True\<rparr>)) p'"
proof -
  have "distinct (us @ k # vs)" "set (us @ k # vs) = live_keys chars"
    using assms(1,3) by (simp_all add: wf_proj_def)
  then have "distinct (concat p')" "set (concat p') = live_keys chars - {k}"
    unfolding assms(4) by auto
  then show ?thesis
    using assms(1,2,5,6) by (simp add: wf_proj_def live_keys_mark)
qed

lemma rooted_edit:
  "\<exists>cs ls. A @ (xs @ ys) # B = (root # cs) # ls \<Longrightarrow> xs \<noteq> [] \<Longrightarrow>
     \<exists>cs ls. A @ (xs @ zs) # C = (root # cs) # ls"
  by (cases A; cases xs) auto

lemma wf_insert_char:
  assumes "wf_proj chars (A @ (xs @ ys) # B)" "xs \<noteq> []" "chars k = None"
    and "\<not> is_line_break (cr_value r)" "\<not> cr_deleted r"
  shows "wf_proj (chars(k \<mapsto> r)) (A @ (xs @ k # ys) # B)"
proof (rule wf_proj_add [OF assms(1,3,5), of "concat A @ xs" "ys @ concat B"])
  show "\<exists>cs ls. A @ (xs @ k # ys) # B = (root # cs) # ls"
    using assms(1,2) rooted_edit unfolding wf_proj_def by blast
qed (use assms(2,4) in \<open>auto intro: rows_ok_insert\<close>)

lemma wf_insert_break:
  assumes "wf_proj chars (A @ (xs @ ys) # B)" "xs \<noteq> []" "chars k = None"
    and "is_line_break (cr_value r)" "\<not> cr_deleted r"
  shows "wf_proj (chars(k \<mapsto> r)) (A @ xs # (k # ys) # B)"
proof (rule wf_proj_add [OF assms(1,3,5), of "concat A @ xs" "ys @ concat B"])
  show "\<exists>cs ls. A @ xs # (k # ys) # B = (root # cs) # ls"
    using assms(1,2) rooted_edit [of A xs ys B "[]"] unfolding wf_proj_def by fastforce
qed (use assms(2,4) in \<open>auto intro: rows_ok_split\<close>)

lemma wf_remove_char:
  assumes "wf_proj chars (A @ (xs @ k # ys) # B)" "chars k = Some r" "k \<noteq> root"
    and "\<not> is_line_break (cr_value r)"
  shows "wf_proj (chars(k \<mapsto> r\<lparr>cr_deleted := True\<rparr>)) (A @ (xs @ ys) # B)"
proof (rule wf_proj_remove [OF assms(1,2), of "concat A @ xs" "ys @ concat B"])
  show "rows_ok (is_break chars) (A @ (xs @ ys) # B)" if "rows_ok (is_break chars) (A @ (xs @ k # ys) # B)"
    using that by (rule rows_ok_delete) (use assms(2,4) in \<open>simp add: is_break_def\<close>)
  have "xs \<noteq> []"
  proof
    assume "xs = []"
    with assms(1,3) have "A \<noteq> []" unfolding wf_proj_def by (cases A) auto
    with assms(1) \<open>xs = []\<close> have "is_break chars k"
      unfolding wf_proj_def by (auto simp: rows_ok_snoc break_row_Cons)
    with assms(2,4) show False by (simp add: is_break_def)
  qed
  then show "\<exists>cs ls. A @ (xs @ ys) # B = (root # cs) # ls"
    using assms(1) rooted_edit unfolding wf_proj_def by blast
qed auto

lemma wf_remove_break:
  assumes "wf_proj chars (A @ l # (k # ys) # B)" "chars k = Some r"
  shows "wf_proj (chars(k \<mapsto> r\<lparr>cr_deleted := True\<rparr>)) (A @ (l @ ys) # B)"
proof (rule wf_proj_remove [OF assms, of "concat A @ l" "ys @ concat B"])
  have "l \<noteq> []" using assms(1) unfolding wf_proj_def by (cases A) (auto simp: break_row_def)
  then show "\<exists>cs ls. A @ (l @ ys) # B = (root # cs) # ls"
    using assms(1) rooted_edit [of A l "[]"] unfolding wf_proj_def by fastforce
qed (auto intro: rows_ok_merge)

text \<open>A projected line break is the first element of its row, and the row is not row 0.\<close>

lemma wf_break_position:
  assumes "wf_proj chars (A @ (xs @ k # ys) # B)" "is_break chars k"
  obtains A' l where "A = A' @ [l]" "xs = []"
proof -
  have ok: "rows_ok (is_break chars) (A @ (xs @ k # ys) # B)"
    using assms(1) by (simp add: wf_proj_def)
  then have "A \<noteq> []" using assms(2) by (auto simp: rows_ok_snoc plain_row_def)
  moreover have "xs = []"
    using ok assms(2) \<open>A \<noteq> []\<close>
    by (cases xs) (auto simp: rows_ok_snoc break_row_Cons plain_row_def)
  ultimately show ?thesis using that by (metis rev_exhaust)
qed

end
