(* ===== verification/InsertOrder.thy ===== *)
theory InsertOrder
  imports Wellformed
begin

text \<open>
  The abstract specification of an insertion: where a character goes in the flat reading order of
  a file. A line break goes right after its parent. Any other character goes after its parent and
  after the siblings directly following it that have a larger id, or the same id and a smaller
  peer.
\<close>

section \<open>The order of siblings\<close>

datatype rank = Rank u32 u32

instantiation rank :: linorder
begin

fun less_rank :: "rank \<Rightarrow> rank \<Rightarrow> bool" where
  "less_rank (Rank i p) (Rank j q) \<longleftrightarrow> j < i \<or> i = j \<and> p < q"

definition less_eq_rank :: "rank \<Rightarrow> rank \<Rightarrow> bool" where
  "less_eq_rank a b \<longleftrightarrow> a < b \<or> a = b"

instance
proof
  fix x y z :: rank
  show "x < y \<longleftrightarrow> x \<le> y \<and> \<not> y \<le> x"
    by (cases x; cases y) (auto simp: less_eq_rank_def)
  show "x \<le> x" by (simp add: less_eq_rank_def)
  show "x \<le> y \<Longrightarrow> y \<le> z \<Longrightarrow> x \<le> z"
    by (cases x; cases y; cases z) (auto simp: less_eq_rank_def)
  show "x \<le> y \<Longrightarrow> y \<le> x \<Longrightarrow> x = y"
    by (cases x; cases y) (auto simp: less_eq_rank_def)
  show "x \<le> y \<or> y \<le> x"
    by (cases x; cases y) (auto simp: less_eq_rank_def)
qed

end

definition rank_of :: "key \<Rightarrow> rank" where
  "rank_of k = Rank (fst k) (snd k)"

lemma rank_of_less: "rank_of a < rank_of b \<longleftrightarrow> fst b < fst a \<or> fst a = fst b \<and> snd a < snd b"
  by (simp add: rank_of_def)

lemma rank_of_eq_iff [simp]: "rank_of a = rank_of b \<longleftrightarrow> a = b"
  by (cases a; cases b) (simp add: rank_of_def)

section \<open>Placing a character among its siblings\<close>

text \<open>The elements an insertion of \<open>k\<close> below \<open>par\<close> goes past.\<close>

definition passes :: "(key \<rightharpoonup> crdt_relation) \<Rightarrow> key \<Rightarrow> key \<Rightarrow> key \<Rightarrow> bool" where
  "passes chars par k e \<longleftrightarrow>
     (case chars e of
        None \<Rightarrow> False
      | Some r \<Rightarrow>
          \<not> is_line_break (cr_value r) \<and> parent_key r = par \<and> rank_of e < rank_of k)"

fun place_among :: "(key \<Rightarrow> bool) \<Rightarrow> key \<Rightarrow> key list \<Rightarrow> key list" where
  "place_among P k [] = [k]"
| "place_among P k (e # es) = (if P e then e # place_among P k es else k # e # es)"

fun insert_after :: "(key list \<Rightarrow> key list) \<Rightarrow> key \<Rightarrow> key list \<Rightarrow> key list" where
  "insert_after g par [] = []"
| "insert_after g par (x # xs) = (if x = par then x # g xs else x # insert_after g par xs)"

definition insert_order ::
  "(key \<rightharpoonup> crdt_relation) \<Rightarrow> key \<Rightarrow> crdt_relation \<Rightarrow> key list \<Rightarrow> key list"
where
  "insert_order chars k r xs =
     insert_after
       (if is_line_break (cr_value r) then Cons k
        else place_among (passes chars (parent_key r) k) k)
       (parent_key r) xs"

lemma place_among_conv: "place_among P k es = takeWhile P es @ k # dropWhile P es"
  by (induction es) auto

lemma place_among_append:
  "\<exists>e \<in> set us. \<not> P e \<Longrightarrow> place_among P k (us @ vs) = place_among P k us @ vs"
  by (induction us) auto

lemma place_among_stop:
  "(\<And>e. vs \<noteq> [] \<Longrightarrow> \<not> P (hd vs)) \<Longrightarrow> place_among P k (us @ vs) = place_among P k us @ vs"
  by (induction us) (cases vs; auto)+

lemma place_among_last:
  "\<exists>e \<in> set (ws @ [q]). \<not> P e \<Longrightarrow>
     \<exists>zs. place_among P k (ws @ [q]) = zs @ [q] \<and> set zs = insert k (set ws)"
proof (induction ws)
  case Nil
  then show ?case by (intro exI [of _ "[k]"]) simp
next
  case (Cons w ws)
  show ?case
  proof (cases "P w")
    case True
    with Cons obtain zs where "place_among P k (ws @ [q]) = zs @ [q]" "set zs = insert k (set ws)"
      by auto
    with True show ?thesis by (intro exI [of _ "w # zs"]) auto
  next
    case False
    then show ?thesis by (intro exI [of _ "k # w # ws"]) simp
  qed
qed

lemma set_place_among [simp]: "set (place_among P k es) = insert k (set es)"
  by (induction es) auto

lemma place_among_cong:
  "(\<And>e. e \<in> set es \<Longrightarrow> P e = Q e) \<Longrightarrow> place_among P k es = place_among Q k es"
  by (induction es) auto

lemma insert_after_append:
  "par \<notin> set us \<Longrightarrow> insert_after g par (us @ par # vs) = us @ par # g vs"
  by (induction us) auto

lemma insert_after_notin: "par \<notin> set us \<Longrightarrow> insert_after g par (us @ vs) = us @ insert_after g par vs"
  by (induction us) auto

lemma passes_upd:
  "e \<noteq> x \<Longrightarrow> passes (chars(x \<mapsto> r)) par k e = passes chars par k e"
  by (simp add: passes_def)

section \<open>The loop over the siblings\<close>

text \<open>
  The loop of the source computes \<open>place_among\<close>: on a rest \<open>ys\<close> of the line without line breaks,
  with its first index at \<open>ys\<close>, it stops where \<open>passes\<close> first fails.
\<close>

lemma scan_siblings_eq:
  assumes "set ys \<subseteq> dom chars" "plain_row (is_break chars) ys"
    and "j + offset = length xs" "n + offset = Suc (length (xs @ ys))"
  shows "scan_siblings chars (xs @ ys) k par offset [j ..< n] =
    Some (if \<forall>e \<in> set ys. passes chars par k e then Slot_end (length (xs @ ys))
          else Slot_at (length xs + length (takeWhile (passes chars par k) ys)))"
  using assms
proof (induction ys arbitrary: xs j)
  case Nil
  then have "[j ..< n] = j # [Suc j ..< n]" by (intro upt_conv_Cons) simp
  with Nil show ?case by (simp add: vec_get_def)
next
  case (Cons y ys)
  have upt: "[j ..< n] = j # [Suc j ..< n]" using Cons.prems by (intro upt_conv_Cons) simp
  have get: "vec_get (xs @ y # ys) (j + offset) = Some y"
    using Cons.prems(3) by (simp add: vec_get_def)
  obtain r where r: "chars y = Some r" using Cons.prems(1) by auto
  have no: "\<not> is_line_break (cr_value r)"
    using Cons.prems(2) r by (simp add: plain_row_def is_break_def)
  have IH: "scan_siblings chars ((xs @ [y]) @ ys) k par offset [Suc j ..< n] =
    Some (if \<forall>e \<in> set ys. passes chars par k e then Slot_end (length ((xs @ [y]) @ ys))
          else Slot_at (length (xs @ [y]) + length (takeWhile (passes chars par k) ys)))"
    by (rule Cons.IH) (use Cons.prems in \<open>auto simp: plain_row_def\<close>)
  show ?case
    using IH get r no Cons.prems(3) unfolding upt
    by (cases "fst y < fst k"; cases "fst y = fst k")
      (auto simp: passes_def rank_of_less)
qed

text \<open>
  \<open>place_crdt\<close> for a character that is no line break: the coordinates are the parent's when it is
  live, the slot itself when it is not.
\<close>

lemma place_crdt_char:
  assumes "projection f = A @ (xs @ ys) # B" "\<not> is_line_break (cr_value r)"
    and "set ys \<subseteq> dom (characters f)" "plain_row (is_break (characters f)) ys"
    and "c + (if real then 1 else 0) = length xs"
  shows "place_crdt f k r (length A, c) real =
    Some (f\<lparr>projection :=
            A @ (xs @ place_among (passes (characters f) (parent_key r) k) k ys) # B\<rparr>,
          Inr (Some (length A,
            length xs + length (takeWhile (passes (characters f) (parent_key r) k) ys))))"
proof -
  let ?P = "passes (characters f) (parent_key r) k"
  let ?off = "if real then 1 else 0 :: nat"
  have range: "scan_range (xs @ ys) ?off c =
      [c ..< (if real then length (xs @ ys) else Suc (length (xs @ ys)))]"
    by (simp add: scan_range_def)
  have scan: "scan_siblings (characters f) (xs @ ys) k (parent_key r) ?off
        (scan_range (xs @ ys) ?off c) =
      Some (if \<forall>e \<in> set ys. ?P e then Slot_end (length (xs @ ys))
            else Slot_at (length xs + length (takeWhile ?P ys)))"
    unfolding range by (rule scan_siblings_eq) (use assms(3-5) in auto)
  have row: "vec_get (projection f) (length A) = Some (xs @ ys)"
    by (simp add: assms(1) vec_get_def)
  show ?thesis
  proof (cases "\<forall>e \<in> set ys. ?P e")
    case True
    then have all: "takeWhile ?P ys = ys" "dropWhile ?P ys = []"
      by (auto simp: takeWhile_eq_all_conv)
    have "scan_siblings (characters f) (xs @ ys) k (parent_key r) ?off
        (scan_range (xs @ ys) ?off c) = Some (Slot_end (length (xs @ ys)))"
      unfolding scan using True by simp
    with row show ?thesis
      by (simp add: place_crdt_def Let_def assms(1,2) place_among_conv all)
  next
    case False
    have "vec_insert (length (xs @ takeWhile ?P ys)) k
        ((xs @ takeWhile ?P ys) @ dropWhile ?P ys) =
        Some ((xs @ takeWhile ?P ys) @ k # dropWhile ?P ys)"
      by (rule vec_insert_append)
    moreover have "scan_siblings (characters f) (xs @ ys) k (parent_key r) ?off
        (scan_range (xs @ ys) ?off c) =
        Some (Slot_at (length xs + length (takeWhile ?P ys)))"
      unfolding scan using False by simp
    ultimately show ?thesis using row
      by (simp add: place_crdt_def Let_def assms(1,2) place_among_conv)
  qed
qed

text \<open>\<open>place_crdt\<close> for a line break below a live parent.\<close>

lemma place_crdt_break:
  assumes "projection f = A @ (xs @ ys) # B" "is_line_break (cr_value r)"
    and "xs \<noteq> []" "c + 1 = length xs"
  shows "place_crdt f k r (length A, c) True =
    Some (f\<lparr>projection := A @ xs # (k # ys) # B\<rparr>, Inr (Some (length A + 1, 0)))"
proof -
  have "vec_insert (length (A @ [xs])) (k # ys) ((A @ [xs]) @ B) = Some ((A @ [xs]) @ (k # ys) # B)"
    by (rule vec_insert_append)
  then show ?thesis
    using assms by (simp add: place_crdt_def add_line_to_projection_def Let_def vec_get_def)
qed

end
