(* ===== verification/SharFileOps.thy ===== *)
theory SharFileOps
  imports InsertOrder
begin

text \<open>
  \<open>add_crdt\<close> below a live parent and \<open>remove_crdt\<close> on a well-formed file: they return, whatever
  the hint; the file stays well-formed; and on the flat reading order they are \<open>insert_order\<close> and
  the removal of one element.
\<close>

section \<open>Where an operation leaves the file alone\<close>

lemma add_crdt_unknown_parent:
  "characters f (parent_key (crdt_relation c)) = None \<Longrightarrow>
     add_crdt f n c = Some (f, Inl (Generic ''Parent does not exist''))"
  by (simp add: add_crdt_def Let_def)

lemma add_crdt_duplicate:
  "characters f (parent_key (crdt_relation c)) \<noteq> None \<Longrightarrow> characters f (crdt_key c) \<noteq> None \<Longrightarrow>
     add_crdt f n c = Some (f, Inr None)"
  by (auto simp: add_crdt_def Let_def)

lemma remove_crdt_unknown:
  "characters f k = None \<Longrightarrow> remove_crdt f n k = Some (f, Inl (Generic ''crdt cannot be found''))"
  by (simp add: remove_crdt_def)

lemma remove_crdt_again:
  "characters f k = Some r \<Longrightarrow> cr_deleted r \<Longrightarrow> remove_crdt f n k = Some (f, Inr None)"
  by (simp add: remove_crdt_def)

section \<open>Inserting below a live parent\<close>

text \<open>What an insertion did: the new file and the reported position.\<close>

definition inserted :: "shar_file \<Rightarrow> crdt \<Rightarrow> shar_file \<Rightarrow> pos \<Rightarrow> bool" where
  "inserted f c f' p \<longleftrightarrow>
     wf_file f' \<and> file_path f' = file_path f \<and>
     characters f' = (characters f)(crdt_key c \<mapsto> crdt_relation c) \<and>
     flat f' = insert_order (characters f) (crdt_key c) (crdt_relation c) (flat f) \<and>
     fst p < length (projection f') \<and>
     vec_get (projection f' ! fst p) (snd p) = Some (crdt_key c)"

lemma insert_order_at:
  assumes "flat f = us @ par # vs" "par \<notin> set us" "parent_key r = par"
  shows "insert_order chars k r (flat f) =
    us @ par # (if is_line_break (cr_value r) then k # vs
                else place_among (passes chars par k) k vs)"
  using assms by (simp add: insert_order_def insert_after_append)

lemma wf_rest_of_row:
  assumes "wf_proj chars (A @ (xs @ par # ys) # B)"
  shows "plain_row (is_break chars) ys" "set ys \<subseteq> dom chars"
    "\<And>Q k. concat B \<noteq> [] \<Longrightarrow> \<not> passes chars Q k (hd (concat B))"
proof -
  have ok: "rows_ok (is_break chars) (A @ (xs @ par # ys) # B)"
    and dom: "set (concat (A @ (xs @ par # ys) # B)) \<subseteq> dom chars"
    using assms live_keys_dom [of chars] unfolding wf_proj_def by auto
  show "plain_row (is_break chars) ys"
    using ok break_row_prefix [of "is_break chars" "xs @ [par]" ys]
    by (auto simp: rows_ok_snoc plain_row_append split: if_splits)
      (auto simp: plain_row_def)
  show "set ys \<subseteq> dom chars" using dom by auto
  show "\<not> passes chars Q k (hd (concat B))" if "concat B \<noteq> []" for Q k
  proof (cases B)
    case (Cons b B')
    with ok obtain x cs where "b = x # cs" "is_break chars x"
      by (auto simp: rows_ok_snoc break_row_def split: list.splits)
    with Cons show ?thesis by (auto simp: passes_def is_break_def split: option.splits)
  qed (use that in simp)
qed

lemma flat_split:
  assumes "wf_file f" "projection f = A @ (xs @ par # ys) # B"
  shows "flat f = (concat A @ xs) @ par # (ys @ concat B)" "par \<notin> set (concat A @ xs)"
  using wf_fileD(3) [OF assms(1)] by (auto simp: flat_def assms(2))

lemma add_crdt_live:
  assumes wf: "wf_file f"
    and new: "characters f (crdt_key c) = None"
    and par: "parent_key (crdt_relation c) \<in> live_keys (characters f)"
    and alive: "\<not> cr_deleted (crdt_relation c)"
  shows "\<exists>f' p. inserted f c f' p \<and> (\<forall>n. add_crdt f n c = Some (f', Inr (Some p)))"
proof -
  let ?k = "crdt_key c" and ?r = "crdt_relation c"
  let ?par = "parent_key (crdt_relation c)"
  let ?chars = "(characters f)(?k \<mapsto> ?r)"
  let ?f1 = "f\<lparr>characters := ?chars\<rparr>"
  obtain A xs ys B where proj: "projection f = A @ (xs @ ?par # ys) # B"
    and find: "\<And>n. find_crdt f n ?par = Some (Inr (length A, length xs))"
    using wf_live_split [OF wf par] by blast
  obtain pr where pr: "characters f ?par = Some pr" "\<not> cr_deleted pr"
    using par by (auto simp: live_keys_def)
  have run: "add_crdt f n c = place_crdt ?f1 ?k ?r (length A, length xs) True" for n
    using pr new find by (simp add: add_crdt_def Let_def)
  have proj_wf: "wf_proj (characters f) (A @ ((xs @ [?par]) @ ys) # B)"
    using wf_fileD(2) [OF wf] proj by simp
  note rest = wf_rest_of_row [of "characters f" A xs ?par ys B]
  have rest_plain: "plain_row (is_break (characters f)) ys" "set ys \<subseteq> dom (characters f)"
    using rest proj_wf by simp_all
  have k_ys: "?k \<notin> set ys" using new rest_plain(2) by auto
  have chars_wf: "wf_chars ?chars"
    by (rule wf_chars_add [OF wf_fileD(1) [OF wf] _ new]) (use pr(1) in auto)
  have same: "passes ?chars Q ?k e = passes (characters f) Q ?k e" if "e \<in> set ys" for e Q
    by (rule passes_upd) (use k_ys that in auto)
  note flats = flat_split [OF wf proj]
  note order = insert_order_at [OF flats refl, of "characters f" ?k]
  show ?thesis
  proof (cases "is_line_break (cr_value ?r)")
    case True
    define f' where "f' = ?f1\<lparr>projection := A @ (xs @ [?par]) # (?k # ys) # B\<rparr>"
    have "add_crdt f n c = Some (f', Inr (Some (length A + 1, 0)))" for n
      unfolding run f'_def
      by (rule place_crdt_break) (simp_all add: proj True)
    moreover have "flat f' = insert_order (characters f) ?k ?r (flat f)"
      unfolding order by (simp add: True f'_def flat_def)
    moreover have "wf_file f'"
      using chars_wf wf_insert_break [OF proj_wf _ new True alive] by (simp add: f'_def wf_file_def)
    ultimately have "inserted f c f' (length A + 1, 0)"
      "\<And>n. add_crdt f n c = Some (f', Inr (Some (length A + 1, 0)))"
      by (simp_all add: inserted_def f'_def nth_append vec_get_def)
    then show ?thesis by blast
  next
    case False
    let ?P = "passes (characters f) ?par ?k"
    define zs where "zs = place_among ?P ?k ys"
    define f' where "f' = ?f1\<lparr>projection := A @ ((xs @ [?par]) @ zs) # B\<rparr>"
    define p where "p = (length A, Suc (length xs) + length (takeWhile ?P ys))"
    have zs: "place_among (passes ?chars ?par ?k) ?k ys = zs"
      unfolding zs_def by (rule place_among_cong) (rule same)
    have tw: "takeWhile (passes ?chars ?par ?k) ys = takeWhile ?P ys"
      by (rule takeWhile_cong [OF refl]) (rule same)
    have "add_crdt f n c = Some (f', Inr (Some p))" for n
      unfolding run f'_def p_def
      using place_crdt_char [of ?f1 A "xs @ [?par]" ys B ?r "length xs" True ?k]
        rest_plain proj False zs tw k_ys
      by (auto simp: plain_row_def subset_iff)
    moreover have "wf_proj ?chars (A @ ((xs @ [?par]) @ zs) # B)"
    proof -
      have "wf_proj (characters f) (A @ (((xs @ [?par]) @ takeWhile ?P ys) @ dropWhile ?P ys) # B)"
        using proj_wf by simp
      from wf_insert_char [OF this _ new False alive] show ?thesis
        by (simp add: zs_def place_among_conv)
    qed
    moreover have "flat f' = insert_order (characters f) ?k ?r (flat f)"
      unfolding order
      using False rest(3) proj_wf place_among_stop [of "concat B" ?P ?k ys]
      by (simp add: f'_def zs_def flat_def)
    moreover have "vec_get (((xs @ [?par]) @ zs)) (snd p) = Some ?k"
      by (simp add: p_def zs_def place_among_conv vec_get_def nth_append)
    ultimately show ?thesis
      using chars_wf by (intro exI [of _ f'] exI [of _ p])
        (auto simp: inserted_def f'_def wf_file_def p_def)
  qed
qed

section \<open>Removing\<close>

definition removed :: "shar_file \<Rightarrow> key \<Rightarrow> shar_file \<Rightarrow> bool" where
  "removed f k f' \<longleftrightarrow>
     wf_file f' \<and> file_path f' = file_path f \<and>
     (\<exists>r. characters f k = Some r \<and> characters f' = (characters f)(k \<mapsto> r\<lparr>cr_deleted := True\<rparr>)) \<and>
     flat f' = filter (\<lambda>x. x \<noteq> k) (flat f)"

lemma find_crdt_cong: "projection f = projection g \<Longrightarrow> find_crdt f n k = find_crdt g n k"
  by (simp only: find_crdt_def)

lemma filter_distinct_split:
  "distinct (us @ k # vs) \<Longrightarrow> filter (\<lambda>x. x \<noteq> k) (us @ k # vs) = us @ vs"
  using filter_True [of us "\<lambda>x. x \<noteq> k"] filter_True [of vs "\<lambda>x. x \<noteq> k"]
  by (simp, metis)

lemma remove_crdt_live:
  assumes wf: "wf_file f" and k: "k \<in> live_keys (characters f)" "k \<noteq> root"
  shows "\<exists>f' p. removed f k f' \<and> vec_get (projection f ! fst p) (snd p) = Some k \<and>
           (\<forall>n. remove_crdt f n k = Some (f', Inr (Some p)))"
proof -
  obtain r where r: "characters f k = Some r" "\<not> cr_deleted r"
    using k by (auto simp: live_keys_def)
  let ?chars = "(characters f)(k \<mapsto> r\<lparr>cr_deleted := True\<rparr>)"
  let ?f1 = "f\<lparr>characters := ?chars\<rparr>"
  obtain A xs ys B where proj: "projection f = A @ (xs @ k # ys) # B"
    and find: "\<And>n. find_crdt f n k = Some (Inr (length A, length xs))"
    using wf_live_split [OF wf k(1)] by blast
  have find1: "find_crdt ?f1 n k = Some (Inr (length A, length xs))" for n
    using find find_crdt_cong [of ?f1 f] by simp
  have proj_wf: "wf_proj (characters f) (A @ (xs @ k # ys) # B)"
    using wf_fileD(2) [OF wf] proj by simp
  have chars_wf: "wf_chars ?chars" by (rule wf_chars_mark [OF wf_fileD(1) [OF wf] r(1) k(2)])
  have gone: "filter (\<lambda>x. x \<noteq> k) (flat f) = (concat A @ xs) @ (ys @ concat B)"
    using wf_fileD(3) [OF wf] filter_distinct_split flat_split(1) [OF wf proj] by metis
  have at: "vec_get (projection f ! length A) (length xs) = Some k"
    by (simp add: proj vec_get_def)
  show ?thesis
  proof (cases "is_line_break (cr_value r)")
    case True
    then have "is_break (characters f) k" by (simp add: is_break_def r(1))
    from wf_break_position [OF proj_wf this] obtain A' l where A: "A = A' @ [l]" "xs = []" .
    define f' where "f' = ?f1\<lparr>projection := A' @ (l @ ys) # B\<rparr>"
    have "vec_remove (length (A' @ [l @ ys])) ((A' @ [l @ ys]) @ (k # ys) # B) =
        Some ((A' @ [l @ ys]) @ B)" by (rule vec_remove_append)
    then have "remove_crdt f n k = Some (f', Inr (Some (length A, length xs)))" for n
      using r True find1 proj A
      by (simp add: remove_crdt_def remove_line_def Let_def vec_get_def f'_def nth_append
          list_update_append)
    moreover have "removed f k f'"
      using chars_wf wf_remove_break [of "characters f" A' l k ys B r] proj_wf gone A r(1)
      by (simp add: removed_def f'_def wf_file_def) (simp add: flat_def)
    ultimately show ?thesis using at by (intro exI [of _ f'] exI [of _ "(length A, length xs)"]) simp
  next
    case False
    define f' where "f' = ?f1\<lparr>projection := A @ (xs @ ys) # B\<rparr>"
    have "remove_crdt f n k = Some (f', Inr (Some (length A, length xs)))" for n
      using r False find1 proj
      by (simp add: remove_crdt_def Let_def vec_get_def f'_def)
    moreover have "removed f k f'"
      using chars_wf wf_remove_char [OF proj_wf r(1) k(2) False] gone r(1)
      by (simp add: removed_def f'_def wf_file_def) (simp add: flat_def)
    ultimately show ?thesis using at by (intro exI [of _ f'] exI [of _ "(length A, length xs)"]) simp
  qed
qed

end
