(* ===== verification/Delivery.thy ===== *)
theory Delivery
  imports Main
begin

text \<open>
  Messages that are handled one after another. The program has the same loop in several places, on
  the queue, on its wrapper and on a running instance: the locale \<open>sequence\<close> is this loop, and
  \<open>layered\<close> says that one of these layers carries out what the one below does.
\<close>

locale sequence =
  fixes step :: "'m \<Rightarrow> 's \<Rightarrow> 's option"
    and run :: "'m list \<Rightarrow> 's \<Rightarrow> 's option"
  assumes run_Nil: "run [] s = Some s"
    and run_Cons: "run (m # ms) s = Option.bind (step m s) (run ms)"
begin

lemma run_append: "run (ms @ ns) s = Option.bind (run ms s) (run ns)"
  by (induction ms arbitrary: s) (auto simp: run_Nil run_Cons split: bind_splits)

lemma run_snoc: "run ms s = Some s' \<Longrightarrow> step m s' = Some s'' \<Longrightarrow> run (ms @ [m]) s = Some s''"
  by (simp add: run_append run_Cons run_Nil)

text \<open>An invariant of the steps holds after the run, and a run whose steps all return returns.\<close>

lemma run_invariant:
  assumes step: "\<And>m s s'. P s \<Longrightarrow> step m s = Some s' \<Longrightarrow> P s'"
  shows "P s \<Longrightarrow> run ms s = Some s' \<Longrightarrow> P s'"
proof (induction ms arbitrary: s)
  case (Cons m ms)
  then obtain t where "step m s = Some t" "run ms t = Some s'" by (auto simp: run_Cons bind_eq_Some_conv)
  with Cons.IH step [OF Cons.prems(1)] show ?case by blast
qed (simp add: run_Nil)

lemma run_returns:
  assumes step: "\<And>m s. P s \<Longrightarrow> \<exists>s'. step m s = Some s' \<and> P s'"
  shows "P s \<Longrightarrow> \<exists>s'. run ms s = Some s' \<and> P s'"
proof (induction ms arbitrary: s)
  case (Cons m ms)
  with step obtain t where "step m s = Some t" "P t" by blast
  with Cons.IH show ?case by (simp add: run_Cons)
qed (simp add: run_Nil)

end

text \<open>
  A layer on another one: when the lower layer carries out a message, so does the upper one, and the two
  stay related.
\<close>

locale layered = upper: sequence step run + lower: sequence lower_step lower_run
  for step :: "'m \<Rightarrow> 's \<Rightarrow> 's option" and run and lower_step :: "'m \<Rightarrow> 't \<Rightarrow> 't option" and lower_run +
  fixes related :: "'s \<Rightarrow> 't \<Rightarrow> bool"
  assumes carries_out: "related s t \<Longrightarrow> lower_step m t = Some t' \<Longrightarrow> \<exists>s'. step m s = Some s' \<and> related s' t'"
begin

lemma carries_out_all:
  "related s t \<Longrightarrow> lower_run ms t = Some t' \<Longrightarrow> \<exists>s'. run ms s = Some s' \<and> related s' t'"
proof (induction ms arbitrary: s t)
  case (Cons m ms)
  from Cons.prems(2) obtain u where u: "lower_step m t = Some u" "lower_run ms u = Some t'"
    by (auto simp: lower.run_Cons bind_eq_Some_conv)
  from carries_out [OF Cons.prems(1) u(1)] obtain v where v: "step m s = Some v" "related v u" by blast
  from Cons.IH [OF v(2) u(2)] v(1) show ?case by (simp add: upper.run_Cons)
qed (simp add: upper.run_Nil lower.run_Nil)

end

end
