(* ===== verification/Reorder.thy ===== *)
theory Reorder
  imports Prelude Delivery "HOL-Library.Multiset"
begin

text \<open>
  Operations that may be delivered in any order. The locale states what a set of outstanding
  operations needs: it does not matter how they are listed, each of them can be applied next, and
  two neighbours may be swapped. Then every order of delivery gives the same state.
\<close>

fun run_ops :: "('op \<Rightarrow> 's \<Rightarrow> 's option) \<Rightarrow> 'op list \<Rightarrow> 's \<Rightarrow> 's option" where
  "run_ops step [] s = Some s"
| "run_ops step (x # xs) s = Option.bind (step x s) (run_ops step xs)"

interpretation ops: sequence step "run_ops step" for step
  by unfold_locales simp_all

locale reorderable =
  fixes step :: "'op \<Rightarrow> 's \<Rightarrow> 's option"
    and ready :: "'s \<Rightarrow> 'op list \<Rightarrow> bool"
  assumes ready_perm: "ready s xs \<Longrightarrow> mset xs = mset ys \<Longrightarrow> ready s ys"
    and ready_step: "ready s (x # xs) \<Longrightarrow> \<exists>s'. step x s = Some s' \<and> ready s' xs"
    and ready_swap: "ready s (x # y # xs) \<Longrightarrow>
      Option.bind (step x s) (step y) = Option.bind (step y s) (step x)"
begin

lemma run_ready: "ready s (xs @ ys) \<Longrightarrow> \<exists>s'. run_ops step xs s = Some s' \<and> ready s' ys"
proof (induction xs arbitrary: s)
  case (Cons x xs)
  then obtain s' where "step x s = Some s'" "ready s' (xs @ ys)"
    using ready_step [of s x "xs @ ys"] by auto
  with Cons.IH show ?case by fastforce
qed simp

lemma run_returns: "ready s xs \<Longrightarrow> \<exists>s'. run_ops step xs s = Some s'"
  using run_ready [of s xs "[]"] by auto

lemma run_pull:
  "ready s (us @ x # vs) \<Longrightarrow> run_ops step (us @ x # vs) s = run_ops step (x # us @ vs) s"
proof (induction us arbitrary: s)
  case (Cons u us)
  obtain s' where s': "step u s = Some s'" "ready s' (us @ x # vs)"
    using ready_step [of s u "us @ x # vs"] Cons.prems by auto
  have "ready s (u # x # us @ vs)" by (rule ready_perm [OF Cons.prems]) simp
  from ready_swap [OF this] s'(1) have swap: "step x s' = Option.bind (step x s) (step u)" by simp
  have "run_ops step ((u # us) @ x # vs) s = run_ops step (x # us @ vs) s'"
    using s' Cons.IH [OF s'(2)] by simp
  also have "\<dots> = Option.bind (Option.bind (step x s) (step u)) (run_ops step (us @ vs))"
    using swap by simp
  finally show ?case by (cases "step x s") simp_all
qed simp

theorem run_perm:
  "ready s xs \<Longrightarrow> mset xs = mset ys \<Longrightarrow> run_ops step xs s = run_ops step ys s"
proof (induction xs arbitrary: s ys)
  case (Cons x xs)
  from Cons.prems(2) have "x \<in> set ys" by (metis list.set_intros(1) mset_eq_setD)
  then obtain us vs where ys: "ys = us @ x # vs" by (meson split_list)
  have rest: "mset xs = mset (us @ vs)" using Cons.prems(2) ys by simp
  obtain s' where s': "step x s = Some s'" "ready s' xs"
    using ready_step [OF Cons.prems(1)] by blast
  have "ready s ys" by (rule ready_perm [OF Cons.prems])
  then have "run_ops step ys s = run_ops step (x # us @ vs) s" using run_pull ys by blast
  also have "\<dots> = run_ops step (x # xs) s" using Cons.IH [OF s'(2) rest] s'(1) by simp
  finally show ?case by simp
qed simp

end

end
