(* ===== verification/Convergence.thy ===== *)
theory Convergence
  imports SharFileOps Reorder
begin

text \<open>
  Which concurrent operations on a file may be delivered in any order: insertions below one live
  parent, insertions below different parents that do not go past each other's parent, removals,
  and an insertion of a newest character with a removal.
\<close>

definition add_step :: "nat \<times> crdt \<Rightarrow> shar_file \<Rightarrow> shar_file option" where
  "add_step op f =
     (case add_crdt f (fst op) (snd op) of Some (f', Inr _) \<Rightarrow> Some f' | _ \<Rightarrow> None)"

definition remove_step :: "nat \<times> key \<Rightarrow> shar_file \<Rightarrow> shar_file option" where
  "remove_step op f =
     (case remove_crdt f (fst op) (snd op) of Some (f', Inr _) \<Rightarrow> Some f' | _ \<Rightarrow> None)"

lemma file_eqI:
  fixes f g :: shar_file
  assumes "wf_file f" "wf_file g" "file_path f = file_path g" "characters f = characters g"
    and "flat f = flat g"
  shows "f = g"
proof -
  have "projection f = projection g" by (rule wf_file_unique [OF assms(1,2,4,5)])
  with assms(3,4) show ?thesis by simp
qed

section \<open>Removals\<close>

definition mark_deleted :: "key \<Rightarrow> (key \<rightharpoonup> crdt_relation) \<Rightarrow> (key \<rightharpoonup> crdt_relation)" where
  "mark_deleted k chars =
     chars(k := map_option (\<lambda>r. r\<lparr>cr_deleted := True\<rparr>) (chars k))"

lemma mark_deleted_commute: "mark_deleted k (mark_deleted l chars) = mark_deleted l (mark_deleted k chars)"
  by (rule ext) (simp add: mark_deleted_def option.map_comp)

lemma dom_mark_deleted [simp]: "dom (mark_deleted k chars) = dom chars"
  by (auto simp: mark_deleted_def split: if_splits)

text \<open>A removal of any known character but the root, live or not.\<close>

lemma remove_step_known:
  assumes "wf_file f" "k \<in> dom (characters f)" "k \<noteq> root"
  shows "\<exists>f'. (\<forall>n. remove_step (n, k) f = Some f') \<and> wf_file f' \<and> file_path f' = file_path f \<and>
    characters f' = mark_deleted k (characters f) \<and> flat f' = filter (\<lambda>x. x \<noteq> k) (flat f)"
proof (cases "k \<in> live_keys (characters f)")
  case True
  from remove_crdt_live [OF assms(1) True assms(3)] obtain f' p where
    "removed f k f'" "\<forall>n. remove_crdt f n k = Some (f', Inr (Some p))" by blast
  then show ?thesis by (intro exI [of _ f']) (auto simp: remove_step_def removed_def mark_deleted_def)
next
  case False
  with assms(2) obtain r where r: "characters f k = Some r" "cr_deleted r"
    by (auto simp: live_keys_def)
  then have "characters f = mark_deleted k (characters f)"
    by (auto simp: mark_deleted_def)
  moreover have "flat f = filter (\<lambda>x. x \<noteq> k) (flat f)"
    using False wf_fileD(4) [OF assms(1)] by (metis (mono_tags, lifting) filter_True)
  ultimately show ?thesis
    using assms(1) remove_crdt_again [OF r] by (intro exI [of _ f]) (simp add: remove_step_def)
qed

definition removable :: "shar_file \<Rightarrow> (nat \<times> key) list \<Rightarrow> bool" where
  "removable f ops \<longleftrightarrow> wf_file f \<and> snd ` set ops \<subseteq> dom (characters f) - {root}"

text \<open>One step of a ready removal, and two of them.\<close>

lemma removable_step:
  assumes "removable f ops" "x \<in> set ops"
  shows "\<exists>f'. remove_step x f = Some f' \<and> wf_file f' \<and> file_path f' = file_path f \<and>
    characters f' = mark_deleted (snd x) (characters f) \<and>
    flat f' = filter (\<lambda>z. z \<noteq> snd x) (flat f)"
proof -
  have "snd x \<in> dom (characters f)" "snd x \<noteq> root"
    using assms by (auto simp: removable_def)
  with assms(1) remove_step_known [of f "snd x"] show ?thesis
    by (cases x) (auto simp: removable_def)
qed

lemma removable_two:
  assumes "removable f ops" "x \<in> set ops" "y \<in> set ops"
  shows "\<exists>h. Option.bind (remove_step x f) (remove_step y) = Some h \<and> wf_file h \<and>
    file_path h = file_path f \<and>
    characters h = mark_deleted (snd y) (mark_deleted (snd x) (characters f)) \<and>
    flat h = filter (\<lambda>z. z \<noteq> snd y) (filter (\<lambda>z. z \<noteq> snd x) (flat f))"
proof -
  obtain g where g: "remove_step x f = Some g" "wf_file g" "file_path g = file_path f"
    "characters g = mark_deleted (snd x) (characters f)"
    "flat g = filter (\<lambda>z. z \<noteq> snd x) (flat f)"
    using removable_step [OF assms(1,2)] by blast
  have "removable g ops" using assms(1) g(2,4) by (simp add: removable_def)
  from removable_step [OF this assms(3)] g show ?thesis by (metis bind.bind_lunit)
qed

interpretation removals: reorderable remove_step removable
proof
  fix f xs ys
  assume "removable f xs" "mset xs = mset ys"
  then show "removable f ys" by (metis mset_eq_setD removable_def)
next
  fix f x xs
  assume ready: "removable f (x # xs)"
  from removable_step [OF this, of x] obtain f' where f': "remove_step x f = Some f'" "wf_file f'"
    "characters f' = mark_deleted (snd x) (characters f)" by auto
  with ready have "removable f' xs" by (simp add: removable_def)
  with f'(1) show "\<exists>f'. remove_step x f = Some f' \<and> removable f' xs" by blast
next
  fix f x y xs
  assume ready: "removable f (x # y # xs)"
  obtain g where g: "Option.bind (remove_step x f) (remove_step y) = Some g" "wf_file g"
    "file_path g = file_path f"
    "characters g = mark_deleted (snd y) (mark_deleted (snd x) (characters f))"
    "flat g = filter (\<lambda>z. z \<noteq> snd y) (filter (\<lambda>z. z \<noteq> snd x) (flat f))"
    using removable_two [OF ready, of x y] by auto
  obtain h where h: "Option.bind (remove_step y f) (remove_step x) = Some h" "wf_file h"
    "file_path h = file_path f"
    "characters h = mark_deleted (snd x) (mark_deleted (snd y) (characters f))"
    "flat h = filter (\<lambda>z. z \<noteq> snd x) (filter (\<lambda>z. z \<noteq> snd y) (flat f))"
    using removable_two [OF ready, of y x] by auto
  have "g = h"
    by (rule file_eqI)
      (simp_all add: g h mark_deleted_commute [of "snd x"] conj_commute)
  with g(1) h(1)
  show "Option.bind (remove_step x f) (remove_step y) = Option.bind (remove_step y f) (remove_step x)"
    by simp
qed

section \<open>Insertions below one parent\<close>

text \<open>
  Two siblings placed one after the other: \<open>P\<close> and \<open>Q\<close> are what each goes past in the rest of the
  line, \<open>P'\<close> and \<open>Q'\<close> the same with the other sibling in place.
\<close>

lemma place_among_commute:
  assumes "\<And>v. v \<in> set vs \<Longrightarrow> P v \<longleftrightarrow> S v \<and> rank_of v < rank_of k"
    and "\<And>v. v \<in> set vs \<Longrightarrow> Q v \<longleftrightarrow> S v \<and> rank_of v < rank_of l"
    and "\<And>v. v \<in> set vs \<Longrightarrow> P' v = P v" "\<And>v. v \<in> set vs \<Longrightarrow> Q' v = Q v"
    and "P' l \<longleftrightarrow> rank_of l < rank_of k" "Q' k \<longleftrightarrow> rank_of k < rank_of l" "k \<noteq> l"
  shows "place_among Q' l (place_among P k vs) = place_among P' k (place_among Q l vs)"
  using assms(1-4)
proof (induction vs)
  case Nil
  then show ?case
    using assms(5-7) linorder_less_linear [of "rank_of k" "rank_of l"] by auto
next
  case (Cons v vs)
  have IH: "place_among Q' l (place_among P k vs) = place_among P' k (place_among Q l vs)"
    by (rule Cons.IH) (simp_all add: Cons.prems)
  have eq: "place_among Q' l vs = place_among Q l vs" "place_among P' k vs = place_among P k vs"
    by (rule place_among_cong, simp add: Cons.prems(3,4))+
  have v: "P' v = P v" "Q' v = Q v" "P v \<longleftrightarrow> S v \<and> rank_of v < rank_of k"
    "Q v \<longleftrightarrow> S v \<and> rank_of v < rank_of l"
    using Cons.prems by simp_all
  consider "rank_of k < rank_of l" | "rank_of l < rank_of k"
    using assms(7) linorder_less_linear [of "rank_of k" "rank_of l"] by auto
  then show ?case
  proof cases
    case 1
    then have "P v \<Longrightarrow> Q v" using v by auto
    then show ?thesis
      using 1 assms(5,6) v(1,2) eq IH by (cases "P v"; cases "Q v") (simp_all, auto)
  next
    case 2
    then have "Q v \<Longrightarrow> P v" using v by auto
    then show ?thesis
      using 2 assms(5,6) v(1,2) eq IH by (cases "P v"; cases "Q v") (simp_all, auto)
  qed
qed

definition sibling_of :: "(key \<rightharpoonup> crdt_relation) \<Rightarrow> key \<Rightarrow> key \<Rightarrow> bool" where
  "sibling_of chars par e \<longleftrightarrow>
     (case chars e of None \<Rightarrow> False
      | Some r \<Rightarrow> \<not> is_line_break (cr_value r) \<and> parent_key r = par)"

lemma passes_sibling: "passes chars par k e \<longleftrightarrow> sibling_of chars par e \<and> rank_of e < rank_of k"
  by (auto simp: passes_def sibling_of_def split: option.splits)

lemma insert_order_split:
  assumes "par \<notin> set us" "parent_key r = par"
  shows "insert_order chars k r (us @ par # vs) =
    us @ par # (if is_line_break (cr_value r) then k # vs
                else place_among (passes chars par k) k vs)"
  using assms by (simp add: insert_order_def insert_after_append)

lemma insert_order_siblings_commute:
  assumes "parent_key r = par" "parent_key s = par" "par \<in> set xs" "k \<noteq> l"
    and "k \<notin> set xs" "l \<notin> set xs"
    and "\<not> is_line_break (cr_value r)" "\<not> is_line_break (cr_value s)"
  shows "insert_order (chars(k \<mapsto> r)) l s (insert_order chars k r xs) =
         insert_order (chars(l \<mapsto> s)) k r (insert_order chars l s xs)"
proof -
  obtain us vs where xs: "xs = us @ par # vs" "par \<notin> set us"
    using assms(3) by (meson split_list_first)
  have new: "k \<notin> set vs" "l \<notin> set vs" using assms(5,6) xs(1) by auto
  have "place_among (passes (chars(k \<mapsto> r)) par l) l (place_among (passes chars par k) k vs) =
      place_among (passes (chars(l \<mapsto> s)) par k) k (place_among (passes chars par l) l vs)"
  proof (rule place_among_commute [of vs _ "sibling_of chars par"])
    show "passes (chars(l \<mapsto> s)) par k v = passes chars par k v" if "v \<in> set vs" for v
      by (rule passes_upd) (use that new in auto)
    show "passes (chars(k \<mapsto> r)) par l v = passes chars par l v" if "v \<in> set vs" for v
      by (rule passes_upd) (use that new in auto)
  qed (simp_all add: passes_sibling assms(4), simp_all add: sibling_of_def assms)
  then show ?thesis
    using assms(1,2,7,8) xs(2) by (simp add: xs(1) insert_order_split)
qed

text \<open>An insertion of a new character below a live parent, as a step.\<close>

definition insertable :: "shar_file \<Rightarrow> crdt \<Rightarrow> bool" where
  "insertable f c \<longleftrightarrow>
     characters f (crdt_key c) = None \<and>
     parent_key (crdt_relation c) \<in> live_keys (characters f) \<and> \<not> cr_deleted (crdt_relation c)"

lemma add_step_new:
  assumes "wf_file f" "insertable f c"
  shows "\<exists>f'. (\<forall>n. add_step (n, c) f = Some f') \<and> wf_file f' \<and> file_path f' = file_path f \<and>
    characters f' = (characters f)(crdt_key c \<mapsto> crdt_relation c) \<and>
    flat f' = insert_order (characters f) (crdt_key c) (crdt_relation c) (flat f)"
proof -
  from assms add_crdt_live [of f c] obtain f' p where
    "inserted f c f' p" "\<forall>n. add_crdt f n c = Some (f', Inr (Some p))"
    unfolding insertable_def by blast
  then show ?thesis by (intro exI [of _ f']) (simp add: add_step_def inserted_def)
qed

lemma insertable_after:
  assumes "insertable f d" "crdt_key c \<noteq> crdt_key d" "\<not> cr_deleted (crdt_relation c)"
    and "characters f' = (characters f)(crdt_key c \<mapsto> crdt_relation c)"
  shows "insertable f' d"
  using assms by (simp add: insertable_def live_keys_add)

lemma add_two_steps:
  assumes "wf_file f" "insertable f c" "insertable f d" "crdt_key c \<noteq> crdt_key d"
  shows "\<exists>h. (\<forall>n m. Option.bind (add_step (n, c) f) (add_step (m, d)) = Some h) \<and> wf_file h \<and>
    file_path h = file_path f \<and>
    characters h =
      (characters f)(crdt_key c \<mapsto> crdt_relation c, crdt_key d \<mapsto> crdt_relation d) \<and>
    flat h = insert_order ((characters f)(crdt_key c \<mapsto> crdt_relation c)) (crdt_key d)
      (crdt_relation d)
      (insert_order (characters f) (crdt_key c) (crdt_relation c) (flat f))"
proof -
  obtain g where g: "\<And>n. add_step (n, c) f = Some g" "wf_file g" "file_path g = file_path f"
    "characters g = (characters f)(crdt_key c \<mapsto> crdt_relation c)"
    "flat g = insert_order (characters f) (crdt_key c) (crdt_relation c) (flat f)"
    using add_step_new [OF assms(1,2)] by blast
  have "insertable g d"
    by (rule insertable_after [OF assms(3,4) _ g(4)]) (use assms(2) in \<open>simp add: insertable_def\<close>)
  from add_step_new [OF g(2) this] g show ?thesis by auto
qed

text \<open>Two insertions commute as soon as they do in the reading order.\<close>

lemma add_two_commute:
  assumes "wf_file f" "insertable f c" "insertable f d" "crdt_key c \<noteq> crdt_key d"
    and "insert_order ((characters f)(crdt_key c \<mapsto> crdt_relation c)) (crdt_key d) (crdt_relation d)
           (insert_order (characters f) (crdt_key c) (crdt_relation c) (flat f)) =
         insert_order ((characters f)(crdt_key d \<mapsto> crdt_relation d)) (crdt_key c) (crdt_relation c)
           (insert_order (characters f) (crdt_key d) (crdt_relation d) (flat f))"
  shows "\<exists>h. wf_file h \<and> (\<forall>n m. Option.bind (add_step (n, c) f) (add_step (m, d)) = Some h \<and>
    Option.bind (add_step (m, d) f) (add_step (n, c)) = Some h)"
proof -
  obtain g where g: "\<And>n m. Option.bind (add_step (n, c) f) (add_step (m, d)) = Some g" "wf_file g"
    "file_path g = file_path f"
    "characters g = (characters f)(crdt_key c \<mapsto> crdt_relation c, crdt_key d \<mapsto> crdt_relation d)"
    "flat g = insert_order ((characters f)(crdt_key c \<mapsto> crdt_relation c)) (crdt_key d)
      (crdt_relation d) (insert_order (characters f) (crdt_key c) (crdt_relation c) (flat f))"
    using add_two_steps [OF assms(1-4)] by blast
  obtain h where h: "\<And>n m. Option.bind (add_step (n, d) f) (add_step (m, c)) = Some h" "wf_file h"
    "file_path h = file_path f"
    "characters h = (characters f)(crdt_key d \<mapsto> crdt_relation d, crdt_key c \<mapsto> crdt_relation c)"
    "flat h = insert_order ((characters f)(crdt_key d \<mapsto> crdt_relation d)) (crdt_key c)
      (crdt_relation c) (insert_order (characters f) (crdt_key d) (crdt_relation d) (flat f))"
    using add_two_steps [OF assms(1,3,2) assms(4) [symmetric]] by blast
  have "g = h"
    by (rule file_eqI) (simp_all add: g(2-4) h(2-4) g(5) h(5) assms(5) fun_upd_twist [OF assms(4)])
  with g(1,2) h(1) show ?thesis by blast
qed

lemma insertable_flat:
  assumes "wf_file f" "insertable f c"
  shows "crdt_key c \<notin> set (flat f)" "parent_key (crdt_relation c) \<in> set (flat f)"
  using assms wf_fileD(4) [OF assms(1)] by (auto simp: insertable_def live_keys_def)

text \<open>Any number of ordinary characters below one live parent.\<close>

definition siblings_ready :: "key \<Rightarrow> shar_file \<Rightarrow> (nat \<times> crdt) list \<Rightarrow> bool" where
  "siblings_ready par f ops \<longleftrightarrow>
     wf_file f \<and> distinct (map (\<lambda>op. crdt_key (snd op)) ops) \<and>
     (\<forall>op \<in> set ops. insertable f (snd op) \<and> parent_key (crdt_relation (snd op)) = par \<and>
        \<not> is_line_break (cr_value (crdt_relation (snd op))))"

interpretation siblings: reorderable add_step "siblings_ready par" for par
proof
  fix f xs ys
  assume ready: "siblings_ready par f xs" and eq: "mset xs = mset ys"
  have "distinct (map (\<lambda>op. crdt_key (snd op)) ys)"
    using ready eq unfolding siblings_ready_def
    by (metis (no_types, lifting) mset_map mset_eq_imp_distinct_iff)
  with ready mset_eq_setD [OF eq] show "siblings_ready par f ys" by (simp add: siblings_ready_def)
next
  fix f x xs
  assume ready: "siblings_ready par f (x # xs)"
  then obtain f' where f': "add_step x f = Some f'" "wf_file f'"
    "characters f' = (characters f)(crdt_key (snd x) \<mapsto> crdt_relation (snd x))"
    using add_step_new [of f "snd x"] by (cases x) (auto simp: siblings_ready_def)
  have "insertable f' (snd y)" if "y \<in> set xs" for y
    by (rule insertable_after [OF _ _ _ f'(3)])
      (use ready that in \<open>force simp: siblings_ready_def insertable_def\<close>)+
  with ready f' show "\<exists>f'. add_step x f = Some f' \<and> siblings_ready par f' xs"
    by (auto simp: siblings_ready_def)
next
  fix f x y xs
  assume ready: "siblings_ready par f (x # y # xs)"
  then have "\<exists>h. wf_file h \<and> (\<forall>n m. Option.bind (add_step (n, snd x) f) (add_step (m, snd y)) = Some h \<and>
      Option.bind (add_step (m, snd y) f) (add_step (n, snd x)) = Some h)"
    by (intro add_two_commute insert_order_siblings_commute)
      (auto simp: siblings_ready_def insertable_flat)
  then show "Option.bind (add_step x f) (add_step y) = Option.bind (add_step y f) (add_step x)"
    by (metis prod.collapse)
qed

section \<open>Insertions below different parents\<close>

text \<open>What follows a character in the reading order.\<close>

definition rest_after :: "key \<Rightarrow> key list \<Rightarrow> key list" where
  "rest_after par xs = tl (dropWhile (\<lambda>x. x \<noteq> par) xs)"

text \<open>The insertion of \<open>c\<close> goes past \<open>q\<close> on its way to its slot.\<close>

definition goes_past :: "shar_file \<Rightarrow> crdt \<Rightarrow> key \<Rightarrow> bool" where
  "goes_past f c q \<longleftrightarrow>
     \<not> is_line_break (cr_value (crdt_relation c)) \<and>
     q \<in> set (takeWhile (passes (characters f) (parent_key (crdt_relation c)) (crdt_key c))
               (rest_after (parent_key (crdt_relation c)) (flat f)))"

lemma rest_after_append: "par \<notin> set us \<Longrightarrow> rest_after par (us @ par # vs) = vs"
  by (simp add: rest_after_def) (subst dropWhile_append2, auto)

text \<open>An insertion that does not go past \<open>q\<close> lands before \<open>q\<close>, whatever comes after.\<close>

lemma insert_order_before:
  assumes "par \<notin> set us" "parent_key r = par"
    and "is_line_break (cr_value r) \<or> (\<exists>e \<in> set (ws @ [q]). \<not> passes chars par k e)"
  shows "\<exists>ws'. set ws' = insert k (set ws) \<and>
    (\<forall>chars' vs. (\<forall>e \<in> set (ws @ [q]). passes chars' par k e = passes chars par k e) \<longrightarrow>
      insert_order chars' k r (us @ par # ws @ q # vs) = us @ par # ws' @ q # vs)"
proof (cases "is_line_break (cr_value r)")
  case True
  then show ?thesis
    using assms(1,2) by (intro exI [of _ "k # ws"]) (simp add: insert_order_split)
next
  case False
  then have stop: "\<exists>e \<in> set (ws @ [q]). \<not> passes chars par k e" using assms(3) by blast
  from place_among_last [OF this] obtain ws' where
    ws': "place_among (passes chars par k) k (ws @ [q]) = ws' @ [q]" "set ws' = insert k (set ws)"
    by blast
  have "insert_order chars' k r (us @ par # ws @ q # vs) = us @ par # ws' @ q # vs"
    if same: "\<forall>e \<in> set (ws @ [q]). passes chars' par k e = passes chars par k e" for chars' vs
  proof -
    have "place_among (passes chars' par k) k (ws @ [q]) = ws' @ [q]"
      unfolding ws'(1) [symmetric] by (rule place_among_cong) (use same in blast)
    moreover have "\<exists>e \<in> set (ws @ [q]). \<not> passes chars' par k e" using stop same by blast
    ultimately have "place_among (passes chars' par k) k ((ws @ [q]) @ vs) = (ws' @ [q]) @ vs"
      by (simp only: place_among_append)
    then show ?thesis using assms(1,2) False by (simp add: insert_order_split)
  qed
  with ws'(2) show ?thesis by blast
qed

text \<open>The first parent in reading order is \<open>p\<close>; the other insertion happens behind \<open>q\<close>.\<close>

lemma insert_order_apart_commute:
  assumes xs: "xs = us @ p # ws @ q # vs" "distinct xs"
    and par: "parent_key r = p" "parent_key s = q"
    and new: "k \<noteq> l" "k \<notin> set xs" "l \<notin> set xs"
    and stop: "is_line_break (cr_value r) \<or> (\<exists>e \<in> set (ws @ [q]). \<not> passes chars p k e)"
  shows "insert_order (chars(k \<mapsto> r)) l s (insert_order chars k r xs) =
         insert_order (chars(l \<mapsto> s)) k r (insert_order chars l s xs)"
proof -
  obtain ws' where ws': "set ws' = insert k (set ws)"
    "\<And>chars' vs. \<forall>e \<in> set (ws @ [q]). passes chars' p k e = passes chars p k e \<Longrightarrow>
      insert_order chars' k r (us @ p # ws @ q # vs) = us @ p # ws' @ q # vs"
    using insert_order_before [OF _ par(1) stop, of us] xs by auto
  have same_k: "passes (chars(l \<mapsto> s)) p k e = passes chars p k e" if "e \<in> set (ws @ [q])" for e
    by (rule passes_upd) (use that new xs in auto)
  define zs where
    "zs = (if is_line_break (cr_value s) then l # vs else place_among (passes chars q l) l vs)"
  have same_l: "place_among (passes (chars(k \<mapsto> r)) q l) l vs = place_among (passes chars q l) l vs"
    by (rule place_among_cong, rule passes_upd) (use new xs in auto)
  have behind: "insert_order chars' l s (us' @ q # vs) = us' @ q # zs"
    if "q \<notin> set us'" "chars' = chars \<or> chars' = chars(k \<mapsto> r)" for us' chars'
    using that same_l par(2) by (auto simp: insert_order_split zs_def)
  have q: "q \<notin> set (us @ p # ws)" "q \<noteq> k" using xs new by auto
  have "insert_order (chars(k \<mapsto> r)) l s (insert_order chars k r xs) = us @ p # ws' @ q # zs"
    using ws'(2) [of chars vs] behind [of "us @ p # ws'" "chars(k \<mapsto> r)"] ws'(1) q xs(1) by simp
  moreover have "insert_order (chars(l \<mapsto> s)) k r (insert_order chars l s xs) = us @ p # ws' @ q # zs"
    using ws'(2) [of "chars(l \<mapsto> s)" zs] behind [of "us @ p # ws" chars] q same_k xs(1) by simp
  ultimately show ?thesis by simp
qed

lemma not_goes_past_stop:
  assumes "flat f = us @ p # ws @ q # vs" "p \<notin> set us" "parent_key (crdt_relation c) = p"
    and "\<not> goes_past f c q"
  shows "is_line_break (cr_value (crdt_relation c)) \<or>
    (\<exists>e \<in> set (ws @ [q]). \<not> passes (characters f) p (crdt_key c) e)"
proof (rule ccontr)
  assume "\<not> ?thesis"
  then have "q \<in> set (takeWhile (passes (characters f) p (crdt_key c)) (ws @ q # vs))"
    by (subst takeWhile_append2) auto
  with \<open>\<not> ?thesis\<close> assms show False by (simp add: goes_past_def rest_after_append)
qed

lemma two_parents_split:
  assumes "p \<in> set xs" "q \<in> set xs" "p \<noteq> q" "distinct xs"
  obtains us ws vs where "xs = us @ p # ws @ q # vs" | us ws vs where "xs = us @ q # ws @ p # vs"
proof -
  obtain us zs where xs: "xs = us @ p # zs" using assms(1) by (meson split_list)
  with assms(2,3) consider "q \<in> set us" | "q \<in> set zs" by auto
  then show ?thesis
  proof cases
    case 1
    then obtain us' ws where "us = us' @ q # ws" by (meson split_list)
    with xs show ?thesis using that(2) [of us' ws zs] by simp
  next
    case 2
    then obtain ws vs where "zs = ws @ q # vs" by (meson split_list)
    with xs show ?thesis using that(1) [of us ws vs] by simp
  qed
qed

text \<open>
  Two insertions do not interfere: below one parent, when neither is a line break; below two, when
  neither goes past the other's parent.
\<close>

definition independent :: "shar_file \<Rightarrow> crdt \<Rightarrow> crdt \<Rightarrow> bool" where
  "independent f c d \<longleftrightarrow>
     (if parent_key (crdt_relation c) = parent_key (crdt_relation d)
      then \<not> is_line_break (cr_value (crdt_relation c)) \<and>
           \<not> is_line_break (cr_value (crdt_relation d))
      else \<not> goes_past f c (parent_key (crdt_relation d)) \<and>
           \<not> goes_past f d (parent_key (crdt_relation c)))"

lemma independent_commute:
  assumes wf: "wf_file f" and c: "insertable f c" and d: "insertable f d"
    and "crdt_key c \<noteq> crdt_key d" "independent f c d"
  shows "\<exists>h. wf_file h \<and> (\<forall>n m. Option.bind (add_step (n, c) f) (add_step (m, d)) = Some h \<and>
    Option.bind (add_step (m, d) f) (add_step (n, c)) = Some h)"
proof (rule add_two_commute [OF assms(1-4)])
  let ?p = "parent_key (crdt_relation c)" and ?q = "parent_key (crdt_relation d)"
  note new = insertable_flat [OF wf c] insertable_flat [OF wf d]
  show "insert_order ((characters f)(crdt_key c \<mapsto> crdt_relation c)) (crdt_key d) (crdt_relation d)
          (insert_order (characters f) (crdt_key c) (crdt_relation c) (flat f)) =
        insert_order ((characters f)(crdt_key d \<mapsto> crdt_relation d)) (crdt_key c) (crdt_relation c)
          (insert_order (characters f) (crdt_key d) (crdt_relation d) (flat f))"
  proof (cases "?p = ?q")
    case True
    then show ?thesis
      by (intro insert_order_siblings_commute) (use assms(4,5) new in \<open>auto simp: independent_def\<close>)
  next
    case False
    note flat = wf_fileD(3) [OF wf]
    from False assms(5) have past: "\<not> goes_past f c ?q" "\<not> goes_past f d ?p"
      by (simp_all add: independent_def)
    from two_parents_split [OF new(2,4) False flat] show ?thesis
    proof cases
      case (1 us ws vs)
      with flat have "?p \<notin> set us" by simp
      from not_goes_past_stop [OF 1 this refl past(1)] show ?thesis
        using insert_order_apart_commute [OF 1 flat refl refl assms(4) new(1,3)] by blast
    next
      case (2 us ws vs)
      with flat have "?q \<notin> set us" by simp
      from not_goes_past_stop [OF 2 this refl past(2)] show ?thesis
        using insert_order_apart_commute [OF 2 flat refl refl assms(4) [symmetric] new(3,1)] by metis
    qed
  qed
qed

section \<open>A newest character\<close>

text \<open>An id above every id of the file: what a fresh counter gives.\<close>

definition newest :: "shar_file \<Rightarrow> crdt \<Rightarrow> bool" where
  "newest f c \<longleftrightarrow> (\<forall>k \<in> live_keys (characters f). fst k < crdt_id c)"

lemma newest_not_passes:
  "newest f c \<Longrightarrow> e \<in> live_keys (characters f) \<Longrightarrow> \<not> passes (characters f) par (crdt_key c) e"
  by (auto simp: newest_def passes_sibling rank_of_less crdt_key_def)

lemma insert_order_newest:
  assumes "wf_file f" "newest f c" "flat f = us @ par # vs" "parent_key (crdt_relation c) = par"
  shows "insert_order (characters f) (crdt_key c) (crdt_relation c) (flat f) = us @ par # crdt_key c # vs"
proof -
  have "par \<notin> set us" using wf_fileD(3) [OF assms(1)] assms(3) by simp
  moreover have "place_among (passes (characters f) par (crdt_key c)) (crdt_key c) vs = crdt_key c # vs"
  proof (cases vs)
    case (Cons v vs')
    then have "v \<in> live_keys (characters f)"
      using wf_fileD(4) [OF assms(1)] assms(3) by auto
    with newest_not_passes [OF assms(2)] Cons show ?thesis by simp
  qed simp
  ultimately show ?thesis using assms(3,4) by (simp add: insert_order_split)
qed

end
