(* ===== verification/Tombstone.thy ===== *)
theory Tombstone
  imports SharFileOps
begin

text \<open>
  Insertions below a removed parent. The climb of \<open>find_tombstone\<close> ends on every well-formed file,
  and an ordinary character lands behind the first live ancestor of its parent and keeps the file
  well-formed, when that ancestor is not the root sentinel. No insertion or removal on a
  well-formed file panics or runs for ever.
\<close>

section \<open>The first live ancestor\<close>

inductive hangs_from :: "(key \<rightharpoonup> crdt_relation) \<Rightarrow> key \<Rightarrow> key \<Rightarrow> bool" for chars where
  hangs_live: "chars k = Some r \<Longrightarrow> chars (parent_key r) = Some p \<Longrightarrow> \<not> cr_deleted p \<Longrightarrow>
    hangs_from chars k (parent_key r)"
| hangs_tomb: "chars k = Some r \<Longrightarrow> chars (parent_key r) = Some p \<Longrightarrow> cr_deleted p \<Longrightarrow>
    hangs_from chars (parent_key r) a \<Longrightarrow> hangs_from chars k a"

inductive_cases hangs_from_elim: "hangs_from chars k a"

lemma hangs_from_live: "hangs_from chars k a \<Longrightarrow> a \<in> live_keys chars"
  by (induction rule: hangs_from.induct) (auto simp: live_keys_def)

lemma hangs_from_unique: "hangs_from chars k a \<Longrightarrow> hangs_from chars k b \<Longrightarrow> a = b"
proof (induction rule: hangs_from.induct)
  case (hangs_live k r p)
  from hangs_live.prems hangs_live.hyps show ?case by (cases rule: hangs_from_elim) auto
next
  case (hangs_tomb k r p a)
  from hangs_tomb.prems hangs_tomb.hyps hangs_tomb.IH show ?case by (cases rule: hangs_from_elim) auto
qed

lemma hangs_from_exists:
  assumes "wf_chars chars" "k \<in> dom chars"
  shows "\<exists>a. hangs_from chars k a"
proof -
  have "anchored chars k" using assms by (auto simp: wf_chars_def)
  then show ?thesis
  proof (induction rule: anchored.induct)
    case (anchored_root r)
    have "chars root = Some (CrdtRelation_new 0 0 0)" by (rule wf_chars_root [OF assms(1)])
    then have "hangs_from chars root (parent_key (CrdtRelation_new 0 0 0))"
      by (rule hangs_live [of chars root _ "CrdtRelation_new 0 0 0"])
        (use \<open>chars root = Some (CrdtRelation_new 0 0 0)\<close> in simp_all)
    then show ?case by blast
  next
    case (anchored_step k r)
    then obtain p where p: "chars (parent_key r) = Some p" by (auto dest: anchored_dom)
    show ?case
    proof (cases "cr_deleted p")
      case True
      with anchored_step p show ?thesis by (blast intro: hangs_tomb)
    next
      case False
      with anchored_step p show ?thesis by (blast intro: hangs_live)
    qed
  qed
qed

text \<open>
  Where a removed character would be in the reading order \<open>xs\<close>: every removed ancestor in turn, from
  the one below the first live ancestor down to the character itself, goes past the siblings after
  which it belongs, as if it were inserted again. Below the sentinel the search begins before it.
\<close>

definition go_past :: "(key \<Rightarrow> bool) \<Rightarrow> key list \<times> key list \<Rightarrow> key list \<times> key list" where
  "go_past P s = (fst s @ takeWhile P (snd s), dropWhile P (snd s))"

lemma go_past_simps [simp]:
  "fst (go_past P s) @ snd (go_past P s) = fst s @ snd s"
  "go_past P (us, vs) = (us @ takeWhile P vs, dropWhile P vs)"
  by (simp_all add: go_past_def)

inductive climbs ::
  "(key \<rightharpoonup> crdt_relation) \<Rightarrow> key list \<Rightarrow> key \<Rightarrow> key list \<times> key list \<Rightarrow> bool" for chars xs where
  climbs_first: "chars k = Some r \<Longrightarrow> chars (parent_key r) = Some p \<Longrightarrow> \<not> cr_deleted p \<Longrightarrow>
    parent_key r = root \<Longrightarrow> climbs chars xs k (go_past (passes chars root k) ([], xs))"
| climbs_live: "chars k = Some r \<Longrightarrow> chars (parent_key r) = Some p \<Longrightarrow> \<not> cr_deleted p \<Longrightarrow>
    parent_key r \<noteq> root \<Longrightarrow> xs = us @ parent_key r # vs \<Longrightarrow>
    climbs chars xs k (go_past (passes chars (parent_key r) k) (us @ [parent_key r], vs))"
| climbs_tomb: "chars k = Some r \<Longrightarrow> chars (parent_key r) = Some p \<Longrightarrow> cr_deleted p \<Longrightarrow>
    climbs chars xs (parent_key r) s \<Longrightarrow> climbs chars xs k (go_past (passes chars (parent_key r) k) s)"

inductive_cases climbs_elim: "climbs chars xs k s"

lemma climbs_split: "climbs chars xs k s \<Longrightarrow> fst s @ snd s = xs"
  by (induction rule: climbs.induct) simp_all

lemma climbs_unique:
  assumes "distinct xs"
  shows "climbs chars xs k s \<Longrightarrow> climbs chars xs k t \<Longrightarrow> s = t"
proof (induction arbitrary: t rule: climbs.induct)
  case (climbs_first k r p)
  from climbs_first.prems climbs_first.hyps show ?case by (cases rule: climbs_elim) auto
next
  case (climbs_live k r p us vs)
  from climbs_live.prems climbs_live.hyps(1-4) obtain us' vs' where
    t: "t = go_past (passes chars (parent_key r) k) (us' @ [parent_key r], vs')" "xs = us' @ parent_key r # vs'"
    by (cases rule: climbs_elim) auto
  have "parent_key r \<notin> set us" "parent_key r \<notin> set vs" using assms climbs_live.hyps(5) by auto
  moreover have "us @ parent_key r # vs = us' @ parent_key r # vs'"
    using climbs_live.hyps(5) t(2) by (rule trans [OF sym])
  ultimately have "us = us' \<and> vs = vs'" by (rule append_Cons_eq_iff [THEN iffD1])
  then show ?case using t(1) by simp
next
  case (climbs_tomb k r p s)
  from climbs_tomb.prems climbs_tomb.hyps(1-3) obtain s' where
    t: "t = go_past (passes chars (parent_key r) k) s'" "climbs chars xs (parent_key r) s'"
    by (cases rule: climbs_elim) auto
  then show ?case using climbs_tomb.IH [OF t(2)] by simp
qed

section \<open>The loop never panics on a known line\<close>

lemma scan_siblings_total:
  assumes "set line \<subseteq> dom chars"
  shows "\<exists>s. scan_siblings chars line k par offset js = Some s \<and>
           (\<forall>p. s = Slot_at p \<longrightarrow> p < length line)"
proof (induction js)
  case (Cons j js)
  show ?case
  proof (cases "j + offset < length line")
    case True
    then obtain r where "chars (line ! (j + offset)) = Some r"
      using assms nth_mem by blast
    with True Cons show ?thesis by (auto simp: vec_get_def)
  qed (simp add: vec_get_def)
qed simp

lemma place_crdt_returns:
  assumes "vec_get (projection f) row = Some line" "set line \<subseteq> dom (characters f)"
    and "c + (if real then 1 else 0) \<le> length line"
  shows "\<exists>res. place_crdt f k r (row, c) real = Some res"
proof (cases "is_line_break (cr_value r)")
  case True
  with assms show ?thesis
    by (cases "line = []")
      (auto simp: place_crdt_def add_line_to_projection_def Let_def vec_insert_def vec_get_def
        split: if_splits)
next
  case False
  from scan_siblings_total [OF assms(2)] obtain s where
    "scan_siblings (characters f) line k (parent_key r) (if real then 1 else 0)
       (scan_range line (if real then 1 else 0) c) = Some s"
    "\<And>p. s = Slot_at p \<Longrightarrow> p < length line" by blast
  with False assms(1) show ?thesis
    by (cases s) (auto simp: place_crdt_def Let_def vec_insert_def)
qed

section \<open>The climb\<close>

text \<open>From a column on, a line of a well-formed projection has no line break.\<close>

lemma wf_row_rest:
  assumes "wf_proj chars p" "vec_get p row = Some line" "row = 0 \<or> 0 < c"
  shows "plain_row (is_break chars) (drop c line)" "set line \<subseteq> dom chars"
    "concat (drop (Suc row) p) \<noteq> [] \<Longrightarrow> \<not> passes chars Q k (hd (concat (drop (Suc row) p)))"
proof -
  have row: "row < length p" "p ! row = line" using assms(2) by (simp_all add: vec_simps)
  then have p: "p = take row p @ line # drop (Suc row) p" using nth_split by metis
  then have ok: "rows_ok (is_break chars) (take row p @ line # drop (Suc row) p)"
    using assms(1) by (simp add: wf_proj_def)
  show "plain_row (is_break chars) (drop c line)"
  proof (cases "row = 0")
    case True
    with ok show ?thesis by (auto simp: plain_row_def dest: in_set_dropD)
  next
    case False
    with row ok have "break_row (is_break chars) line" by (cases p) (auto simp: rows_ok_snoc)
    with assms(3) False show ?thesis
      by (cases line; cases c) (auto simp: break_row_def plain_row_def dest: in_set_dropD)
  qed
  have "\<not> passes chars Q k (hd (b @ concat bs))" if B: "drop (Suc row) p = b # bs" for b bs
  proof -
    have "rows_ok (is_break chars) (take row p @ line # b # bs)" using ok B by simp
    then obtain x cs where "b = x # cs" "is_break chars x"
      by (auto simp: rows_ok_snoc break_row_def split: list.splits)
    then show ?thesis by (auto simp: passes_def is_break_def split: option.splits)
  qed
  then show "concat (drop (Suc row) p) \<noteq> [] \<Longrightarrow> \<not> passes chars Q k (hd (concat (drop (Suc row) p)))"
    by (cases "drop (Suc row) p") auto
  have "line \<in> set p" using row by auto
  then have "set line \<subseteq> set (concat p)" by auto
  then show "set line \<subseteq> dom chars"
    using assms(1) live_keys_dom [of chars] unfolding wf_proj_def by blast
qed

text \<open>A slot as a place in the reading order.\<close>

definition cut_at :: "shar_file \<Rightarrow> nat \<Rightarrow> nat \<Rightarrow> key list \<times> key list" where
  "cut_at f row col =
     (concat (take row (projection f)) @ take col (projection f ! row),
      drop col (projection f ! row) @ concat (drop (Suc row) (projection f)))"

lemma cut_at_split:
  assumes "projection f = A @ (xs @ ys) # B"
  shows "cut_at f (length A) (length xs) = (concat A @ xs, ys @ concat B)"
  by (simp add: cut_at_def assms)

lemma go_past_row:
  assumes "zs \<noteq> [] \<Longrightarrow> \<not> P (hd (zs))"
  shows "go_past P (us, ys @ zs) = (us @ takeWhile P ys, dropWhile P ys @ zs)"
proof -
  show ?thesis
  proof (cases "\<forall>y \<in> set ys. P y")
    case True
    have "takeWhile P (zs) = []" "dropWhile P (zs) = zs"
      using assms by (cases zs; simp)+
    moreover have "takeWhile P (ys @ zs) = ys @ takeWhile P (zs)"
      by (rule takeWhile_append2) (use True in blast)
    moreover have "dropWhile P (ys @ zs) = dropWhile P (zs)"
      by (rule dropWhile_append2) (use True in blast)
    moreover have "takeWhile P ys = ys" using True by (simp only: takeWhile_eq_all_conv)
    moreover have "dropWhile P ys = []" using True by (simp only: dropWhile_eq_Nil_conv)
    ultimately show ?thesis by (simp only: go_past_simps append_Nil append_Nil2)
  next
    case False
    then obtain y where y: "y \<in> set ys" "\<not> P y" by blast
    have "takeWhile P (ys @ zs) = takeWhile P ys" using y by (rule takeWhile_append1)
    moreover have "dropWhile P (ys @ zs) = dropWhile P ys @ zs" using y by (rule dropWhile_append1)
    ultimately show ?thesis by (simp only: go_past_simps)
  qed
qed

lemma tombstone_slot_eq:
  assumes "wf_proj (characters f) (projection f)" "vec_get (projection f) row = Some line"
    and "row = 0 \<or> 0 < c + offset" "c + offset \<le> length line" "offset \<in> {0, 1}"
  shows "\<exists>col. tombstone_slot f k par (row, c) offset = Some (Inr (row, col)) \<and>
    c + offset \<le> col \<and> col \<le> length line \<and>
    cut_at f row col = go_past (passes (characters f) par k) (cut_at f row (c + offset))"
proof -
  let ?P = "passes (characters f) par k" and ?ys = "drop (c + offset) line"
  let ?col = "c + offset + length (takeWhile ?P ?ys)"
  note rest = wf_row_rest [OF assms(1-3)]
  have ys: "set ?ys \<subseteq> dom (characters f)" using rest(2) set_drop_subset by fast
  have split: "take (c + offset) line @ ?ys = line" by simp
  have "scan_siblings (characters f) (take (c + offset) line @ ?ys) k par offset
      [c ..< (if offset = 0 then length line + 1 else length line)] =
    Some (if \<forall>e \<in> set ?ys. ?P e then Slot_end (length (take (c + offset) line @ ?ys))
          else Slot_at (length (take (c + offset) line) + length (takeWhile ?P ?ys)))"
    by (rule scan_siblings_eq [OF ys rest(1)]) (use assms(4,5) in auto)
  then have scan: "scan_siblings (characters f) line k par offset (scan_range line offset c) =
    Some (if \<forall>e \<in> set ?ys. ?P e then Slot_end (length line) else Slot_at ?col)"
    unfolding split scan_range_def using assms(4) by simp
  have le: "length (takeWhile ?P ?ys) \<le> length line - (c + offset)"
    by (metis length_drop length_takeWhile_le)
  have "?col = length line" if "\<forall>e \<in> set ?ys. ?P e"
  proof -
    have "takeWhile ?P ?ys = ?ys" using that by (simp only: takeWhile_eq_all_conv)
    then have "length (takeWhile ?P ?ys) = length ?ys" by (rule arg_cong)
    then show ?thesis unfolding length_drop using assms(4) by linarith
  qed
  then have slot: "tombstone_slot f k par (row, c) offset = Some (Inr (row, ?col))"
    using scan assms(2) by (auto simp: tombstone_slot_def)
  have line: "projection f ! row = line" using assms(2) by (simp add: vec_simps)
  have "drop ?col line = drop (length (takeWhile ?P ?ys)) ?ys" by (simp add: add.commute)
  also have "\<dots> = dropWhile ?P ?ys" by (simp only: dropWhile_eq_drop)
  finally have later: "drop ?col line = dropWhile ?P ?ys" .
  have "take ?col line = take (c + offset) line @ take (length (takeWhile ?P ?ys)) ?ys" by (rule take_add)
  also have "take (length (takeWhile ?P ?ys)) ?ys = takeWhile ?P ?ys" by (rule takeWhile_eq_take [symmetric])
  finally have sooner: "take ?col line = take (c + offset) line @ takeWhile ?P ?ys" .
  have "cut_at f row ?col = go_past ?P (cut_at f row (c + offset))"
    unfolding cut_at_def line sooner later
    by (subst go_past_row) (use rest(3) in \<open>simp_all\<close>)
  then show ?thesis using slot le assms(4) by (intro exI [of _ ?col]) simp
qed

text \<open>
  The climb returns a slot on the row of the first live ancestor, behind it when it is not the
  root; for the root the slot is one of line 0, and may be the one before the sentinel. In the
  reading order it is where the character would be.
\<close>

definition slot_behind :: "shar_file \<Rightarrow> key \<Rightarrow> key \<Rightarrow> nat \<Rightarrow> nat \<Rightarrow> bool" where
  "slot_behind f k a row col \<longleftrightarrow>
     (\<exists>line. vec_get (projection f) row = Some line \<and> col \<le> length line \<and>
       (row = 0 \<or> 0 < col) \<and> (if a = root then row = 0 else a \<in> set (take col line)) \<and>
       climbs (characters f) (flat f) k (cut_at f row col))"

lemma find_tombstone_slot:
  assumes wf: "wf_file f"
  shows "hangs_from (characters f) k a \<Longrightarrow>
    \<exists>row col. (\<forall>n. find_tombstone f n k = Some (Inr (row, col))) \<and> slot_behind f k a row col"
proof (induction rule: hangs_from.induct)
  case (hangs_live k r p)
  have a: "parent_key r \<in> live_keys (characters f)" using hangs_live by (auto simp: live_keys_def)
  show ?case
  proof (cases "parent_key r = root")
    case True
    obtain cs ls where proj: "projection f = (root # cs) # ls"
      using wf by (auto simp: wf_file_def wf_proj_def)
    then have line: "vec_get (projection f) 0 = Some (root # cs)" by (simp add: vec_get_def)
    from tombstone_slot_eq [OF wf_fileD(2) [OF wf] line, of 0 0 k root] obtain col where
      col: "tombstone_slot f k root (0, 0) 0 = Some (Inr (0, col))" "col \<le> length (root # cs)"
      "cut_at f 0 col = go_past (passes (characters f) root k) (cut_at f 0 0)" by auto
    have "cut_at f 0 0 = ([], flat f)" by (simp add: cut_at_def proj flat_def)
    then have "climbs (characters f) (flat f) k (cut_at f 0 col)"
      unfolding col(3) using climbs_first [OF hangs_live True] by simp
    then show ?thesis
      using hangs_live True line col(1,2)
      by (intro exI [of _ 0] exI [of _ col]) (auto simp: find_tombstone.simps slot_behind_def)
  next
    case False
    obtain A xs ys B where proj: "projection f = A @ (xs @ parent_key r # ys) # B"
      and find: "\<And>n. find_crdt f n (parent_key r) = Some (Inr (length A, length xs))"
      using wf_live_split [OF wf a] by blast
    let ?line = "xs @ parent_key r # ys"
    have line: "vec_get (projection f) (length A) = Some ?line" by (simp add: proj vec_get_def)
    from tombstone_slot_eq [OF wf_fileD(2) [OF wf] line, of "length xs" 1 k "parent_key r"]
    obtain col where col: "tombstone_slot f k (parent_key r) (length A, length xs) 1 =
        Some (Inr (length A, col))" "length xs + 1 \<le> col" "col \<le> length ?line"
      "cut_at f (length A) col =
        go_past (passes (characters f) (parent_key r) k) (cut_at f (length A) (length xs + 1))" by auto
    have "cut_at f (length A) (length xs + 1) = ((concat A @ xs) @ [parent_key r], ys @ concat B)"
      using cut_at_split [of f A "xs @ [parent_key r]" ys B] proj by simp
    then have "climbs (characters f) (flat f) k (cut_at f (length A) col)"
      unfolding col(4) using climbs_live [OF hangs_live False flat_split(1) [OF wf proj]] by simp
    moreover have "find_tombstone f n k = Some (Inr (length A, col))" for n
      using hangs_live False find col(1) by (simp add: find_tombstone.simps)
    ultimately have "slot_behind f k (parent_key r) (length A) col"
      using line col(2,3) False by (auto simp: slot_behind_def take_Cons')
    then show ?thesis using \<open>\<And>n. find_tombstone f n k = Some (Inr (length A, col))\<close> by blast
  qed
next
  case (hangs_tomb k r p a)
  then obtain row c where up: "\<And>n. find_tombstone f n (parent_key r) = Some (Inr (row, c))"
    "slot_behind f (parent_key r) a row c" by blast
  then obtain line where line: "vec_get (projection f) row = Some line" "c \<le> length line"
    "row = 0 \<or> 0 < c" "if a = root then row = 0 else a \<in> set (take c line)"
    "climbs (characters f) (flat f) (parent_key r) (cut_at f row c)" by (auto simp: slot_behind_def)
  from tombstone_slot_eq [OF wf_fileD(2) [OF wf] line(1), of c 0 k "parent_key r"] line obtain col
    where col: "tombstone_slot f k (parent_key r) (row, c) 0 = Some (Inr (row, col))"
      "c \<le> col" "col \<le> length line"
      "cut_at f row col = go_past (passes (characters f) (parent_key r) k) (cut_at f row c)" by auto
  have "find_tombstone f n k = Some (Inr (row, col))" for n
    using hangs_tomb.hyps(1-3) up(1) col(1) by (subst find_tombstone.simps) simp
  moreover have "climbs (characters f) (flat f) k (cut_at f row col)"
    unfolding col(4) by (rule climbs_tomb [OF hangs_tomb.hyps(1-3) line(5)])
  then have "slot_behind f k a row col"
    using line col(2,3) by (auto simp: slot_behind_def dest: set_take_subset_set_take [THEN subsetD] split: if_splits)
  ultimately show ?case by blast
qed

section \<open>Every operation returns\<close>

lemma add_crdt_returns:
  assumes wf: "wf_file f"
  shows "\<exists>res. add_crdt f n c = Some res"
proof -
  let ?k = "crdt_key c" and ?r = "crdt_relation c"
  let ?par = "parent_key (crdt_relation c)"
  let ?f1 = "f\<lparr>characters := (characters f)(?k \<mapsto> ?r)\<rparr>"
  show ?thesis
  proof (cases "characters f ?par = None \<or> characters f ?k \<noteq> None")
    case True
    then show ?thesis by (cases "characters f ?par") (auto simp: add_crdt_def Let_def)
  next
    case False
    then obtain p where p: "characters f ?par = Some p" and new: "characters f ?k = None" by auto
    have place: "\<exists>res. place_crdt ?f1 ?k ?r (row, c) real = Some res"
      if "vec_get (projection f) row = Some line" "row = 0 \<or> 0 < c"
        "c + (if real then 1 else 0) \<le> length line" for row c real line
      by (rule place_crdt_returns [of _ _ line])
        (use that wf_row_rest(2) [OF wf_fileD(2) [OF wf] that(1,2)] in auto)
    show ?thesis
    proof (cases "cr_deleted p")
      case True
      obtain a where "hangs_from (characters f) ?par a"
        using hangs_from_exists [OF wf_fileD(1) [OF wf]] p by blast
      from find_tombstone_slot [OF wf this] obtain row col line where
        "find_tombstone f n ?par = Some (Inr (row, col))" "vec_get (projection f) row = Some line"
        "row = 0 \<or> 0 < col" "col \<le> length line" by (auto simp: slot_behind_def)
      with True p new place [of row line col False] show ?thesis
        by (auto simp: add_crdt_def Let_def)
    next
      case False
      then have "?par \<in> live_keys (characters f)" using p by (auto simp: live_keys_def)
      from wf_live_split [OF wf this] obtain A xs ys B where
        proj: "projection f = A @ (xs @ ?par # ys) # B"
        and find: "\<And>n. find_crdt f n ?par = Some (Inr (length A, length xs))" by blast
      have "\<exists>res. place_crdt ?f1 ?k ?r (length A, length xs) True = Some res"
        by (rule place_crdt_returns [of _ _ "xs @ ?par # ys"])
          (use proj wf_row_rest(2) [OF wf_fileD(2) [OF wf], of "length A" "xs @ ?par # ys" 1]
            in \<open>auto simp: vec_get_def\<close>)
      with False p new find show ?thesis by (auto simp: add_crdt_def Let_def)
    qed
  qed
qed

lemma remove_crdt_returns:
  assumes wf: "wf_file f"
  shows "\<exists>res. remove_crdt f n k = Some res"
proof (cases "k \<in> live_keys (characters f)")
  case True
  show ?thesis
  proof (cases "k = root")
    case False
    then show ?thesis using remove_crdt_live [OF wf True] by blast
  next
    case root: True
    obtain cs ls where "projection f = (root # cs) # ls"
      using wf by (auto simp: wf_file_def wf_proj_def)
    then show ?thesis
      using root wf_chars_root [OF wf_fileD(1) [OF wf]]
      by (simp add: remove_crdt_def vec_get_def is_line_break_def)
  qed
next
  case False
  then show ?thesis
    by (cases "characters f k") (auto simp: remove_crdt_def live_keys_def)
qed

section \<open>An ordinary character below a tombstone\<close>

lemma add_crdt_tombstone:
  assumes wf: "wf_file f" and new: "characters f (crdt_key c) = None"
    and dead: "characters f (parent_key (crdt_relation c)) = Some p" "cr_deleted p"
    and a: "hangs_from (characters f) (parent_key (crdt_relation c)) a" "a \<noteq> root"
    and char: "\<not> is_line_break (cr_value (crdt_relation c))" "\<not> cr_deleted (crdt_relation c)"
  shows "\<exists>f' p us vs. (\<forall>n. add_crdt f n c = Some (f', Inr (Some p))) \<and> wf_file f' \<and>
    characters f' = (characters f)(crdt_key c \<mapsto> crdt_relation c) \<and>
    climbs (characters f) (flat f) (parent_key (crdt_relation c)) (us, vs) \<and> a \<in> set us \<and>
    flat f' = us @ place_among (passes (characters f) (parent_key (crdt_relation c)) (crdt_key c)) (crdt_key c) vs \<and>
    vec_get (projection f' ! fst p) (snd p) = Some (crdt_key c)"
proof -
  let ?k = "crdt_key c" and ?r = "crdt_relation c"
  let ?par = "parent_key (crdt_relation c)"
  let ?chars = "(characters f)(?k \<mapsto> ?r)"
  let ?f1 = "f\<lparr>characters := ?chars\<rparr>"
  let ?P = "passes ?chars ?par ?k"
  from find_tombstone_slot [OF wf a(1)] obtain row col line where
    find: "\<And>n. find_tombstone f n ?par = Some (Inr (row, col))" and
    line: "vec_get (projection f) row = Some line" and
    col: "col \<le> length line" "row = 0 \<or> 0 < col" "a \<in> set (take col line)"
      "climbs (characters f) (flat f) ?par (cut_at f row col)"
    using a(2) unfolding slot_behind_def if_not_P [OF a(2)] by (elim exE conjE) (rule that; blast)
  define A where "A = take row (projection f)"
  define B where "B = drop (Suc row) (projection f)"
  define xs where "xs = take col line"
  define ys where "ys = drop col line"
  have proj: "projection f = A @ (xs @ ys) # B" and A: "length A = row"
    using line nth_split [of row "projection f"]
    by (auto simp: vec_simps A_def B_def xs_def ys_def)
  have xs: "xs \<noteq> []" "length xs = col" "a \<in> set xs" using col by (cases col; auto simp: xs_def)+
  note rest = wf_row_rest [OF wf_fileD(2) [OF wf] line col(2), folded ys_def]
  have k_line: "?k \<notin> set line" using new rest(2) by auto
  then have "?k \<notin> set ys" by (auto simp: ys_def dest: in_set_dropD)
  then have plain: "plain_row (is_break ?chars) ys" "set ys \<subseteq> dom ?chars"
    using rest by (auto simp: plain_row_def ys_def dest: in_set_dropD)
  have cut: "cut_at f row col = (concat A @ xs, ys @ concat B)" using cut_at_split [OF proj] A xs(2) by simp
  define f' where "f' = ?f1\<lparr>projection := A @ (xs @ place_among ?P ?k ys) # B\<rparr>"
  have "add_crdt f n c = Some (f', Inr (Some (row, col + length (takeWhile ?P ys))))" for n
    using place_crdt_char [of ?f1 A xs ys B ?r col False ?k] plain proj char(1) xs(2) A
      dead new find
    by (simp add: add_crdt_def Let_def f'_def)
  moreover have "wf_file f'"
  proof -
    have "wf_proj (characters f) (A @ ((xs @ takeWhile ?P ys) @ dropWhile ?P ys) # B)"
      using wf_fileD(2) [OF wf] proj by simp
    from wf_insert_char [OF this _ new char] xs(1)
    have "wf_proj ?chars (A @ (xs @ place_among ?P ?k ys) # B)"
      by (simp add: place_among_conv)
    moreover have "wf_chars ?chars"
      by (rule wf_chars_add [OF wf_fileD(1) [OF wf] _ new]) (use dead in auto)
    ultimately show ?thesis by (simp add: wf_file_def f'_def)
  qed
  moreover have "flat f' = (concat A @ xs) @
      place_among (passes (characters f) ?par ?k) ?k (ys @ concat B)"
  proof -
    have same: "passes ?chars ?par ?k e = passes (characters f) ?par ?k e" if "e \<in> set ys" for e
      by (rule passes_upd) (use \<open>?k \<notin> set ys\<close> that in auto)
    have "place_among ?P ?k ys = place_among (passes (characters f) ?par ?k) ?k ys"
      by (rule place_among_cong) (rule same)
    moreover have "concat B \<noteq> [] \<Longrightarrow> \<not> passes (characters f) ?par ?k (hd (concat B))"
      unfolding B_def by (rule wf_row_rest(3) [OF wf_fileD(2) [OF wf] line col(2)])
    ultimately show ?thesis
      using place_among_stop [of "concat B" "passes (characters f) ?par ?k" ?k ys]
      by (simp add: f'_def flat_def)
  qed
  moreover have "vec_get (projection f' ! row) (col + length (takeWhile ?P ys)) = Some ?k"
    using xs(2) A by (simp add: f'_def place_among_conv vec_get_def nth_append flip: A)
  ultimately show ?thesis
    using xs(3) col(4) cut by (intro exI [of _ f'] exI [of _ "(row, col + length (takeWhile ?P ys))"]
        exI [of _ "concat A @ xs"] exI [of _ "ys @ concat B"]) (simp add: f'_def)
qed

end
