(* ===== verification/LoadFile.thy ===== *)
theory LoadFile
  imports Convergence Tombstone
begin

text \<open>
  Loading a file and reading it back: \<open>add_file\<close> gives the characters consecutive ids of peer 0,
  chains them, and shows them in the order of the file; the text of the loaded file is the file.
\<close>

section \<open>The text of a file\<close>

definition char_at :: "shar_file \<Rightarrow> key \<Rightarrow> uchar" where
  "char_at f k = (case characters f k of None \<Rightarrow> 0 | Some r \<Rightarrow> cr_value r)"

text \<open>The characters in reading order, without the root sentinel.\<close>

definition text_of :: "shar_file \<Rightarrow> uchar list" where
  "text_of f = map (char_at f) (tl (flat f))"

lemma values_of_eq:
  "set ks \<subseteq> dom chars \<Longrightarrow>
     values_of chars ks = Some (map (\<lambda>k. (k, case chars k of None \<Rightarrow> 0 | Some r \<Rightarrow> cr_value r)) ks)"
  by (induction ks) auto

lemma lines_values_eq:
  "set (concat ls) \<subseteq> dom chars \<Longrightarrow>
     lines_values chars ls =
       Some (map (map (\<lambda>k. (k, case chars k of None \<Rightarrow> 0 | Some r \<Rightarrow> cr_value r))) ls)"
  by (induction ls) (auto simp: values_of_eq)

lemma identities_eq:
  assumes "wf_file f"
  shows "identities_with_values f = Some (map (map (\<lambda>k. (k, char_at f k))) (projection f))"
proof -
  have "set (concat (projection f)) \<subseteq> dom (characters f)"
    using wf_fileD(4) [OF assms] live_keys_dom unfolding flat_def by blast
  then show ?thesis by (simp add: identities_with_values_def lines_values_eq char_at_def)
qed

lemma char_at_upd:
  "characters f' = (characters f)(k \<mapsto> r) \<Longrightarrow>
     char_at f' x = (if x = k then cr_value r else char_at f x)"
  by (simp add: char_at_def)

section \<open>Loading\<close>

definition ids_below :: "shar_file \<Rightarrow> u32 \<Rightarrow> bool" where
  "ids_below f counter \<longleftrightarrow> (\<forall>k \<in> dom (characters f). fst k \<le> counter)"

lemma word_succ_less: "unat (c :: u32) + 1 < 2 ^ 32 \<Longrightarrow> c < c + 1"
  using no_olen_add_nat [of c 1] by (simp add: word_less_nat_alt unat_word_ariths)

lemma ids_below_fresh:
  assumes "ids_below f counter" "counter < i"
  shows "characters f (i, p) = None"
proof (rule ccontr)
  assume "characters f (i, p) \<noteq> None"
  then have "fst (i, p) \<le> counter" using assms(1) unfolding ids_below_def by blast
  with assms(2) show False by simp
qed

lemma ids_below_newest:
  assumes "ids_below f counter" "counter < crdt_id c"
  shows "newest f c"
  unfolding newest_def
proof
  fix k
  assume "k \<in> live_keys (characters f)"
  then have "fst k \<le> counter" using assms(1) live_keys_dom unfolding ids_below_def by blast
  with assms(2) show "fst k < crdt_id c" by simp
qed

text \<open>A fresh character goes right behind its parent, whatever the hint.\<close>

lemma add_fresh:
  assumes wf: "wf_file f" and c: "insertable f c" "newest f c"
    and flat: "flat f = us @ parent_key (crdt_relation c) # vs"
  shows "\<exists>f' p. inserted f c f' p \<and> (\<forall>n. add_crdt f n c = Some (f', Inr (Some p))) \<and>
    flat f' = us @ parent_key (crdt_relation c) # crdt_key c # vs"
proof -
  obtain f' p where "inserted f c f' p" "\<forall>n. add_crdt f n c = Some (f', Inr (Some p))"
    using add_crdt_live [OF wf] c(1) unfolding insertable_def by blast
  with insert_order_newest [OF wf c(2) flat refl] show ?thesis
    by (metis inserted_def)
qed

text \<open>The characters of a text: each below the one before it, with the next id.\<close>

fun chained :: "(key \<rightharpoonup> crdt_relation) \<Rightarrow> u32 \<Rightarrow> u32 \<Rightarrow> uchar list \<Rightarrow> key \<rightharpoonup> crdt_relation" where
  "chained chars counter prev_id [] = chars"
| "chained chars counter prev_id (c # cs) =
     chained (chars((counter + 1, 0) \<mapsto> CrdtRelation_new c prev_id 0)) (counter + 1) (counter + 1) cs"

definition loaded :: "shar_file \<Rightarrow> u32 \<Rightarrow> uchar list \<Rightarrow> shar_file \<Rightarrow> bool" where
  "loaded f counter cs f' \<longleftrightarrow>
     wf_file f' \<and> file_path f' = file_path f \<and> ids_below f' (counter + of_nat (length cs)) \<and>
     flat f' = flat f @ map (\<lambda>i. (counter + of_nat (Suc i), 0)) [0..<length cs] \<and>
     map (char_at f') (flat f') = map (char_at f) (flat f) @ cs"

lemma add_chars_loaded:
  "wf_file f \<Longrightarrow> flat f = us @ [(prev_id, 0)] \<Longrightarrow> ids_below f counter \<Longrightarrow>
     unat counter + length cs < 2 ^ 32 \<Longrightarrow>
     \<exists>f'. add_chars f counter line prev_id cs = Some (f', counter + of_nat (length cs)) \<and>
       loaded f counter cs f' \<and> characters f' = chained (characters f) counter prev_id cs"
proof (induction cs arbitrary: f us prev_id counter line)
  case Nil
  then show ?case by (simp add: loaded_def)
next
  case (Cons ch cs)
  let ?i = "counter + 1"
  let ?c = "CRDT_new ?i 0 (CrdtRelation_new ch prev_id 0)"
  have less: "counter < ?i" by (rule word_succ_less) (use Cons.prems(4) in simp)
  have live: "(prev_id, 0) \<in> live_keys (characters f)"
    using Cons.prems(2) wf_fileD(4) [OF Cons.prems(1)] by (metis in_set_conv_decomp)
  have c: "insertable f ?c" "newest f ?c"
    using ids_below_fresh [OF Cons.prems(3) less] ids_below_newest [OF Cons.prems(3), of ?c] less live
    by (simp_all add: insertable_def)
  from add_fresh [OF Cons.prems(1) c, of us "[]"] Cons.prems(2) obtain g p where
    g: "inserted f ?c g p" "\<And>n. add_crdt f n ?c = Some (g, Inr (Some p))"
    "flat g = us @ [(prev_id, 0), (?i, 0)]" by auto
  have chars: "characters g = (characters f)((?i, 0) \<mapsto> CrdtRelation_new ch prev_id 0)"
    using g(1) by (simp add: inserted_def)
  have i: "unat ?i = Suc (unat counter)"
    using Cons.prems(4) by (simp add: unat_word_ariths)
  have "wf_file g" "ids_below g ?i"
    using g(1) Cons.prems(3) less chars
    by (auto simp: inserted_def ids_below_def intro: order.trans less_imp_le)
  moreover have "flat g = (us @ [(prev_id, 0)]) @ [(?i, 0)]" using g(3) by simp
  moreover have "unat ?i + length cs < 2 ^ 32" using Cons.prems(4) i by simp
  ultimately obtain f' where f':
    "add_chars g ?i (if is_line_break ch then line + 1 else line) ?i cs =
       Some (f', ?i + of_nat (length cs))" "loaded g ?i cs f'"
    "characters f' = chained (characters g) ?i ?i cs"
    using Cons.IH by blast
  have new: "(?i, 0) \<notin> set (flat f)"
    using insertable_flat(1) [OF Cons.prems(1) c(1)] by simp
  then have vals: "map (char_at g) (flat f) = map (char_at f) (flat f)" "char_at g (?i, 0) = ch"
    by (auto simp: char_at_def chars)
  have ids: "map (\<lambda>j. (?i + of_nat (Suc j), 0)) [0..<length cs] =
      map (\<lambda>j. (counter + of_nat (Suc j), 0 :: u32)) (map Suc [0..<length cs])"
    by (simp add: add.assoc)
  have "flat f' = flat f @ map (\<lambda>j. (counter + of_nat (Suc j), 0)) [0..<length (ch # cs)]"
    using f'(2) g(3) Cons.prems(2) unfolding loaded_def ids map_Suc_upt
    by (simp add: upt_conv_Cons del: upt_Suc)
  moreover have "map (char_at f') (flat f') = map (char_at f) (flat f) @ ch # cs"
  proof -
    have "map (char_at f') (flat f') = map (char_at g) (flat g) @ cs"
      using f'(2) unfolding loaded_def by blast
    moreover have "map (char_at g) (flat g) = map (char_at f) (flat f) @ [ch]"
      using g(3) Cons.prems(2) vals by simp
    ultimately show ?thesis by simp
  qed
  moreover have "wf_file f'" "file_path f' = file_path g" "ids_below f' (?i + of_nat (length cs))"
    using f'(2) unfolding loaded_def by blast+
  moreover have "file_path g = file_path f" using g(1) unfolding inserted_def by blast
  moreover have "?i + of_nat (length cs) = counter + of_nat (length (ch # cs))"
    by (simp add: add.assoc)
  ultimately have "loaded f counter (ch # cs) f'" unfolding loaded_def by metis
  moreover have "characters f' = chained (characters f) counter prev_id (ch # cs)" using f'(3) chars by simp
  moreover have "add_chars f counter line prev_id (ch # cs) =
      Some (f', counter + of_nat (length (ch # cs)))"
    using f'(1) g(2) by (simp add: Let_def add.assoc)
  ultimately show ?case by blast
qed

text \<open>The file of the sentinel alone, with which loading starts.\<close>

definition empty_file :: "path \<Rightarrow> shar_file" where
  "empty_file p =
     \<lparr>file_path = p, characters = [root \<mapsto> CrdtRelation_new 0 0 0], projection = [[root]]\<rparr>"

lemma empty_file_wf: "wf_file (empty_file p)"
proof -
  have "anchored [root \<mapsto> CrdtRelation_new 0 0 0] root" by (rule anchored_root) simp
  then show ?thesis
    by (auto simp: empty_file_def wf_file_def wf_chars_def wf_proj_def root_ok_def live_keys_def
        plain_row_def is_break_def is_line_break_def)
qed

lemma add_file_eq:
  "add_file \<lparr>file_path = p, characters = Map.empty, projection = []\<rparr> cs counter =
     add_chars (empty_file p) counter 0 0 cs"
  by (simp add: add_file_def empty_file_def)

lemma SharFile_new_loaded:
  assumes "read p = Inr cs" "unat counter + length cs < 2 ^ 32"
  shows "\<exists>f. SharFile_new read p counter = Some (Inr (f, counter + of_nat (length cs))) \<and>
    loaded (empty_file p) counter cs f \<and> characters f = chained [root \<mapsto> CrdtRelation_new 0 0 0] counter 0 cs"
proof -
  have "flat (empty_file p) = [] @ [(0, 0)]" "ids_below (empty_file p) counter"
    by (auto simp: empty_file_def flat_def ids_below_def)
  from add_chars_loaded [OF empty_file_wf this assms(2), of 0] show ?thesis
    using assms(1) by (auto simp: SharFile_new_def add_file_eq empty_file_def)
qed

lemma loaded_text:
  assumes "loaded (empty_file p) counter cs f"
  shows "text_of f = cs" "file_path f = p" "wf_file f"
    "flat f = root # map (\<lambda>i. (counter + of_nat (Suc i), 0)) [0..<length cs]"
proof -
  have start: "flat (empty_file p) = [root]" by (simp add: empty_file_def flat_def)
  have "map (char_at f) (flat f) = map (char_at (empty_file p)) (flat (empty_file p)) @ cs"
    using assms unfolding loaded_def by blast
  then have "map (char_at f) (flat f) = char_at (empty_file p) root # cs" using start by simp
  then show "text_of f = cs" by (simp add: text_of_def map_tl)
  show "file_path f = p" "wf_file f"
    "flat f = root # map (\<lambda>i. (counter + of_nat (Suc i), 0)) [0..<length cs]"
    using assms start by (simp_all add: loaded_def empty_file_def)
qed

end
