(* ===== verification/FileFacts.thy ===== *)
theory FileFacts
  imports LoadFile
begin

text \<open>
  Facts on a file as a whole: which calls fail, what a call does to the characters it is not about,
  the neighbour that \<open>predecessor_identity\<close> reports, the files a run of operations reaches, and
  two small files on which the properties are tried.
\<close>

section \<open>When a call fails\<close>

lemma place_crdt_no_error: "place_crdt f k r p b = Some (f', res) \<Longrightarrow> \<exists>q. res = Inr q"
  by (auto simp: place_crdt_def Let_def elim!: bind_SomeE
      split: if_splits option.splits slot.splits)

lemma place_crdt_frame [frame_simps]:
  "place_crdt f k r p b = Some (f', res) \<Longrightarrow>
     characters f' = characters f \<and> file_path f' = file_path f"
  by (auto simp: place_crdt_def Let_def elim!: bind_SomeE
      split: if_splits option.splits slot.splits)

text \<open>What any call of \<open>add_crdt\<close> does to the characters of the file.\<close>

lemma add_crdt_characters:
  assumes "add_crdt f n c = Some (f', res)"
  shows "file_path f' = file_path f \<and>
    (case res of
       Inr (Some p) \<Rightarrow> characters f (crdt_key c) = None \<and>
         characters f (parent_key (crdt_relation c)) \<noteq> None \<and>
         characters f' = (characters f)(crdt_key c \<mapsto> crdt_relation c)
     | _ \<Rightarrow> f' = f \<or> characters f (crdt_key c) = None \<and>
         characters f' = (characters f)(crdt_key c \<mapsto> crdt_relation c))"
  using assms
  by (auto simp: add_crdt_def Let_def elim!: bind_SomeE dest!: place_crdt_frame
      split: if_splits option.splits sum.splits)

lemma remove_line_frame:
  "remove_line f r = Some (f', res) \<Longrightarrow> characters f' = characters f \<and> file_path f' = file_path f"
  by (auto simp: remove_line_def elim!: bind_SomeE split: if_splits option.splits)

lemma remove_crdt_characters:
  assumes "remove_crdt f n k = Some (f', res)"
  shows "file_path f' = file_path f \<and> characters f' = mark_deleted k (characters f)"
proof (cases "characters f k")
  case None
  then show ?thesis using assms by (auto simp: remove_crdt_def mark_deleted_def)
next
  case (Some val)
  have upd: "mark_deleted k (characters f) = (characters f)(k \<mapsto> val\<lparr>cr_deleted := True\<rparr>)"
    using Some by (simp add: mark_deleted_def)
  show ?thesis
  proof (cases "cr_deleted val")
    case True
    then have "val\<lparr>cr_deleted := True\<rparr> = val" by (cases val) simp
    then show ?thesis using assms Some True unfolding upd
      by (auto simp: remove_crdt_def fun_upd_idem)
  next
    case False
    then show ?thesis using assms Some unfolding upd
      by (auto simp: remove_crdt_def Let_def elim!: bind_SomeE dest!: remove_line_frame
          split: if_splits option.splits sum.splits)
  qed
qed

lemma add_crdt_error_iff:
  assumes wf: "wf_file f"
  shows "add_crdt f n c = Some (f', Inl e) \<longleftrightarrow>
    characters f (parent_key (crdt_relation c)) = None \<and> f' = f \<and>
    e = Generic ''Parent does not exist''"
proof (cases "characters f (parent_key (crdt_relation c))")
  case None
  then show ?thesis by (auto simp: add_crdt_unknown_parent)
next
  case (Some p)
  let ?par = "parent_key (crdt_relation c)"
  have "\<exists>q. (if \<not> cr_deleted p then find_crdt f n ?par else find_tombstone f n ?par) = Some (Inr q)"
  proof (cases "cr_deleted p")
    case True
    obtain a where "hangs_from (characters f) ?par a"
      using hangs_from_exists [OF wf_fileD(1) [OF wf]] Some by blast
    from find_tombstone_slot [OF wf this] True show ?thesis by auto
  next
    case False
    then have "?par \<in> set (flat f)" using Some wf_fileD(4) [OF wf] by (auto simp: live_keys_def)
    then show ?thesis using find_crdt_complete [of ?par f n] False unfolding flat_def by auto
  qed
  then obtain q where
    "(if \<not> cr_deleted p then find_crdt f n ?par else find_tombstone f n ?par) = Some (Inr q)" ..
  then have "add_crdt f n c = (if characters f (crdt_key c) \<noteq> None then Some (f, Inr None)
      else place_crdt (f\<lparr>characters := (characters f)(crdt_key c \<mapsto> crdt_relation c)\<rparr>)
        (crdt_key c) (crdt_relation c) q (\<not> cr_deleted p))"
    using Some by (simp add: add_crdt_def Let_def)
  then have "add_crdt f n c \<noteq> Some (f', Inl e)"
    by (auto split: if_splits dest!: place_crdt_no_error)
  then show ?thesis using Some by simp
qed

lemma remove_crdt_error_iff:
  assumes wf: "wf_file f"
  shows "remove_crdt f n k = Some (f', Inl e) \<longleftrightarrow>
    characters f k = None \<and> f' = f \<and> e = Generic ''crdt cannot be found''"
proof (cases "k \<in> live_keys (characters f) \<and> k \<noteq> root")
  case True
  with remove_crdt_live [OF wf] obtain g p where "remove_crdt f n k = Some (g, Inr (Some p))"
    by blast
  moreover have "characters f k \<noteq> None" using True by (auto simp: live_keys_def)
  ultimately show ?thesis by simp
next
  case False
  show ?thesis
  proof (cases "characters f k")
    case None
    then show ?thesis by (auto simp: remove_crdt_unknown)
  next
    case (Some r)
    show ?thesis
    proof (cases "k = root")
      case root: True
      obtain cs ls where "projection f = (root # cs) # ls"
        using wf by (auto simp: wf_file_def wf_proj_def)
      then show ?thesis
        using root wf_chars_root [OF wf_fileD(1) [OF wf]]
        by (simp add: remove_crdt_def vec_get_def is_line_break_def)
    next
      case False
      then have "cr_deleted r" using Some \<open>\<not> (_ \<and> _)\<close> by (auto simp: live_keys_def)
      then show ?thesis using Some remove_crdt_again by simp
    qed
  qed
qed

section \<open>The character before a position\<close>

lemma rows_nonempty: "rows_ok br (r # rs) \<Longrightarrow> l \<in> set rs \<Longrightarrow> l \<noteq> []"
  by (auto simp: break_row_def)

lemma predecessor_identity_flat:
  assumes wf: "wf_file f" and p: "fst p < length (projection f)"
    and k: "vec_get (projection f ! fst p) (snd p) = Some k" and flat: "flat f = us @ k # vs"
  shows "predecessor_identity f p = (if us = [] then None else Some (last us))"
proof -
  let ?row = "projection f ! fst p"
  let ?A = "take (fst p) (projection f)" and ?B = "drop (Suc (fst p)) (projection f)"
  have row: "?row = take (snd p) ?row @ k # drop (Suc (snd p)) ?row"
    using k nth_split by (fastforce simp: vec_simps)
  have "flat f = concat ?A @ ?row @ concat ?B" unfolding flat_def by (rule concat_split [OF p])
  then have "flat f = (concat ?A @ take (snd p) ?row) @ k # (drop (Suc (snd p)) ?row @ concat ?B)"
    using row by (metis append.assoc append_Cons)
  then have us: "us = concat ?A @ take (snd p) ?row"
    using flat wf_fileD(3) [OF wf] by (metis distinct_split_unique)
  show ?thesis
  proof (cases "snd p")
    case (Suc c)
    then have "take (snd p) ?row = take c ?row @ [?row ! c]"
      using k by (simp add: vec_simps take_Suc_conv_app_nth)
    then have "take (snd p) ?row \<noteq> []" "last (take (snd p) ?row) = ?row ! c" by simp_all
    then show ?thesis using Suc k p us
      by (auto simp: predecessor_identity_def vec_get_def split: if_splits)
  next
    case 0
    show ?thesis
    proof (cases "fst p")
      case 0
      then show ?thesis using \<open>snd p = 0\<close> us by (simp add: predecessor_identity_def)
    next
      case (Suc r)
      have l: "projection f ! r \<noteq> []"
      proof (cases r)
        case 0
        then show ?thesis using wf by (auto simp: wf_file_def wf_proj_def)
      next
        case (Suc r')
        then have "projection f ! r \<in> set (tl (projection f))"
          using p \<open>fst p = Suc r\<close> by (cases "projection f") auto
        then show ?thesis using wf_fileD(5,6) [OF wf] rows_nonempty
          by (metis list.exhaust_sel)
      qed
      have "?A = take r (projection f) @ [projection f ! r]"
        using p Suc by (simp add: take_Suc_conv_app_nth)
      then have "us \<noteq> []" "last us = last (projection f ! r)"
        using us \<open>snd p = 0\<close> l by (auto simp del: set_concat)
      then show ?thesis using Suc \<open>snd p = 0\<close> p l
        by (simp add: predecessor_identity_def vec_get_def)
    qed
  qed
qed

section \<open>Runs of operations\<close>

text \<open>
  The additions that keep a file well-formed: a live character below a live parent, or an ordinary
  one below a tombstone that hangs from a character of the file. The other case, a parent whose
  live ancestor is the sentinel or a line break below a tombstone, is in \<open>Anomalies\<close>.
\<close>

definition admissible :: "shar_file \<Rightarrow> crdt \<Rightarrow> bool" where
  "admissible f c \<longleftrightarrow>
     \<not> cr_deleted (crdt_relation c) \<and>
     (\<forall>p. characters f (parent_key (crdt_relation c)) = Some p \<and> cr_deleted p \<longrightarrow>
        \<not> is_line_break (cr_value (crdt_relation c)) \<and>
        (\<exists>a. a \<noteq> root \<and> hangs_from (characters f) (parent_key (crdt_relation c)) a))"

inductive file_step :: "shar_file \<Rightarrow> shar_file \<Rightarrow> bool" where
  step_add: "admissible f c \<Longrightarrow> add_crdt f n c = Some (f', res) \<Longrightarrow> file_step f f'"
| step_remove: "k \<noteq> root \<Longrightarrow> remove_crdt f n k = Some (f', res) \<Longrightarrow> file_step f f'"

inductive file_run :: "shar_file \<Rightarrow> shar_file \<Rightarrow> bool" where
  run_start: "file_run f f"
| run_step: "file_run f g \<Longrightarrow> file_step g h \<Longrightarrow> file_run f h"

inductive_cases file_step_elim: "file_step f f'"

lemma admissible_wf:
  assumes wf: "wf_file f" and c: "admissible f c" and add: "add_crdt f n c = Some (f', res)"
  shows "wf_file f'"
proof (cases "characters f (parent_key (crdt_relation c))")
  case None
  then show ?thesis using add wf add_crdt_unknown_parent by auto
next
  case (Some p)
  show ?thesis
  proof (cases "characters f (crdt_key c) = None")
    case False
    then show ?thesis using add wf Some add_crdt_duplicate by auto
  next
    case new: True
    show ?thesis
    proof (cases "cr_deleted p")
      case True
      with Some c obtain a where "a \<noteq> root"
        "hangs_from (characters f) (parent_key (crdt_relation c)) a"
        "\<not> is_line_break (cr_value (crdt_relation c))" "\<not> cr_deleted (crdt_relation c)"
        unfolding admissible_def by blast
      from add_crdt_tombstone [OF wf new Some True this(2,1,3,4)] add show ?thesis by auto
    next
      case False
      then have "parent_key (crdt_relation c) \<in> live_keys (characters f)"
        using Some by (simp add: live_keys_def)
      from add_crdt_live [OF wf new this] c add show ?thesis
        by (auto simp: admissible_def inserted_def)
    qed
  qed
qed

lemma remove_wf:
  assumes wf: "wf_file f" and k: "k \<noteq> root" and rem: "remove_crdt f n k = Some (f', res)"
  shows "wf_file f'"
proof (cases "k \<in> dom (characters f)")
  case True
  from remove_step_known [OF wf True k] obtain g where "\<forall>m. remove_step (m, k) f = Some g" "wf_file g"
    by blast
  then have "remove_step (n, k) f = Some g" by blast
  then show ?thesis using rem \<open>wf_file g\<close> by (auto simp: remove_step_def split: sum.splits)
next
  case False
  then show ?thesis using rem wf remove_crdt_unknown [of f k n] by auto
qed

lemma file_step_wf: "file_step f f' \<Longrightarrow> wf_file f \<Longrightarrow> wf_file f'"
  by (erule file_step_elim) (blast intro: admissible_wf remove_wf)+

lemma file_run_wf: "file_run f g \<Longrightarrow> wf_file f \<Longrightarrow> wf_file g"
  by (induction rule: file_run.induct) (auto intro: file_step_wf)

text \<open>What every run keeps of a known character: its value, its parent, its tombstone.\<close>

definition node_kept :: "crdt_relation \<Rightarrow> crdt_relation \<Rightarrow> bool" where
  "node_kept r s \<longleftrightarrow>
     cr_value s = cr_value r \<and> parent_key s = parent_key r \<and> (cr_deleted r \<longrightarrow> cr_deleted s)"

lemma add_crdt_keeps:
  assumes "add_crdt f n c = Some (f', res)" "characters f k = Some r"
  shows "characters f' k = Some r"
  using add_crdt_characters [OF assms(1)] assms(2) by (auto split: sum.splits option.splits)

lemma file_step_keeps:
  assumes "file_step f f'" "characters f k = Some r"
  shows "\<exists>s. characters f' k = Some s \<and> node_kept r s"
  using assms(1)
proof (cases rule: file_step.cases)
  case (step_add c n res)
  from add_crdt_keeps [OF step_add(2) assms(2)] show ?thesis by (auto simp: node_kept_def)
next
  case (step_remove l n res)
  from remove_crdt_characters [OF step_remove(2)] show ?thesis
    using assms(2) by (auto simp: mark_deleted_def node_kept_def)
qed

lemma file_run_keeps:
  "file_run f g \<Longrightarrow> characters f k = Some r \<Longrightarrow> \<exists>s. characters g k = Some s \<and> node_kept r s"
proof (induction rule: file_run.induct)
  case (run_step f g h)
  then obtain s where "characters g k = Some s" "node_kept r s" by blast
  with file_step_keeps [OF run_step.hyps(2)] show ?case by (fastforce simp: node_kept_def)
qed (simp add: node_kept_def)

section \<open>Editing the text\<close>

lemma wf_flat_root:
  assumes "wf_file f"
  shows "\<exists>ks. flat f = root # ks \<and> root \<notin> set ks"
proof -
  obtain cs ls where "projection f = (root # cs) # ls"
    using assms by (auto simp: wf_file_def wf_proj_def)
  then have "flat f = root # (cs @ concat ls)" by (simp add: flat_def)
  then show ?thesis using wf_fileD(3) [OF assms] by (metis distinct.simps(2))
qed

lemma map_char_at_other:
  "k \<notin> set ks \<Longrightarrow> characters f' = (characters f)(k \<mapsto> r) \<Longrightarrow> map (char_at f') ks = map (char_at f) ks"
  by (auto simp: char_at_def)

text \<open>The newest character of a file lands right behind its parent in the text.\<close>

lemma typed_text:
  assumes wf: "wf_file f" and c: "insertable f c" "newest f c"
    and i: "i < length (flat f)" "flat f ! i = parent_key (crdt_relation c)"
  shows "\<exists>f' p. inserted f c f' p \<and> (\<forall>n. add_crdt f n c = Some (f', Inr (Some p))) \<and>
    flat f' = take (Suc i) (flat f) @ crdt_key c # drop (Suc i) (flat f) \<and>
    text_of f' = take i (text_of f) @ cr_value (crdt_relation c) # drop i (text_of f)"
proof -
  let ?v = "cr_value (crdt_relation c)"
  have "flat f = take i (flat f) @ parent_key (crdt_relation c) # drop (Suc i) (flat f)"
    using i by (metis id_take_nth_drop)
  from add_fresh [OF wf c this] obtain f' p where f': "inserted f c f' p"
    "\<forall>n. add_crdt f n c = Some (f', Inr (Some p))"
    "flat f' = take i (flat f) @ parent_key (crdt_relation c) # crdt_key c # drop (Suc i) (flat f)"
    by blast
  have flat': "flat f' = take (Suc i) (flat f) @ crdt_key c # drop (Suc i) (flat f)"
    using f'(3) i by (simp add: take_Suc_conv_app_nth)
  obtain ks where ks: "flat f = root # ks" using wf_flat_root [OF wf] by blast
  have chars: "characters f' = (characters f)(crdt_key c \<mapsto> crdt_relation c)"
    using f'(1) by (simp add: inserted_def)
  have "crdt_key c \<notin> set ks" using insertable_flat(1) [OF wf c(1)] ks by simp
  then have "map (char_at f') (take i ks) = map (char_at f) (take i ks)"
    "map (char_at f') (drop i ks) = map (char_at f) (drop i ks)"
    using map_char_at_other [OF _ chars] by (meson in_set_takeD in_set_dropD)+
  moreover have "char_at f' (crdt_key c) = ?v" by (simp add: char_at_def chars)
  ultimately have "text_of f' = take i (text_of f) @ ?v # drop i (text_of f)"
    using flat' ks by (simp add: text_of_def take_map drop_map)
  with f' flat' show ?thesis by blast
qed

lemma deleted_text:
  assumes wf: "wf_file f" and i: "Suc i < length (flat f)"
  shows "\<exists>f' p. removed f (flat f ! Suc i) f' \<and>
    (\<forall>n. remove_crdt f n (flat f ! Suc i) = Some (f', Inr (Some p))) \<and>
    flat f' = take (Suc i) (flat f) @ drop (Suc (Suc i)) (flat f) \<and>
    text_of f' = take i (text_of f) @ drop (Suc i) (text_of f)"
proof -
  let ?k = "flat f ! Suc i"
  obtain ks where ks: "flat f = root # ks" "root \<notin> set ks" using wf_flat_root [OF wf] by blast
  have k: "?k \<in> set ks" using i ks(1) by simp
  then have live: "?k \<in> live_keys (characters f)" "?k \<noteq> root"
    using wf_fileD(4) [OF wf] ks by auto
  from remove_crdt_live [OF wf live] obtain f' p where f': "removed f ?k f'"
    "\<forall>n. remove_crdt f n ?k = Some (f', Inr (Some p))" by blast
  have split: "flat f = take (Suc i) (flat f) @ ?k # drop (Suc (Suc i)) (flat f)"
    using i by (rule id_take_nth_drop)
  have "flat f' = filter (\<lambda>x. x \<noteq> ?k) (flat f)" using f'(1) by (simp add: removed_def)
  also have "\<dots> = take (Suc i) (flat f) @ drop (Suc (Suc i)) (flat f)"
    using wf_fileD(3) [OF wf] by (subst split, subst filter_distinct_split)
      (use split in \<open>metis+\<close>)
  finally have flat': "flat f' = take (Suc i) (flat f) @ drop (Suc (Suc i)) (flat f)" .
  have "char_at f' = char_at f"
  proof
    fix x
    obtain r where "characters f ?k = Some r"
      "characters f' = (characters f)(?k \<mapsto> r\<lparr>cr_deleted := True\<rparr>)"
      using f'(1) unfolding removed_def by blast
    then show "char_at f' x = char_at f x" by (cases "x = ?k") (simp_all add: char_at_def)
  qed
  then have "text_of f' = take i (text_of f) @ drop (Suc i) (text_of f)"
    using flat' ks(1) by (simp add: text_of_def take_map drop_map)
  with f' flat' show ?thesis by blast
qed

end
