(* ===== verification/Samples.thy ===== *)
theory Samples
  imports FileFacts
begin

text \<open>
  A small file on which the properties are tried: the text \<open>a\<close>, a line break, \<open>c\<close>, with a removed
  \<open>b\<close> between the first two. Its codes are 97, 98, 10 and 99.
\<close>

definition sample_chars :: "key \<rightharpoonup> crdt_relation" where
  "sample_chars =
     [root \<mapsto> CrdtRelation_new 0 0 0,
      (1, 0) \<mapsto> CrdtRelation_new 97 0 0,
      (2, 0) \<mapsto> (CrdtRelation_new 98 1 0)\<lparr>cr_deleted := True\<rparr>,
      (3, 0) \<mapsto> CrdtRelation_new 10 2 0,
      (4, 0) \<mapsto> CrdtRelation_new 99 3 0]"

definition sample_file :: shar_file where
  "sample_file =
     \<lparr>file_path = [''/'', ''p'', ''t''], characters = sample_chars,
      projection = [[root, (1, 0)], [(3, 0), (4, 0)]]\<rparr>"

lemma sample_simps [simp]:
  "characters sample_file = sample_chars" "file_path sample_file = [''/'', ''p'', ''t'']"
  "projection sample_file = [[root, (1, 0)], [(3, 0), (4, 0)]]"
  by (simp_all add: sample_file_def)

lemma sample_lookup [simp]:
  "sample_chars root = Some (CrdtRelation_new 0 0 0)"
  "sample_chars (1, 0) = Some (CrdtRelation_new 97 0 0)"
  "sample_chars (2, 0) = Some ((CrdtRelation_new 98 1 0)\<lparr>cr_deleted := True\<rparr>)"
  "sample_chars (3, 0) = Some (CrdtRelation_new 10 2 0)"
  "sample_chars (4, 0) = Some (CrdtRelation_new 99 3 0)"
  by (simp_all add: sample_chars_def)

lemma sample_dom: "dom sample_chars = {root, (1, 0), (2, 0), (3, 0), (4, 0)}"
  by (auto simp: sample_chars_def)

lemma sample_anchored:
  "anchored sample_chars root" "anchored sample_chars (1, 0)" "anchored sample_chars (2, 0)"
  "anchored sample_chars (3, 0)" "anchored sample_chars (4, 0)"
proof -
  note step = anchored_step [of sample_chars]
  show 0: "anchored sample_chars root" by (rule anchored_root) simp
  show 1: "anchored sample_chars (1, 0)" using step [OF sample_lookup(2)] 0 by simp
  show 2: "anchored sample_chars (2, 0)" using step [OF sample_lookup(3)] 1 by simp
  show 3: "anchored sample_chars (3, 0)" using step [OF sample_lookup(4)] 2 by simp
  show "anchored sample_chars (4, 0)" using step [OF sample_lookup(5)] 3 by simp
qed

lemma sample_live: "live_keys sample_chars = {root, (1, 0), (3, 0), (4, 0)}"
  by (auto simp: live_keys_def sample_chars_def CrdtRelation_new_def split: if_splits)

lemma sample_wf: "wf_file sample_file"
proof -
  have "wf_chars sample_chars"
    unfolding wf_chars_def root_ok_def sample_dom using sample_anchored by simp
  moreover have "wf_proj sample_chars [[root, (1, 0)], [(3, 0), (4, 0)]]"
    by (simp add: wf_proj_def sample_live plain_row_def break_row_def is_break_def is_line_break_def)
  ultimately show ?thesis by (simp add: wf_file_def)
qed

lemma sample_hangs: "hangs_from sample_chars (2, 0) (1, 0)"
proof -
  have "hangs_from sample_chars (2, 0)
      (parent_key ((CrdtRelation_new 98 1 0)\<lparr>cr_deleted := True\<rparr>))"
    by (rule hangs_live [of _ _ _ "CrdtRelation_new 97 0 0"]) simp_all
  then show ?thesis by simp
qed

text \<open>Two ordinary characters of two peers below \<open>a\<close>.\<close>

definition x_crdt :: crdt where
  "x_crdt = CRDT_new 5 1 (CrdtRelation_new 120 1 0)"

definition y_crdt :: crdt where
  "y_crdt = CRDT_new 5 2 (CrdtRelation_new 121 1 0)"

lemma sample_insertable: "insertable sample_file x_crdt" "insertable sample_file y_crdt"
  using sample_live by (simp_all add: insertable_def x_crdt_def y_crdt_def)
    (simp_all add: sample_chars_def)

end
