(* ===== verification/FileProperties.thy ===== *)
theory FileProperties
  imports Samples
begin

text \<open>
  The properties of one \<open>SharFile\<close>: what an insertion and a removal do, that they return, that they
  commute, that loading and reading back is the identity. Each property with hypotheses is followed
  by a witness on the file of \<open>Samples\<close>.
\<close>

section \<open>Insertion and removal\<close>

text \<open>
  C11. Inserting a new live character below a live parent returns the position it now has, whatever
  the line hint, keeps the file well-formed, adds exactly this node to the map, and changes the
  reading order as the abstract insertion does: right behind the parent for a line break, else
  behind the siblings of larger id, or of equal id and smaller peer, that directly follow it.
\<close>

theorem add_crdt_refines:
  assumes "wf_file f" "characters f (crdt_key c) = None"
    and "parent_key (crdt_relation c) \<in> live_keys (characters f)"
    and "\<not> cr_deleted (crdt_relation c)"
  shows "\<exists>f' p. (\<forall>n. add_crdt f n c = Some (f', Inr (Some p))) \<and>
    wf_file f' \<and> file_path f' = file_path f \<and>
    characters f' = (characters f)(crdt_key c \<mapsto> crdt_relation c) \<and>
    flat f' = insert_order (characters f) (crdt_key c) (crdt_relation c) (flat f) \<and>
    fst p < length (projection f') \<and> vec_get (projection f' ! fst p) (snd p) = Some (crdt_key c)"
  using add_crdt_live [OF assms] unfolding inserted_def by blast

theorem add_crdt_refines_witness:
  "\<exists>f' p. add_crdt sample_file 7 x_crdt = Some (f', Inr (Some p)) \<and> wf_file f' \<and>
     flat f' = [root, (1, 0), (5, 1), (3, 0), (4, 0)]"
proof -
  from sample_insertable(1) have "characters sample_file (crdt_key x_crdt) = None"
    "parent_key (crdt_relation x_crdt) \<in> live_keys (characters sample_file)"
    "\<not> cr_deleted (crdt_relation x_crdt)" by (simp_all add: insertable_def)
  from add_crdt_refines [OF sample_wf this] show ?thesis
    by (auto simp: insert_order_def x_crdt_def flat_def passes_def is_line_break_def)
qed

text \<open>
  C12. Removing a live character other than the root returns its position, whatever the line hint,
  marks exactly its node as deleted, takes it out of the reading order and nothing else, and keeps
  the file well-formed, a line break's line being merged with the one above.
\<close>

theorem remove_crdt_refines:
  assumes "wf_file f" "k \<in> live_keys (characters f)" "k \<noteq> root"
  shows "\<exists>f' p r. (\<forall>n. remove_crdt f n k = Some (f', Inr (Some p))) \<and>
    wf_file f' \<and> file_path f' = file_path f \<and> characters f k = Some r \<and>
    characters f' = (characters f)(k \<mapsto> r\<lparr>cr_deleted := True\<rparr>) \<and>
    flat f' = filter (\<lambda>x. x \<noteq> k) (flat f) \<and>
    vec_get (projection f ! fst p) (snd p) = Some k"
  using remove_crdt_live [OF assms] unfolding removed_def by blast

theorem remove_crdt_refines_witness:
  "\<exists>f' p. remove_crdt sample_file 9 (3, 0) = Some (f', Inr (Some p)) \<and> wf_file f' \<and>
     flat f' = [root, (1, 0), (4, 0)]"
  using remove_crdt_refines [OF sample_wf, of "(3, 0)"] by (auto simp: sample_live flat_def)

text \<open>
  C23. No call of \<open>add_crdt\<close> on a well-formed file panics or runs for ever: any character, any
  parent, any hint gets an answer. The climb of \<open>find_tombstone\<close> ends and every index is in range.
\<close>

theorem add_crdt_answers:
  assumes "wf_file f"
  shows "\<exists>f' res. add_crdt f n c = Some (f', res)"
  using add_crdt_returns [OF assms, of n c] by auto

theorem add_crdt_answers_witness:
  "\<exists>f' res. add_crdt sample_file 3 (CRDT_new 8 1 (CrdtRelation_new 10 2 0)) = Some (f', res)"
  by (rule add_crdt_answers [OF sample_wf])

text \<open>C24. No call of \<open>remove_crdt\<close> on a well-formed file panics or runs for ever.\<close>

theorem remove_crdt_answers:
  assumes "wf_file f"
  shows "\<exists>f' res. remove_crdt f n k = Some (f', res)"
  using remove_crdt_returns [OF assms, of n k] by auto

theorem remove_crdt_answers_witness: "\<exists>f' res. remove_crdt sample_file 0 (3, 0) = Some (f', res)"
  by (rule remove_crdt_answers [OF sample_wf])

section \<open>Convergence\<close>

text \<open>
  C18. Any number of ordinary characters typed below one live parent may arrive in any order and
  with any line hints: every order runs to the end, and to the same file.
\<close>

theorem siblings_converge:
  assumes "wf_file f" "distinct (map (\<lambda>op. crdt_key (snd op)) ops)"
    and "\<And>op. op \<in> set ops \<Longrightarrow> insertable f (snd op) \<and> parent_key (crdt_relation (snd op)) = par \<and>
        \<not> is_line_break (cr_value (crdt_relation (snd op)))"
    and "mset ops = mset ops'"
  shows "\<exists>g. run_ops add_step ops f = Some g \<and> run_ops add_step ops' f = Some g"
proof -
  have "siblings_ready par f ops" using assms(1-3) by (simp add: siblings_ready_def)
  with siblings.run_perm [OF this assms(4)] siblings.run_returns show ?thesis by metis
qed

theorem siblings_converge_witness:
  "\<exists>g. run_ops add_step [(0, x_crdt), (4, y_crdt)] sample_file = Some g \<and>
       run_ops add_step [(4, y_crdt), (0, x_crdt)] sample_file = Some g"
  by (rule siblings_converge [OF sample_wf, where par = "(1, 0)"])
    (use sample_insertable in \<open>auto simp: x_crdt_def y_crdt_def is_line_break_def\<close>)

text \<open>
  Any removals of known characters but the root, repeated ones included, may arrive in any
  order and with any hints: every order runs to the end, and to the same file.
\<close>

theorem removals_converge:
  assumes "wf_file f" "\<And>op. op \<in> set ops \<Longrightarrow> snd op \<in> dom (characters f) - {root}"
    and "mset ops = mset ops'"
  shows "\<exists>g. run_ops remove_step ops f = Some g \<and> run_ops remove_step ops' f = Some g"
proof -
  have "snd ` set ops \<subseteq> dom (characters f) - {root}" by (rule image_subsetI) (rule assms(2))
  with assms(1) have "removable f ops" unfolding removable_def by (rule conjI)
  with removals.run_perm [OF this assms(3)] removals.run_returns show ?thesis by metis
qed

theorem removals_converge_witness:
  "\<exists>g. run_ops remove_step [(0, (3, 0)), (1, (1, 0)), (5, (3, 0))] sample_file = Some g \<and>
       run_ops remove_step [(5, (3, 0)), (0, (3, 0)), (1, (1, 0))] sample_file = Some g"
  by (rule removals_converge [OF sample_wf]) (auto simp: sample_dom)

text \<open>
  Two insertions below different parents commute when neither goes past the other's parent on
  the way to its slot, line breaks included; below one parent when both are ordinary characters.
\<close>

theorem independent_inserts_commute:
  assumes "wf_file f" "insertable f c" "insertable f d" "crdt_key c \<noteq> crdt_key d"
    and "independent f c d"
  shows "\<exists>h. wf_file h \<and> (\<forall>n m. Option.bind (add_step (n, c) f) (add_step (m, d)) = Some h \<and>
    Option.bind (add_step (m, d) f) (add_step (n, c)) = Some h)"
  by (rule independent_commute [OF assms])

theorem independent_inserts_commute_witness:
  "\<exists>h. Option.bind (add_step (0, x_crdt) sample_file)
         (add_step (1, CRDT_new 5 2 (CrdtRelation_new 10 4 0))) = Some h \<and>
       Option.bind (add_step (1, CRDT_new 5 2 (CrdtRelation_new 10 4 0)) sample_file)
         (add_step (0, x_crdt)) = Some h"
proof -
  let ?d = "CRDT_new 5 2 (CrdtRelation_new 10 4 0)"
  have "insertable sample_file ?d"
    using sample_live by (simp add: insertable_def) (simp add: sample_chars_def)
  moreover have "independent sample_file x_crdt ?d"
    by (simp add: independent_def goes_past_def rest_after_def x_crdt_def flat_def passes_def
        is_line_break_def)
  ultimately show ?thesis
    using independent_inserts_commute [OF sample_wf sample_insertable(1), of ?d]
    by (auto simp: x_crdt_def)
qed

section \<open>The text of a file\<close>

text \<open>
  Typing. A character with an id above every live one (what the queue's counter assigns) appears
  in the text right behind its parent, the \<open>i\<close>-th character in reading order, and the rest of the
  text stays as it is, for ordinary characters and line breaks.
\<close>

theorem typing_inserts_in_text:
  assumes "wf_file f" "insertable f c" "newest f c"
    and "i < length (flat f)" "flat f ! i = parent_key (crdt_relation c)"
  shows "\<exists>f' p. (\<forall>n. add_crdt f n c = Some (f', Inr (Some p))) \<and> wf_file f' \<and>
    text_of f' = take i (text_of f) @ cr_value (crdt_relation c) # drop i (text_of f)"
  using typed_text [OF assms] unfolding inserted_def by blast

theorem typing_inserts_in_text_witness:
  "\<exists>f' p. add_crdt sample_file 1 (CRDT_new 9 3 (CrdtRelation_new 10 1 0)) = Some (f', Inr (Some p)) \<and>
     text_of f' = [97, 10, 10, 99]"
proof -
  let ?c = "CRDT_new 9 3 (CrdtRelation_new 10 1 0)"
  have "insertable sample_file ?c" "newest sample_file ?c"
    using sample_live by (simp_all add: insertable_def newest_def) (simp add: sample_chars_def)
  from typing_inserts_in_text [OF sample_wf this, of 1] show ?thesis
    by (auto simp: flat_def text_of_def char_at_def)
qed

text \<open>
  Deleting the character at index \<open>i\<close> of the text removes exactly this character from the text,
  for ordinary characters and line breaks.
\<close>

theorem removal_deletes_in_text:
  assumes "wf_file f" "Suc i < length (flat f)"
  shows "\<exists>f' p. (\<forall>n. remove_crdt f n (flat f ! Suc i) = Some (f', Inr (Some p))) \<and> wf_file f' \<and>
    text_of f' = take i (text_of f) @ drop (Suc i) (text_of f)"
  using deleted_text [OF assms] unfolding removed_def by blast

theorem removal_deletes_in_text_witness:
  "\<exists>f' p. remove_crdt sample_file 6 (3, 0) = Some (f', Inr (Some p)) \<and> text_of f' = [97, 99]"
  using removal_deletes_in_text [OF sample_wf, of 1]
  by (auto simp: flat_def text_of_def char_at_def)

text \<open>
  C27. Loading. \<open>SharFile::new\<close> on a readable file never panics, numbers its characters from the
  counter on, moves the counter past them, and the loaded file is well-formed and shows the text
  of the file, as long as the 32-bit counter does not overflow.
\<close>

theorem SharFile_new_text:
  assumes "read_to_string p = Inr contents" "unat counter + length contents < 2 ^ 32"
  shows "\<exists>f. SharFile_new read_to_string p counter =
      Some (Inr (f, counter + of_nat (length contents))) \<and> wf_file f \<and> file_path f = p \<and>
    text_of f = contents \<and>
    flat f = root # map (\<lambda>i. (counter + of_nat (Suc i), 0)) [0..<length contents]"
  using SharFile_new_loaded [of read_to_string p contents counter] assms loaded_text [of p counter contents]
  by blast

theorem SharFile_new_text_witness:
  "\<exists>f. SharFile_new (\<lambda>_. Inr [97, 10, 98]) [''/'', ''t''] 5 = Some (Inr (f, 8)) \<and>
     text_of f = [97, 10, 98] \<and> flat f = [root, (6, 0), (7, 0), (8, 0)]"
  using SharFile_new_text [of "\<lambda>_. Inr [97, 10, 98]" "[''/'', ''t'']" "[97, 10, 98]" 5]
  by (auto simp: upt_rec)

text \<open>
  \<open>identities_with_values\<close> on a well-formed file never panics; row by row it lists the live
  characters with their values, and these values in order are the text behind the sentinel.
\<close>

theorem identities_show_text:
  assumes "wf_file f"
  shows "\<exists>rows. identities_with_values f = Some rows \<and> map (map fst) rows = projection f \<and>
    map snd (concat rows) = 0 # text_of f"
proof -
  obtain ks where ks: "flat f = root # ks" using wf_flat_root [OF assms] by blast
  have "characters f root = Some (CrdtRelation_new 0 0 0)"
    by (rule wf_chars_root [OF wf_fileD(1) [OF assms]])
  then have "map (char_at f) (concat (projection f)) = 0 # text_of f"
    using ks by (simp add: flat_def text_of_def char_at_def)
  with identities_eq [OF assms] show ?thesis
    by (simp add: map_concat comp_def)
qed

theorem identities_show_text_witness:
  "\<exists>rows. identities_with_values sample_file = Some rows \<and> map snd (concat rows) = [0, 97, 10, 99]"
  using identities_show_text [OF sample_wf] by (auto simp: text_of_def flat_def char_at_def)

section \<open>Lookup\<close>

text \<open>
  \<open>find_crdt\<close> finds every projected character exactly where it is, from any line hint, in range
  or not: the ring search misses no line.
\<close>

theorem find_crdt_exact:
  assumes "wf_file f" "r < length (projection f)" "c < length (projection f ! r)"
  shows "find_crdt f line_num (projection f ! r ! c) = Some (Inr (r, c))"
proof (cases "projection f ! r ! c = root")
  case False
  then show ?thesis
    using find_crdt_at [OF _ assms(2,3) refl] wf_fileD(3) [OF assms(1)] by (simp add: flat_def)
next
  case True
  obtain cs ls where "projection f = (root # cs) # ls"
    using assms(1) by (auto simp: wf_file_def wf_proj_def)
  then have zero: "0 < length (projection f)" "0 < length (projection f ! 0)"
    "projection f ! 0 ! 0 = root" by simp_all
  have d: "distinct (concat (projection f))" using wf_fileD(3) [OF assms(1)] by (simp add: flat_def)
  have "r = 0"
    using distinct_concat_same_row [OF d assms(2) zero(1), of root] True zero(2,3) assms(3)
    by (metis nth_mem)
  moreover from this have "c = 0"
    using distinct_concat_row [OF d zero(1)] True zero(2,3) assms(3)
    by (metis nth_eq_iff_index_eq)
  ultimately show ?thesis using True by simp
qed

theorem find_crdt_exact_witness: "find_crdt sample_file 40 (4, 0) = Some (Inr (1, 1))"
  using find_crdt_exact [OF sample_wf, of 1 1 40] by simp

text \<open>
  \<open>find_crdt\<close> on a character that is not projected, such as a tombstone, ends with the error
  \<open>OutOfBounds\<close>: the search exhausts both directions.
\<close>

theorem find_crdt_not_projected:
  assumes "wf_file f" "k \<notin> set (flat f)"
  shows "find_crdt f line_num k = Some (Inl (OutOfBounds ''parent cannot be found''))"
proof (rule find_crdt_missing)
  show "projection f \<noteq> []" by (rule wf_fileD(6) [OF assms(1)])
  show "k \<notin> set (concat (projection f))" using assms(2) by (simp only: flat_def not_False_eq_True)
  show "k \<noteq> root" using wf_flat_root [OF assms(1)] assms(2) by auto
qed

theorem find_crdt_not_projected_witness:
  "find_crdt sample_file 1 (2, 0) = Some (Inl (OutOfBounds ''parent cannot be found''))"
  by (rule find_crdt_not_projected [OF sample_wf]) (simp add: flat_def)

section \<open>Errors and repeated operations\<close>

text \<open>
  C32. On a well-formed file \<open>add_crdt\<close> fails exactly when the parent was never inserted, with the
  error the queue backlogs on, and then the file is unchanged.
\<close>

theorem add_crdt_fails_iff:
  assumes "wf_file f"
  shows "add_crdt f n c = Some (f', Inl e) \<longleftrightarrow>
    characters f (parent_key (crdt_relation c)) = None \<and> f' = f \<and>
    e = Generic ''Parent does not exist''"
  by (rule add_crdt_error_iff [OF assms])

theorem add_crdt_fails_iff_witness:
  "add_crdt sample_file 0 (CRDT_new 9 1 (CrdtRelation_new 97 7 7)) =
     Some (sample_file, Inl (Generic ''Parent does not exist''))"
  by (subst add_crdt_fails_iff [OF sample_wf]) (simp add: sample_chars_def)

text \<open>
  On a well-formed file \<open>remove_crdt\<close> fails exactly when the character was never inserted, and
  then the file is unchanged.
\<close>

theorem remove_crdt_fails_iff:
  assumes "wf_file f"
  shows "remove_crdt f n k = Some (f', Inl e) \<longleftrightarrow>
    characters f k = None \<and> f' = f \<and> e = Generic ''crdt cannot be found''"
  by (rule remove_crdt_error_iff [OF assms])

theorem remove_crdt_fails_iff_witness:
  "remove_crdt sample_file 0 (8, 8) = Some (sample_file, Inl (Generic ''crdt cannot be found''))"
  by (subst remove_crdt_fails_iff [OF sample_wf]) (simp add: sample_chars_def)

text \<open>
  A redelivered insertion is a no-op: after any insertion that returned a position, on any file
  whatever, the same character with any hint returns \<open>Ok(None)\<close> and leaves the file as it is.
\<close>

theorem add_crdt_redelivered:
  assumes "add_crdt f n c = Some (f', Inr (Some p))"
  shows "add_crdt f' m c = Some (f', Inr None)"
proof (rule add_crdt_duplicate)
  from add_crdt_characters [OF assms]
  show "characters f' (parent_key (crdt_relation c)) \<noteq> None" "characters f' (crdt_key c) \<noteq> None"
    by auto
qed

theorem add_crdt_redelivered_witness:
  "\<exists>f' p. add_crdt sample_file 1 x_crdt = Some (f', Inr (Some p)) \<and>
     add_crdt f' 8 x_crdt = Some (f', Inr None)"
proof -
  from add_crdt_live [OF sample_wf] sample_insertable(1) obtain f' p where
    "add_crdt sample_file 1 x_crdt = Some (f', Inr (Some p))" by (force simp: insertable_def)
  with add_crdt_redelivered [OF this, of 8] show ?thesis by blast
qed

text \<open>
  A redelivered removal is a no-op: after any removal that returned \<open>Ok\<close>, on any file whatever,
  the same removal with any hint returns \<open>Ok(None)\<close> and leaves the file as it is.
\<close>

theorem remove_crdt_redelivered:
  assumes "remove_crdt f n k = Some (f', Inr q)"
  shows "remove_crdt f' m k = Some (f', Inr None)"
proof (cases "characters f k")
  case None
  then show ?thesis using assms by (simp add: remove_crdt_unknown)
next
  case (Some r)
  then show ?thesis
    using remove_crdt_characters [OF assms] by (simp add: mark_deleted_def remove_crdt_again)
qed

theorem remove_crdt_redelivered_witness:
  "\<exists>f' p. remove_crdt sample_file 1 (1, 0) = Some (f', Inr (Some p)) \<and>
     remove_crdt f' 8 (1, 0) = Some (f', Inr None)"
proof -
  from remove_crdt_live [OF sample_wf, of "(1, 0)"] obtain f' p where
    "remove_crdt sample_file 1 (1, 0) = Some (f', Inr (Some p))" by (force simp: sample_live)
  with remove_crdt_redelivered [OF this, of 8] show ?thesis by blast
qed

section \<open>Tombstones and runs\<close>

text \<open>
  C31. An ordinary character below a tombstone whose first live ancestor is a character of the file,
  not the sentinel, is inserted whatever the hint. It goes exactly where it would if every removed
  ancestor, from the one below the live ancestor down, and then the character itself were inserted in
  turn: each past those siblings behind which it belongs, and no further, which is one place. The rest of the order is
  unchanged and the file stays well-formed. A line break is not covered, nor is a character whose
  ancestors are all removed up to the sentinel.
\<close>

theorem add_below_tombstone:
  assumes "wf_file f" "characters f (crdt_key c) = None"
    and "characters f (parent_key (crdt_relation c)) = Some p" "cr_deleted p"
    and "hangs_from (characters f) (parent_key (crdt_relation c)) a" "a \<noteq> root"
    and "\<not> is_line_break (cr_value (crdt_relation c))" "\<not> cr_deleted (crdt_relation c)"
  shows "\<exists>f' q us vs. (\<forall>n. add_crdt f n c = Some (f', Inr (Some q))) \<and> wf_file f' \<and>
    climbs (characters f) (flat f) (parent_key (crdt_relation c)) (us, vs) \<and>
    (\<forall>s. climbs (characters f) (flat f) (parent_key (crdt_relation c)) s \<longrightarrow> s = (us, vs)) \<and>
    flat f = us @ vs \<and> a \<in> set us \<and>
    flat f' = us @ place_among (passes (characters f) (parent_key (crdt_relation c)) (crdt_key c)) (crdt_key c) vs \<and>
    vec_get (projection f' ! fst q) (snd q) = Some (crdt_key c)"
proof -
  have "distinct (flat f)" using wf_fileD(3) [OF assms(1)] by simp
  note only = climbs_unique [OF this]
  obtain f' q us vs where q: "\<And>n. add_crdt f n c = Some (f', Inr (Some q))" "wf_file f'"
    "climbs (characters f) (flat f) (parent_key (crdt_relation c)) (us, vs)" "a \<in> set us"
    "flat f' = us @ place_among (passes (characters f) (parent_key (crdt_relation c)) (crdt_key c)) (crdt_key c) vs"
    "vec_get (projection f' ! fst q) (snd q) = Some (crdt_key c)" using add_crdt_tombstone [OF assms] by blast
  have "flat f = us @ vs" using climbs_split [OF q(3)] by simp
  then show ?thesis
    by (intro exI [of _ f'] exI [of _ q] exI [of _ us] exI [of _ vs] conjI allI impI q only [OF _ q(3)])
qed

theorem add_below_tombstone_witness:
  "\<exists>f' q us vs. add_crdt sample_file 1 (CRDT_new 9 3 (CrdtRelation_new 122 2 0)) =
       Some (f', Inr (Some q)) \<and>
     flat sample_file = us @ vs \<and> (1, 0) \<in> set us \<and>
     flat f' = us @ place_among (passes (characters sample_file) (2, 0) (9, 3)) (9, 3) vs"
proof -
  let ?c = "CRDT_new 9 3 (CrdtRelation_new 122 2 0)"
  have "characters sample_file (crdt_key ?c) = None" by (simp add: sample_chars_def)
  from add_below_tombstone [OF sample_wf this, of _ "(1, 0)"] sample_hangs obtain f' q us vs where
    "\<forall>n. add_crdt sample_file n ?c = Some (f', Inr (Some q))" "flat sample_file = us @ vs" "(1, 0) \<in> set us"
    "flat f' = us @ place_among (passes (characters sample_file) (2, 0) (9, 3)) (9, 3) vs"
    by (auto simp: is_line_break_def simp del: split_paired_All)
  then show ?thesis by blast
qed

text \<open>
  C21. Every file reached from a well-formed one by admissible insertions (below live parents, or
  ordinary characters below tombstones that hang from a character of the file) and removals other
  than the root's, in any number and order and with any hints, is well-formed.
\<close>

theorem runs_keep_wellformed:
  assumes "file_run f g" "wf_file f"
  shows "wf_file g"
  by (rule file_run_wf [OF assms])

theorem runs_keep_wellformed_witness:
  "\<exists>f' q. remove_crdt sample_file 0 (4, 0) = Some (f', q) \<and> wf_file f'"
proof -
  obtain f' q where r: "remove_crdt sample_file 0 (4, 0) = Some (f', q)"
    using remove_crdt_returns [OF sample_wf] by fastforce
  have "file_run sample_file f'"
    by (rule run_step [OF run_start step_remove [OF _ r]]) simp
  from runs_keep_wellformed [OF this sample_wf] r show ?thesis by blast
qed

text \<open>
  C22. No run forgets a character: its value and its parent stay what they are, and a tombstone
  stays a tombstone.
\<close>

theorem runs_keep_characters:
  assumes "file_run f g" "characters f k = Some r"
  shows "\<exists>s. characters g k = Some s \<and> cr_value s = cr_value r \<and> parent_key s = parent_key r \<and>
    (cr_deleted r \<longrightarrow> cr_deleted s)"
  using file_run_keeps [OF assms] unfolding node_kept_def .

theorem runs_keep_characters_witness:
  "\<exists>f' q s. remove_crdt sample_file 0 (4, 0) = Some (f', q) \<and> characters f' (2, 0) = Some s \<and>
     cr_deleted s"
proof -
  obtain f' q where r: "remove_crdt sample_file 0 (4, 0) = Some (f', q)"
    using remove_crdt_returns [OF sample_wf] by fastforce
  have run: "file_run sample_file f'"
    by (rule run_step [OF run_start step_remove [OF _ r]]) simp
  from runs_keep_characters [OF run, of "(2, 0)"] r show ?thesis by auto
qed

text \<open>
  \<open>predecessor_identity\<close>, which the queue sends to the IDE in place of the parent, is the
  element before a position in reading order on every well-formed file, across line ends too, and
  nothing at the very start.
\<close>

theorem predecessor_is_previous:
  assumes "wf_file f" "fst p < length (projection f)"
    and "vec_get (projection f ! fst p) (snd p) = Some k" "flat f = us @ k # vs"
  shows "predecessor_identity f p = (if us = [] then None else Some (last us))"
  by (rule predecessor_identity_flat [OF assms])

theorem predecessor_is_previous_witness: "predecessor_identity sample_file (1, 0) = Some (1, 0)"
  using predecessor_is_previous [OF sample_wf, of "(1, 0)" "(3, 0)" "[root, (1, 0)]" "[(4, 0)]"]
  by (simp add: vec_get_def flat_def)

end
