(* ===== verification/SharDirectory.thy ===== *)
theory SharDirectory
  imports SharFile
begin

text \<open>
  \<open>SharDirectory\<close> of \<open>src/shar/core/tree.rs\<close>: the files of a shar as the tree of its directories,
  the routing of an operation to a file by its path, and the operations themselves. The mutable
  reference that \<open>find_file\<close> returns is the location of the file: the indices of the directories on
  the way and of the file in the last one.
\<close>

datatype shar_directory =
  SharDirectory (dir_name: path) (sub_dir: "shar_directory list") (sub_files: "shar_file list")

type_synonym location = "nat list \<times> nat"

section \<open>Loading\<close>

text \<open>
  The file system below a path, as \<open>read_dir\<close> shows it: a directory cannot be read, or is a list of
  entries; an entry cannot be read, has no readable type, is a directory, a file (with the result of
  \<open>read_to_string\<close>) or something else, such as a symbolic link.
\<close>

datatype fs_dir =
    Unreadable string
  | Listing "fs_entry list"
and fs_entry =
    Entry_error string
  | Type_error string
  | Dir_entry string fs_dir
  | File_entry string "string + uchar list"
  | Other_entry string

definition read_error :: "string \<Rightarrow> string \<Rightarrow> error" where
  "read_error what e = ReadFail (what @ '': '' @ [CHR 0x0A] @ '' '' @ e @ '' '' @ [CHR 0x0A])"

text \<open>
  \<open>SharDirectory::new\<close> and its loop over the entries, with the two vectors it fills. The counter is
  shared: it is returned along with the result, an error included.
\<close>

fun SharDirectory_new :: "path \<Rightarrow> fs_dir \<Rightarrow> u32 \<Rightarrow> ((error + shar_directory) \<times> u32) option"
  and load_entries ::
    "path \<Rightarrow> fs_entry list \<Rightarrow> u32 \<Rightarrow> shar_directory list \<Rightarrow> shar_file list \<Rightarrow>
      ((error + shar_directory) \<times> u32) option"
where
  "SharDirectory_new dir_path (Unreadable e) counter =
     Some (Inl (read_error ''Failed to read directory, try again'' e), counter)"
| "SharDirectory_new dir_path (Listing es) counter = load_entries dir_path es counter [] []"
| "load_entries dir_path [] counter ds fs = Some (Inr (SharDirectory dir_path ds fs), counter)"
| "load_entries dir_path (Entry_error e # es) counter ds fs =
     Some (Inl (read_error ''Failed to read directory entry'' e), counter)"
| "load_entries dir_path (Type_error e # es) counter ds fs =
     Some (Inl (read_error ''Failed to read entry type'' e), counter)"
| "load_entries dir_path (Dir_entry name sub # es) counter ds fs =
     (case SharDirectory_new (dir_path @ [name]) sub counter of
        None \<Rightarrow> None
      | Some (Inl e, counter') \<Rightarrow> Some (Inl e, counter')
      | Some (Inr d, counter') \<Rightarrow> load_entries dir_path es counter' (ds @ [d]) fs)"
| "load_entries dir_path (File_entry name contents # es) counter ds fs =
     (case SharFile_new (\<lambda>_. contents) (dir_path @ [name]) counter of
        None \<Rightarrow> None
      | Some (Inl e) \<Rightarrow> Some (Inl e, counter)
      | Some (Inr (f, counter')) \<Rightarrow> load_entries dir_path es counter' ds (fs @ [f]))"
| "load_entries dir_path (Other_entry name # es) counter ds fs =
     load_entries dir_path es counter ds fs"

section \<open>Routing\<close>

text \<open>The components behind the first occurrence of a name.\<close>

fun behind :: "string \<Rightarrow> path \<Rightarrow> path option" where
  "behind name [] = None"
| "behind name (c # cs) = (if c = name then Some cs else behind name cs)"

text \<open>The first file of a vector whose path ends with a name.\<close>

fun file_named :: "shar_file list \<Rightarrow> string \<Rightarrow> nat option" where
  "file_named [] next = None"
| "file_named (f # fs) next =
     (if ends_with (file_path f) next then Some 0 else map_option Suc (file_named fs next))"

text \<open>
  \<open>find_file\<close>, with the loop over the subdirectories: the first one of the right name is taken, and
  the whole path passed on.
\<close>

fun find_file :: "shar_directory \<Rightarrow> path \<Rightarrow> location option"
  and find_in_dirs :: "shar_directory list \<Rightarrow> string \<Rightarrow> path \<Rightarrow> location option"
where
  "find_file (SharDirectory name ds fs) p =
     (if ds = [] \<and> fs = [] then None
      else case file_name name of
          None \<Rightarrow> None
        | Some this_dir_name \<Rightarrow>
            (case behind this_dir_name p of
               None \<Rightarrow> None
             | Some [] \<Rightarrow> None
             | Some (next # rest) \<Rightarrow>
                 if rest = [] then map_option (\<lambda>i. ([], i)) (file_named fs next)
                 else find_in_dirs ds next p))"
| "find_in_dirs [] next p = None"
| "find_in_dirs (d # ds) next p =
     (if ends_with (dir_name d) next
      then map_option (\<lambda>(is, j). (0 # is, j)) (find_file d p)
      else map_option (\<lambda>(is, j). (case is of [] \<Rightarrow> ([], j) | i # is' \<Rightarrow> (Suc i # is', j)))
             (find_in_dirs ds next p))"

declare find_file.simps [simp del]

text \<open>Reading and writing the file at a location.\<close>

fun file_at :: "shar_directory \<Rightarrow> nat list \<Rightarrow> nat \<Rightarrow> shar_file option" where
  "file_at d [] j = vec_get (sub_files d) j"
| "file_at d (i # is) j =
     (case vec_get (sub_dir d) i of None \<Rightarrow> None | Some d' \<Rightarrow> file_at d' is j)"

fun put_file :: "shar_directory \<Rightarrow> nat list \<Rightarrow> nat \<Rightarrow> shar_file \<Rightarrow> shar_directory" where
  "put_file d [] j f = SharDirectory (dir_name d) (sub_dir d) ((sub_files d)[j := f])"
| "put_file d (i # is) j f =
     SharDirectory (dir_name d)
       (if i < length (sub_dir d)
        then (sub_dir d)[i := put_file (sub_dir d ! i) is j f] else sub_dir d)
       (sub_files d)"

section \<open>Operations\<close>

text \<open>A call on the file that a path routes to, which may change it.\<close>

definition on_file ::
  "shar_directory \<Rightarrow> path \<Rightarrow> (shar_file \<Rightarrow> (shar_file \<times> (error + 'a)) option) \<Rightarrow>
     (shar_directory \<times> (error + 'a)) option"
where
  "on_file d p call =
     (case find_file d p of
        None \<Rightarrow> Some (d, Inl (Generic ''File not found''))
      | Some (is, j) \<Rightarrow>
          (case file_at d is j of
             None \<Rightarrow> None
           | Some f \<Rightarrow>
               (case call f of
                  None \<Rightarrow> None
                | Some (f', res) \<Rightarrow> Some (put_file d is j f', res))))"

definition dir_add_crdt ::
  "shar_directory \<Rightarrow> path \<Rightarrow> nat \<Rightarrow> crdt \<Rightarrow> (shar_directory \<times> (error + pos option)) option"
where
  "dir_add_crdt d p line_num c = on_file d p (\<lambda>f. add_crdt f line_num c)"

definition dir_remove_crdt ::
  "shar_directory \<Rightarrow> path \<Rightarrow> nat \<Rightarrow> key \<Rightarrow> (shar_directory \<times> (error + pos option)) option"
where
  "dir_remove_crdt d p line_num k = on_file d p (\<lambda>f. remove_crdt f line_num k)"

definition dir_get_id_peer :: "shar_directory \<Rightarrow> path \<Rightarrow> pos \<Rightarrow> (error + key option) option" where
  "dir_get_id_peer d p q =
     map_option snd (on_file d p (\<lambda>f. map_option (\<lambda>r. (f, Inr r)) (get_id_peer f q)))"

definition dir_predecessor_identity ::
  "shar_directory \<Rightarrow> path \<Rightarrow> pos \<Rightarrow> (error + key option) option"
where
  "dir_predecessor_identity d p q =
     map_option snd (on_file d p (\<lambda>f. Some (f, Inr (predecessor_identity f q))))"

text \<open>The two listings: the files of the directory first, then those of its subdirectories.\<close>

fun files_identities :: "shar_file list \<Rightarrow> (path \<times> (key \<times> uchar) list list) list option" where
  "files_identities [] = Some []"
| "files_identities (f # fs) =
     Option.bind (identities_with_values f)
       (\<lambda>rows. map_option (\<lambda>xs. (file_path f, rows) # xs) (files_identities fs))"

fun dir_identities :: "shar_directory \<Rightarrow> (path \<times> (key \<times> uchar) list list) list option"
  and dirs_identities :: "shar_directory list \<Rightarrow> (path \<times> (key \<times> uchar) list list) list option"
where
  "dir_identities (SharDirectory name ds fs) =
     Option.bind (files_identities fs) (\<lambda>xs. map_option (\<lambda>ys. xs @ ys) (dirs_identities ds))"
| "dirs_identities [] = Some []"
| "dirs_identities (d # ds) =
     Option.bind (dir_identities d) (\<lambda>xs. map_option (\<lambda>ys. xs @ ys) (dirs_identities ds))"

fun dir_full_state :: "shar_directory \<Rightarrow> (path \<times> (key \<rightharpoonup> crdt_relation)) list"
  and dirs_full_state :: "shar_directory list \<Rightarrow> (path \<times> (key \<rightharpoonup> crdt_relation)) list"
where
  "dir_full_state (SharDirectory name ds fs) =
     map (\<lambda>f. (file_path f, full_state f)) fs @ dirs_full_state ds"
| "dirs_full_state [] = []"
| "dirs_full_state (d # ds) = dir_full_state d @ dirs_full_state ds"

end
