(* ===== verification/Backlog.thy ===== *)
theory Backlog
  imports Prelude
begin

text \<open>
  The backlogs of the queue: a \<open>HashMap\<close> from what operations wait for to the \<open>Vec\<close> of the
  operations, as an association list, with the two accesses of the source:
  \<open>entry(k).or_insert_with(Vec::new).push(x)\<close> and \<open>remove(k)\<close>. The interface \<open>waiting_room\<close> states
  what the queue relies on.
\<close>

type_synonym ('k, 'x) backlog = "('k \<times> 'x list) list"

fun bl_push :: "'k \<Rightarrow> 'x \<Rightarrow> ('k, 'x) backlog \<Rightarrow> ('k, 'x) backlog" where
  "bl_push k x [] = [(k, [x])]"
| "bl_push k x ((l, xs) # b) = (if l = k then (l, xs @ [x]) # b else (l, xs) # bl_push k x b)"

text \<open>The entry of a key, empty when there is none, and the map without it.\<close>

definition bl_get :: "('k, 'x) backlog \<Rightarrow> 'k \<Rightarrow> 'x list" where
  "bl_get b k = (case map_of b k of None \<Rightarrow> [] | Some xs \<Rightarrow> xs)"

definition bl_remove :: "'k \<Rightarrow> ('k, 'x) backlog \<Rightarrow> ('k, 'x) backlog" where
  "bl_remove k b = filter (\<lambda>e. fst e \<noteq> k) b"

fun bl_size :: "('k, 'x) backlog \<Rightarrow> nat" where
  "bl_size [] = 0"
| "bl_size ((k, xs) # b) = length xs + bl_size b"

section \<open>The interface\<close>

text \<open>
  Operations wait under keys: what was pushed under a key is got back under it in order, nothing
  else moves, and the number of waiting operations is counted.
\<close>

locale waiting_room =
  fixes push :: "'k \<Rightarrow> 'x \<Rightarrow> 'b \<Rightarrow> 'b"
    and get :: "'b \<Rightarrow> 'k \<Rightarrow> 'x list"
    and take_out :: "'k \<Rightarrow> 'b \<Rightarrow> 'b"
    and count :: "'b \<Rightarrow> nat"
  assumes get_push: "get (push k x b) l = (if l = k then get b k @ [x] else get b l)"
    and get_take_out: "get (take_out k b) l = (if l = k then [] else get b l)"
    and count_push: "count (push k x b) = Suc (count b)"
    and count_take_out: "count (take_out k b) + length (get b k) \<le> count b"
begin

definition waiting :: "'b \<Rightarrow> 'x \<Rightarrow> bool" where
  "waiting b x \<longleftrightarrow> (\<exists>k. x \<in> set (get b k))"

lemma waiting_push: "waiting (push k x b) y \<longleftrightarrow> y = x \<or> waiting b y"
  unfolding waiting_def get_push by auto

lemma waiting_take_out: "waiting b x \<longleftrightarrow> waiting (take_out k b) x \<or> x \<in> set (get b k)"
  unfolding waiting_def get_take_out by auto

text \<open>Moving an entry to the end of a list of \<open>n\<close> items does not make them more in all.\<close>

lemma move_count: "count (take_out k b) + (n + length (get b k)) \<le> count b + n"
  using count_take_out [of k b] by simp

text \<open>Every entry meets a condition on its key: kept by the two accesses.\<close>

definition sorted_by :: "('k \<Rightarrow> 'x \<Rightarrow> bool) \<Rightarrow> 'b \<Rightarrow> bool" where
  "sorted_by P b \<longleftrightarrow> (\<forall>k. \<forall>x \<in> set (get b k). P k x)"

lemma sorted_by_push: "sorted_by P b \<Longrightarrow> P k x \<Longrightarrow> sorted_by P (push k x b)"
  unfolding sorted_by_def get_push by auto

lemma sorted_by_take_out: "sorted_by P b \<Longrightarrow> sorted_by P (take_out k b)"
  unfolding sorted_by_def get_take_out by auto

lemma sorted_by_got: "sorted_by P b \<Longrightarrow> x \<in> set (get b k) \<Longrightarrow> P k x"
  unfolding sorted_by_def by auto

lemma sorted_by_mono: "sorted_by P b \<Longrightarrow> (\<And>k x. x \<in> set (get b k) \<Longrightarrow> P k x \<Longrightarrow> Q k x) \<Longrightarrow> sorted_by Q b"
  unfolding sorted_by_def by blast

end

lemma bl_get_push: "bl_get (bl_push k x b) l = (if l = k then bl_get b k @ [x] else bl_get b l)"
  by (induction k x b rule: bl_push.induct) (auto simp: bl_get_def)

lemma bl_get_remove: "bl_get (bl_remove k b) l = (if l = k then [] else bl_get b l)"
  unfolding bl_remove_def by (induction b) (auto simp: bl_get_def)

lemma bl_size_push: "bl_size (bl_push k x b) = Suc (bl_size b)"
  by (induction k x b rule: bl_push.induct) auto

lemma bl_remove_none: "map_of b k = None \<Longrightarrow> bl_remove k b = b"
  by (induction b) (auto simp: bl_remove_def split: if_splits)

lemma bl_size_remove_le: "bl_size (bl_remove k b) \<le> bl_size b"
  unfolding bl_remove_def by (induction b rule: bl_size.induct) auto

lemma bl_size_remove: "bl_size (bl_remove k b) + length (bl_get b k) \<le> bl_size b"
proof (induction b rule: bl_size.induct)
  case (2 l xs b)
  then show ?case using bl_size_remove_le [of k b] by (auto simp: bl_get_def bl_remove_def)
qed (simp add: bl_get_def bl_remove_def)

interpretation bl: waiting_room bl_push bl_get bl_remove bl_size
  by unfold_locales (simp_all add: bl_get_push bl_get_remove bl_size_push bl_size_remove)

end
