(* ===== verification/SharQueue.thy ===== *)
theory SharQueue
  imports SharDirectory Backlog
begin

text \<open>
  \<open>SharQueue\<close> of \<open>src/shar/core/queue.rs\<close>: the operations of the IDE and of the network on the
  tree, the backlogs of operations that wait for another one, and the loops that retry them. An
  \<open>await\<close> on a callback is an event appended to a log; a callback that was never set is the panic
  of its \<open>unwrap\<close>. The methods borrow the queue mutably, so no two of them interleave.
\<close>

datatype event =
    Network_added network_add
  | Network_removed remove
  | Ide_add_confirmed ide_add_confirmed
  | Ide_added network_add network_add
  | Ide_removed remove

record shar_queue =
  ide_backlog :: "(key, ide_add) backlog"
  ide_tag_backlog :: "(u32, ide_add) backlog"
  network_backlog :: "(key, network_op) backlog"
  ide_worklist :: "ide_add list"
  network_worklist :: "network_op list"
  tag_identities :: "u32 \<rightharpoonup> key"
  peer :: u32
  tree :: shar_directory
  counter :: u32
  network_add_callback :: bool
  network_remove_callback :: bool
  ide_add_confirm_callback :: bool
  ide_add_callback :: bool
  ide_remove_callback :: bool
  events :: "event list"

text \<open>
  \<open>SharQueue::new\<close> on what the file system shows below the path, with all callbacks set, and
  \<open>SharQueue::default()\<close>, with none.
\<close>

definition queue_of :: "shar_directory \<Rightarrow> u32 \<Rightarrow> u32 \<Rightarrow> shar_queue" where
  "queue_of d c this_peer_id =
     \<lparr>ide_backlog = [], ide_tag_backlog = [], network_backlog = [], ide_worklist = [],
      network_worklist = [], tag_identities = Map.empty, peer = this_peer_id, tree = d,
      counter = c, network_add_callback = True, network_remove_callback = True,
      ide_add_confirm_callback = True, ide_add_callback = True, ide_remove_callback = True,
      events = []\<rparr>"

definition SharQueue_new :: "path \<Rightarrow> fs_dir \<Rightarrow> u32 \<Rightarrow> (error + shar_queue) option" where
  "SharQueue_new dir_path listing this_peer_id =
     (case SharDirectory_new dir_path listing 0 of
        None \<Rightarrow> None
      | Some (Inl e, c) \<Rightarrow> Some (Inl e)
      | Some (Inr d, c) \<Rightarrow> Some (Inr (queue_of d c this_peer_id)))"

definition SharQueue_default :: shar_queue where
  "SharQueue_default =
     (queue_of (SharDirectory [] [] []) 0 0)
       \<lparr>network_add_callback := False, network_remove_callback := False,
        ide_add_confirm_callback := False, ide_add_callback := False,
        ide_remove_callback := False\<rparr>"

section \<open>Paths\<close>

definition tree_root :: "shar_queue \<Rightarrow> path" where
  "tree_root q = dir_name (tree q)"

definition to_relative_path :: "shar_queue \<Rightarrow> path \<Rightarrow> path" where
  "to_relative_path q p = (case strip_prefix p (tree_root q) of Some r \<Rightarrow> r | None \<Rightarrow> p)"

definition to_local_path :: "shar_queue \<Rightarrow> path \<Rightarrow> path" where
  "to_local_path q p = join (tree_root q) p"

definition queue_identities :: "shar_queue \<Rightarrow> (path \<times> (key \<times> uchar) list list) list option" where
  "queue_identities q = dir_identities (tree q)"

definition queue_full_state :: "shar_queue \<Rightarrow> (path \<times> (key \<rightharpoonup> crdt_relation)) list" where
  "queue_full_state q = map (\<lambda>(p, chars). (to_relative_path q p, chars)) (dir_full_state (tree q))"

section \<open>Callbacks\<close>

definition fire :: "(shar_queue \<Rightarrow> bool) \<Rightarrow> event \<Rightarrow> shar_queue \<Rightarrow> shar_queue option" where
  "fire callback e q = (if callback q then Some (q\<lparr>events := events q @ [e]\<rparr>) else None)"

section \<open>Removals\<close>

text \<open>
  \<open>remove_operation\<close>: the position when something was removed. A removal that fails waits in the
  network backlog, whoever asked for it.
\<close>

definition remove_operation :: "remove \<Rightarrow> shar_queue \<Rightarrow> (shar_queue \<times> pos option) option" where
  "remove_operation op q =
     (if rm_key op = root then Some (q, None)
      else case dir_remove_crdt (tree q) (rm_file_path op) (rm_row op) (rm_key op) of
          None \<Rightarrow> None
        | Some (t, Inr val) \<Rightarrow> Some (q\<lparr>tree := t\<rparr>, val)
        | Some (t, Inl e) \<Rightarrow>
            Some (q\<lparr>tree := t,
                    network_backlog := bl_push (rm_key op) (REMOVE op) (network_backlog q)\<rparr>, None))"

definition remove_ide_operation :: "remove \<Rightarrow> shar_queue \<Rightarrow> shar_queue option" where
  "remove_ide_operation op q =
     (case remove_operation op q of
        None \<Rightarrow> None
      | Some (q', None) \<Rightarrow> Some q'
      | Some (q', Some _) \<Rightarrow>
          fire ide_remove_callback
            (Ide_removed (op\<lparr>rm_file_path := to_relative_path q' (rm_file_path op)\<rparr>)) q')"

definition remove_network_operation :: "remove \<Rightarrow> shar_queue \<Rightarrow> shar_queue option" where
  "remove_network_operation op q =
     (let op' = op\<lparr>rm_file_path := to_local_path q (rm_file_path op)\<rparr> in
      case remove_operation op' q of
        None \<Rightarrow> None
      | Some (q', None) \<Rightarrow> Some q'
      | Some (q', Some _) \<Rightarrow> fire network_remove_callback (Network_removed op') q')"

section \<open>Network insertions\<close>

text \<open>
  \<open>add_network_operation_inner\<close> up to the retry of the operations that waited: the identity whose
  dependants can go on, when the character was inserted. The IDE is told the predecessor in
  reading order in place of the parent.
\<close>

definition with_parent :: "crdt \<Rightarrow> key \<Rightarrow> crdt" where
  "with_parent c k =
     c\<lparr>crdt_relation := (crdt_relation c)\<lparr>cr_parent_id := fst k, cr_parent_peer := snd k\<rparr>\<rparr>"

definition network_insert :: "network_add \<Rightarrow> shar_queue \<Rightarrow> (shar_queue \<times> key option) option" where
  "network_insert op0 q0 =
     (let op = op0\<lparr>na_file_path := to_local_path q0 (na_file_path op0)\<rparr>;
          c = na_crdt op;
          q = q0\<lparr>counter := max (counter q0) (crdt_id c)\<rparr> in
      if crdt_key c = root then Some (q, None)
      else case dir_add_crdt (tree q) (na_file_path op) (na_row op) c of
          None \<Rightarrow> None
        | Some (t, Inr None) \<Rightarrow> Some (q\<lparr>tree := t\<rparr>, None)
        | Some (t, Inr (Some position)) \<Rightarrow>
            (case dir_predecessor_identity t (na_file_path op) position of
               None \<Rightarrow> None
             | Some pred \<Rightarrow>
                 let op' = (case pred of
                     Inr (Some k) \<Rightarrow> op\<lparr>na_crdt := with_parent c k\<rparr>
                   | _ \<Rightarrow> op)
                 in map_option (\<lambda>q'. (q', Some (crdt_key c)))
                      (fire network_add_callback (Network_added op') (q\<lparr>tree := t\<rparr>)))
        | Some (t, Inl e) \<Rightarrow>
            Some (q\<lparr>tree := t,
                    network_backlog :=
                      bl_push (parent_key (crdt_relation c)) (ADD op) (network_backlog q)\<rparr>, None))"

text \<open>Moving the operations that wait for an identity to the worklist.\<close>

definition queue_dependants :: "key \<Rightarrow> shar_queue \<Rightarrow> shar_queue" where
  "queue_dependants k q =
     q\<lparr>network_worklist := network_worklist q @ bl_get (network_backlog q) k,
       network_backlog := bl_remove k (network_backlog q)\<rparr>"

text \<open>One item of the loop: an insertion with \<open>clearing_worklist\<close> true, or a removal.\<close>

definition network_item :: "network_op \<Rightarrow> shar_queue \<Rightarrow> shar_queue option" where
  "network_item item q =
     (case item of
        ADD op \<Rightarrow>
          (case network_insert op q of
             None \<Rightarrow> None
           | Some (q', None) \<Rightarrow> Some q'
           | Some (q', Some k) \<Rightarrow> Some (queue_dependants k q'))
      | REMOVE op \<Rightarrow> remove_network_operation op q)"

text \<open>How many operations wait or are to be retried.\<close>

definition network_pending :: "shar_queue \<Rightarrow> nat" where
  "network_pending q = bl_size (network_backlog q) + length (network_worklist q)"

lemma fire_Some:
  "fire cb e q = Some q' \<longleftrightarrow> cb q \<and> q' = q\<lparr>events := events q @ [e]\<rparr>"
  by (auto simp: fire_def)

lemma remove_operation_pending:
  "remove_operation op q = Some (q', r) \<Longrightarrow>
     network_worklist q' = network_worklist q \<and>
     (network_backlog q' = network_backlog q \<or>
      network_backlog q' = bl_push (rm_key op) (REMOVE op) (network_backlog q))"
  by (auto simp: remove_operation_def split: if_splits option.splits sum.splits)

lemma network_insert_pending:
  "network_insert op q = Some (q', r) \<Longrightarrow>
     network_worklist q' = network_worklist q \<and>
     (network_backlog q' = network_backlog q \<or>
      r = None \<and> bl_size (network_backlog q') = Suc (bl_size (network_backlog q)))"
  by (auto simp: network_insert_def Let_def fire_Some bl_size_push
      split: if_splits option.splits sum.splits prod.splits)

lemma network_item_pending:
  assumes "network_item item q = Some q'"
  shows "network_pending q' \<le> network_pending q \<or>
    network_pending q' = Suc (network_pending q) \<and>
    length (network_worklist q') = length (network_worklist q)"
proof (cases item)
  case (ADD op)
  with assms obtain q1 r where r: "network_insert op q = Some (q1, r)"
    "q' = (case r of None \<Rightarrow> q1 | Some k \<Rightarrow> queue_dependants k q1)"
    by (auto simp: network_item_def split: option.splits)
  from network_insert_pending [OF r(1)] r(2) bl.move_count [of _ "network_backlog q"] show ?thesis
    by (cases r) (auto simp: network_pending_def queue_dependants_def bl_size_push add.commute
        add.left_commute)
next
  case (REMOVE op)
  let ?op = "op\<lparr>rm_file_path := to_local_path q (rm_file_path op)\<rparr>"
  from assms REMOVE obtain q1 r where r: "remove_operation ?op q = Some (q1, r)"
    "network_worklist q' = network_worklist q1" "network_backlog q' = network_backlog q1"
    by (auto simp: network_item_def remove_network_operation_def Let_def fire_Some
        split: option.splits)
  from remove_operation_pending [OF r(1)] r(2,3) show ?thesis
    by (auto simp: network_pending_def bl_size_push)
qed

text \<open>\<open>drain_network_worklist\<close>: the loop ends on every queue, or a call in it panics.\<close>

function drain_network_worklist :: "shar_queue \<Rightarrow> shar_queue option" where
  "drain_network_worklist q =
     (case network_worklist q of
        [] \<Rightarrow> Some q
      | item # items \<Rightarrow>
          (case network_item item (q\<lparr>network_worklist := items\<rparr>) of
             None \<Rightarrow> None
           | Some q' \<Rightarrow> drain_network_worklist q'))"
  by pat_completeness auto
termination
proof (relation "measures [network_pending, length \<circ> network_worklist]")
  fix q item items q'
  assume "network_worklist q = item # items"
    "network_item item (q\<lparr>network_worklist := items\<rparr>) = Some q'"
  with network_item_pending [OF this(2)]
  show "(q', q) \<in> measures [network_pending, length \<circ> network_worklist]"
    by (auto simp: network_pending_def)
qed simp

declare drain_network_worklist.simps [simp del]

definition clear_network_backlog :: "key \<Rightarrow> shar_queue \<Rightarrow> shar_queue option" where
  "clear_network_backlog k q =
     (case map_of (network_backlog q) k of
        None \<Rightarrow> Some q
      | Some list \<Rightarrow> drain_network_worklist (queue_dependants k q))"

text \<open>\<open>add_network_operation\<close>, that is \<open>add_network_operation_inner\<close> with \<open>clearing_worklist\<close> false.\<close>

definition add_network_operation :: "network_add \<Rightarrow> shar_queue \<Rightarrow> shar_queue option" where
  "add_network_operation op q =
     (case network_insert op q of
        None \<Rightarrow> None
      | Some (q', None) \<Rightarrow> Some q'
      | Some (q', Some k) \<Rightarrow> clear_network_backlog k q')"

section \<open>IDE insertions\<close>

text \<open>The parent of an IDE insertion: its identity, or what its tag stands for.\<close>

definition ide_parent :: "ide_add \<Rightarrow> shar_queue \<Rightarrow> key option" where
  "ide_parent op q =
     (case (ia_parent_id op, ia_parent_peer op) of
        (Some i, Some p) \<Rightarrow> Some (i, p)
      | _ \<Rightarrow> (case ia_parent_tag op of None \<Rightarrow> None | Some t \<Rightarrow> tag_identities q t))"

text \<open>
  \<open>add_ide_operation_inner\<close> up to the insertion: the inserted character and its position, if any. An
  insertion that fails waits for its parent, by tag or by identity.
\<close>

definition ide_insert :: "ide_add \<Rightarrow> shar_queue \<Rightarrow> (shar_queue \<times> (crdt \<times> pos) option) option" where
  "ide_insert op q =
     (case ide_parent op q of
        None \<Rightarrow>
          (case ia_parent_tag op of
             None \<Rightarrow> None
           | Some t \<Rightarrow> Some (q\<lparr>ide_tag_backlog := bl_push t op (ide_tag_backlog q)\<rparr>, None))
      | Some par \<Rightarrow>
          (case tag_identities q (ia_tag op) of
             None \<Rightarrow> None
           | Some k \<Rightarrow>
               let c = CRDT_new (fst k) (snd k) (CrdtRelation_new (ia_val op) (fst par) (snd par)) in
               case dir_add_crdt (tree q) (ia_file_path op) (ia_line_hint op) c of
                 None \<Rightarrow> None
               | Some (t, Inr (Some p)) \<Rightarrow> Some (q\<lparr>tree := t\<rparr>, Some (c, p))
               | Some (t, Inr None) \<Rightarrow> Some (q\<lparr>tree := t\<rparr>, None)
               | Some (t, Inl e) \<Rightarrow>
                   Some (q\<lparr>tree := t, ide_backlog := bl_push par op (ide_backlog q)\<rparr>, None)))"

text \<open>
  The end of \<open>add_ide_operation_inner\<close> after an insertion: peers get the character with its parent,
  the IDE with its predecessor.
\<close>

definition ide_announce :: "ide_add \<Rightarrow> crdt \<Rightarrow> pos \<Rightarrow> shar_queue \<Rightarrow> shar_queue option" where
  "ide_announce op c p q =
     (let network_op = NetworkAdd_new (to_relative_path q (ia_file_path op)) c (fst p) in
      case dir_predecessor_identity (tree q) (ia_file_path op) p of
        None \<Rightarrow> None
      | Some pred \<Rightarrow>
          let local_op = (case pred of
              Inr (Some k) \<Rightarrow> network_op\<lparr>na_crdt := with_parent c k\<rparr>
            | _ \<Rightarrow> network_op)
          in fire ide_add_callback (Ide_added network_op local_op) q)"

definition queue_ide_dependants :: "key \<Rightarrow> shar_queue \<Rightarrow> shar_queue" where
  "queue_ide_dependants k q =
     q\<lparr>ide_worklist := ide_worklist q @ bl_get (ide_backlog q) k,
       ide_backlog := bl_remove k (ide_backlog q)\<rparr>"

text \<open>One item of the loop: \<open>add_ide_operation_inner\<close> with \<open>clearing_worklist\<close> true.\<close>

definition ide_item :: "ide_add \<Rightarrow> shar_queue \<Rightarrow> shar_queue option" where
  "ide_item op q =
     (case ide_insert op q of
        None \<Rightarrow> None
      | Some (q', None) \<Rightarrow> Some q'
      | Some (q', Some (c, p)) \<Rightarrow> ide_announce op c p (queue_ide_dependants (crdt_key c) q'))"

definition ide_pending :: "shar_queue \<Rightarrow> nat" where
  "ide_pending q =
     bl_size (ide_backlog q) + bl_size (ide_tag_backlog q) + length (ide_worklist q)"

lemma ide_insert_pending:
  "ide_insert op q = Some (q', r) \<Longrightarrow>
     ide_worklist q' = ide_worklist q \<and>
     (ide_backlog q' = ide_backlog q \<and> ide_tag_backlog q' = ide_tag_backlog q \<or>
      r = None \<and> bl_size (ide_backlog q') + bl_size (ide_tag_backlog q') =
        Suc (bl_size (ide_backlog q) + bl_size (ide_tag_backlog q)))"
  by (auto simp: ide_insert_def Let_def bl_size_push split: if_splits option.splits sum.splits prod.splits)

lemma ide_announce_event:
  "ide_announce op c p q = Some q' \<Longrightarrow> \<exists>e. q' = q\<lparr>events := events q @ [e]\<rparr>"
  by (auto simp: ide_announce_def Let_def fire_Some split: option.splits)

lemma ide_item_pending:
  assumes "ide_item op q = Some q'"
  shows "ide_pending q' \<le> ide_pending q \<or>
    ide_pending q' = Suc (ide_pending q) \<and> length (ide_worklist q') = length (ide_worklist q)"
proof -
  from assms obtain q1 r where r: "ide_insert op q = Some (q1, r)"
    "r = None \<and> q' = q1 \<or>
     (\<exists>c p. r = Some (c, p) \<and> ide_announce op c p (queue_ide_dependants (crdt_key c) q1) = Some q')"
    by (auto simp: ide_item_def split: option.splits)
  from ide_insert_pending [OF r(1)] r(2) show ?thesis
    by (auto dest!: ide_announce_event simp: ide_pending_def queue_ide_dependants_def bl_size_push
        bl_size_remove)
qed

text \<open>\<open>drain_ide_worklist\<close>: the loop ends on every queue, or a call in it panics.\<close>

function drain_ide_worklist :: "shar_queue \<Rightarrow> shar_queue option" where
  "drain_ide_worklist q =
     (case ide_worklist q of
        [] \<Rightarrow> Some q
      | item # items \<Rightarrow>
          (case ide_item item (q\<lparr>ide_worklist := items\<rparr>) of
             None \<Rightarrow> None
           | Some q' \<Rightarrow> drain_ide_worklist q'))"
  by pat_completeness auto
termination
proof (relation "measures [ide_pending, length \<circ> ide_worklist]")
  fix q item items q'
  assume "ide_worklist q = item # items" "ide_item item (q\<lparr>ide_worklist := items\<rparr>) = Some q'"
  with ide_item_pending [OF this(2)]
  show "(q', q) \<in> measures [ide_pending, length \<circ> ide_worklist]"
    by (auto simp: ide_pending_def)
qed simp

declare drain_ide_worklist.simps [simp del]

definition clear_ide_backlog :: "key \<Rightarrow> shar_queue \<Rightarrow> shar_queue option" where
  "clear_ide_backlog k q =
     (case map_of (ide_backlog q) k of
        None \<Rightarrow> Some q
      | Some list \<Rightarrow> drain_ide_worklist (queue_ide_dependants k q))"

text \<open>\<open>add_ide_operation_inner\<close> with \<open>clearing_worklist\<close> false: the dependants come before the callback.\<close>

definition add_ide_operation_inner :: "ide_add \<Rightarrow> shar_queue \<Rightarrow> shar_queue option" where
  "add_ide_operation_inner op q =
     (case ide_insert op q of
        None \<Rightarrow> None
      | Some (q', None) \<Rightarrow> Some q'
      | Some (q', Some (c, p)) \<Rightarrow>
          Option.bind (clear_ide_backlog (crdt_key c) q') (ide_announce op c p))"

text \<open>
  \<open>add_ide_operation\<close>: a fresh identity, confirmed at once, then the operations that wait for the
  tag, the insertion, and the loop. It returns \<open>Ok(())\<close> whenever it returns.
\<close>

definition assign_identity :: "ide_add \<Rightarrow> shar_queue \<Rightarrow> shar_queue option" where
  "assign_identity op q =
     (let i = counter q + 1;
          q1 = q\<lparr>counter := i, tag_identities := (tag_identities q)(ia_tag op \<mapsto> (i, peer q))\<rparr>
      in fire ide_add_confirm_callback
           (Ide_add_confirmed (IdeAddConfirmed_new (ia_tag op) i (peer q))) q1)"

definition queue_tag_dependants :: "u32 \<Rightarrow> shar_queue \<Rightarrow> shar_queue" where
  "queue_tag_dependants t q =
     q\<lparr>ide_worklist := ide_worklist q @ bl_get (ide_tag_backlog q) t,
       ide_tag_backlog := bl_remove t (ide_tag_backlog q)\<rparr>"

definition add_ide_operation :: "ide_add \<Rightarrow> shar_queue \<Rightarrow> shar_queue option" where
  "add_ide_operation op q =
     Option.bind (assign_identity op q) (\<lambda>q1.
       Option.bind (add_ide_operation_inner op (queue_tag_dependants (ia_tag op) q1))
         drain_ide_worklist)"

end
