(* ===== verification/DirectoryFacts.thy ===== *)
theory DirectoryFacts
  imports SharDirectory FileFacts
begin

text \<open>
  The directory tree as a map from paths to files, under an invariant on its names: a component is
  not repeated above itself. Routing a path below the root is lookup in this map, and an operation
  on a file is an update of this map at one path.
\<close>

section \<open>The files of a directory\<close>

fun all_files :: "shar_directory \<Rightarrow> shar_file list"
  and dirs_files :: "shar_directory list \<Rightarrow> shar_file list"
where
  "all_files (SharDirectory name ds fs) = fs @ dirs_files ds"
| "dirs_files [] = []"
| "dirs_files (d # ds) = all_files d @ dirs_files ds"

definition lookup_file :: "shar_directory \<Rightarrow> path \<rightharpoonup> shar_file" where
  "lookup_file d = map_of (map (\<lambda>f. (file_path f, f)) (all_files d))"

text \<open>A directory path whose last component is a normal one and does not occur above.\<close>

definition fresh_name :: "path \<Rightarrow> bool" where
  "fresh_name p \<longleftrightarrow>
     p \<noteq> [] \<and> last p \<notin> {''/'', ''.'', ''..''} \<and> last p \<notin> set (butlast p)"

fun dir_ok :: "shar_directory \<Rightarrow> bool" and dirs_ok :: "shar_directory list \<Rightarrow> bool" where
  "dir_ok (SharDirectory name ds fs) \<longleftrightarrow>
     fresh_name name \<and> distinct (map file_path fs) \<and> distinct (map dir_name ds) \<and>
     (\<forall>f \<in> set fs. file_path f \<noteq> [] \<and> butlast (file_path f) = name) \<and>
     (\<forall>d \<in> set ds. dir_name d \<noteq> [] \<and> butlast (dir_name d) = name) \<and> dirs_ok ds"
| "dirs_ok [] = True"
| "dirs_ok (d # ds) = (dir_ok d \<and> dirs_ok ds)"

lemma dirs_files_eq: "dirs_files ds = concat (map all_files ds)"
  by (induction ds) auto

lemma dirs_ok_iff: "dirs_ok ds \<longleftrightarrow> (\<forall>d \<in> set ds. dir_ok d)"
  by (induction ds) auto

lemma butlast_eq_iff: "p \<noteq> [] \<Longrightarrow> butlast p = q \<longleftrightarrow> p = q @ [last p]"
  by (metis append_butlast_last_id butlast_snoc)

lemma ends_with_iff: "ends_with p c \<longleftrightarrow> p \<noteq> [] \<and> p = butlast p @ [c]"
  unfolding ends_with_def by (metis append_butlast_last_id last_snoc)

lemma behind_fresh: "c \<notin> set b \<Longrightarrow> behind c (b @ c # rest) = Some rest"
  by (induction b) auto

lemma behind_own_name:
  assumes "fresh_name p"
  shows "file_name p = Some (last p)" "behind (last p) (p @ rest) = Some rest"
proof -
  show "file_name p = Some (last p)" using assms by (auto simp: fresh_name_def file_name_def)
  have "p @ rest = butlast p @ last p # rest" using assms by (simp add: fresh_name_def)
  then show "behind (last p) (p @ rest) = Some rest"
    using assms by (metis behind_fresh fresh_name_def)
qed

lemma files_below:
  "dir_ok d \<Longrightarrow> f \<in> set (all_files d) \<Longrightarrow> \<exists>rel. rel \<noteq> [] \<and> file_path f = dir_name d @ rel"
  "dirs_ok ds \<Longrightarrow> f \<in> set (dirs_files ds) \<Longrightarrow>
     \<exists>d \<in> set ds. \<exists>rel. rel \<noteq> [] \<and> f \<in> set (all_files d) \<and> file_path f = dir_name d @ rel"
proof (induction d and ds rule: all_files_dirs_files.induct)
  case (1 name ds fs)
  show ?case
  proof (cases "f \<in> set fs")
    case True
    with 1 have "file_path f = name @ [last (file_path f)]"
      by (auto simp: butlast_eq_iff)
    then show ?thesis by auto
  next
    case False
    with 1 obtain d rel where "d \<in> set ds" "file_path f = dir_name d @ rel" by auto
    moreover from this have "dir_name d = name @ [last (dir_name d)]"
      using 1(2) by (auto simp: butlast_eq_iff)
    ultimately show ?thesis by (metis append.assoc append_is_Nil_conv list.distinct(1) shar_directory.sel(1))
  qed
qed auto

lemma distinct_files:
  "dir_ok d \<Longrightarrow> distinct (map file_path (all_files d))"
  "dirs_ok ds \<Longrightarrow> distinct (map dir_name ds) \<Longrightarrow>
     (\<And>d e. d \<in> set ds \<Longrightarrow> e \<in> set ds \<Longrightarrow> length (dir_name d) = length (dir_name e)) \<Longrightarrow>
     distinct (map file_path (dirs_files ds))"
proof (induction d and ds rule: all_files_dirs_files.induct)
  case (1 name ds fs)
  have len: "length (dir_name d) = Suc (length name)" if "d \<in> set ds" for d
    using that 1(2) by (metis butlast_eq_iff dir_ok.simps(1) length_append_singleton)
  have "distinct (map file_path (dirs_files ds))"
    by (rule 1(1)) (use 1(2) len in auto)
  moreover have "file_path f \<noteq> file_path g" if "f \<in> set fs" "g \<in> set (dirs_files ds)" for f g
  proof -
    obtain d rel where "d \<in> set ds" "rel \<noteq> []" "file_path g = dir_name d @ rel"
      using files_below(2) [of ds g] 1(2) \<open>g \<in> _\<close> by auto
    then have "length (file_path g) > Suc (length name)" using len by simp
    moreover have "length (file_path f) = Suc (length name)"
      using 1(2) \<open>f \<in> _\<close> by (metis butlast_eq_iff dir_ok.simps(1) length_append_singleton)
    ultimately show ?thesis by auto
  qed
  ultimately show ?case using 1(2) by (auto simp: distinct_map inj_on_def)
next
  case (3 d ds)
  have "file_path f \<noteq> file_path g" if f: "f \<in> set (all_files d)" and g: "g \<in> set (dirs_files ds)"
    for f g
  proof
    assume eq: "file_path f = file_path g"
    obtain rel where f: "file_path f = dir_name d @ rel" using files_below(1) [of d f] f 3(3) by auto
    obtain d' rel' where "d' \<in> set ds" "file_path g = dir_name d' @ rel'"
      using files_below(2) [of ds g] g 3(3) by auto
    with f eq 3(5) [of d d'] have "dir_name d = dir_name d'" by (metis append_eq_append_conv list.set_intros)
    with \<open>d' \<in> set ds\<close> 3(4) show False by auto
  qed
  with 3 show ?case by (auto simp: distinct_map inj_on_def)
qed auto

lemma lookup_file_iff:
  assumes "dir_ok d"
  shows "lookup_file d p = Some f \<longleftrightarrow> f \<in> set (all_files d) \<and> file_path f = p"
  using distinct_files(1) [OF assms] by (auto simp: lookup_file_def comp_def)

section \<open>Routing is lookup\<close>

lemma file_named_Some: "file_named fs c = Some i \<Longrightarrow> i < length fs \<and> ends_with (file_path (fs ! i)) c"
  by (induction fs arbitrary: i) (auto split: if_splits)

lemma file_named_complete: "f \<in> set fs \<Longrightarrow> ends_with (file_path f) c \<Longrightarrow> \<exists>i. file_named fs c = Some i"
  by (induction fs) auto

lemma find_in_dirs_Some:
  assumes "find_in_dirs ds next p = Some (is, j)"
  shows "\<exists>i is' d. is = i # is' \<and> vec_get ds i = Some d \<and> ends_with (dir_name d) next \<and>
    find_file d p = Some (is', j)"
  using assms
proof (induction ds arbitrary: "is")
  case (Cons d ds)
  show ?case
  proof (cases "ends_with (dir_name d) next")
    case True
    with Cons.prems show ?thesis by (intro exI [of _ 0]) (auto simp: vec_get_def)
  next
    case False
    with Cons.prems obtain a b where rest: "find_in_dirs ds next p = Some (a, b)"
      "(case a of [] \<Rightarrow> ([], b) | i # is' \<Rightarrow> (Suc i # is', b)) = (is, j)" by auto
    then have "b = j" by (cases a) simp_all
    with Cons.IH rest(1) obtain i is' e where e: "a = i # is'" "vec_get ds i = Some e"
      "ends_with (dir_name e) next" "find_file e p = Some (is', j)" by blast
    with rest(2) show ?thesis
      by (intro exI [of _ "Suc i"] exI [of _ is'] exI [of _ e]) (simp add: vec_get_def split: if_splits)
  qed
qed simp

lemma find_in_dirs_complete:
  assumes "d \<in> set ds" "ends_with (dir_name d) next" "find_file d p = Some loc"
    and "\<And>e. e \<in> set ds \<Longrightarrow> ends_with (dir_name e) next \<Longrightarrow> e = d"
  shows "\<exists>loc'. find_in_dirs ds next p = Some loc'"
  using assms
proof (induction ds)
  case (Cons e ds)
  show ?case
  proof (cases "ends_with (dir_name e) next")
    case True
    then have "e = d" using Cons.prems(4) by simp
    with True Cons.prems(3) show ?thesis by (cases loc) simp
  next
    case False
    then have "d \<in> set ds" using Cons.prems(1,2) by auto
    then have "\<exists>loc'. find_in_dirs ds next p = Some loc'"
      by (rule Cons.IH [OF _ Cons.prems(2,3)]) (use Cons.prems(4) in simp)
    with False show ?thesis by auto
  qed
next
  case Nil
  from Nil.prems(1) show ?case by simp
qed

text \<open>One level of \<open>find_file\<close> on a path below the directory.\<close>

lemma find_file_below:
  assumes "dir_ok (SharDirectory name ds fs)"
  shows "find_file (SharDirectory name ds fs) (name @ rel) =
    (case rel of [] \<Rightarrow> None
     | next # rest \<Rightarrow>
         if rest = [] then map_option (\<lambda>i. ([], i)) (file_named fs next)
         else find_in_dirs ds next (name @ rel))"
proof -
  have "fresh_name name" using assms by simp
  from behind_own_name [OF this] show ?thesis by (auto simp: find_file.simps split: list.splits)
qed

lemma find_file_sound:
  "dir_ok d \<Longrightarrow> find_file d (dir_name d @ rel) = Some (is, j) \<Longrightarrow>
     \<exists>f. file_at d is j = Some f \<and> file_path f = dir_name d @ rel"
proof (induction rel arbitrary: d "is")
  case Nil
  obtain name ds fs where "d = SharDirectory name ds fs" by (cases d)
  with Nil find_file_below [of name ds fs "[]"] show ?case by simp
next
  case (Cons c rest)
  obtain name ds fs where d: "d = SharDirectory name ds fs" by (cases d)
  show ?case
  proof (cases "rest = []")
    case True
    with Cons.prems d have "file_named fs c = Some j" "is = []"
      by (auto simp: find_file_below)
    moreover from this have "fs ! j \<in> set fs" by (simp add: file_named_Some)
    ultimately show ?thesis
      using file_named_Some [of fs c j] Cons.prems(1) True d
      by (auto simp: vec_get_def ends_with_iff)
  next
    case False
    with Cons.prems d have "find_in_dirs ds c (name @ c # rest) = Some (is, j)"
      by (auto simp: find_file_below split: list.splits)
    from find_in_dirs_Some [OF this] obtain i is' d' where
      d': "is = i # is'" "vec_get ds i = Some d'" "ends_with (dir_name d') c"
      "find_file d' (name @ c # rest) = Some (is', j)" by blast
    then have "d' \<in> set ds" by (auto simp: vec_simps)
    then have "dir_name d' = name @ [c]" "dir_ok d'"
      using Cons.prems(1) d d'(3) by (auto simp: ends_with_iff dirs_ok_iff)
    with Cons.IH [of d' is'] d' d show ?thesis by simp
  qed
qed

lemma find_file_complete:
  "dir_ok d \<Longrightarrow> f \<in> set (all_files d) \<Longrightarrow> file_path f = dir_name d @ rel \<Longrightarrow>
     \<exists>loc. find_file d (dir_name d @ rel) = Some loc"
proof (induction rel arbitrary: d)
  case Nil
  then show ?case using files_below(1) by fastforce
next
  case (Cons c rest)
  obtain name ds fs where d: "d = SharDirectory name ds fs" by (cases d)
  show ?case
  proof (cases "f \<in> set fs")
    case True
    with Cons.prems d have "butlast (name @ c # rest) = name" by auto
    then have "rest = []" by (auto simp: butlast_append split: if_splits)
    with True Cons.prems d file_named_complete [of f fs c] show ?thesis
      by (auto simp: find_file_below ends_with_def)
  next
    case False
    with Cons.prems d obtain d' rel' where d': "d' \<in> set ds" "f \<in> set (all_files d')" "rel' \<noteq> []"
      "file_path f = dir_name d' @ rel'" using files_below(2) [of ds f] by auto
    have name': "dir_name d' = name @ [last (dir_name d')]" and ok: "dir_ok d'"
      using Cons.prems(1) d d'(1) by (auto simp: butlast_eq_iff dirs_ok_iff)
    with d'(4) Cons.prems(3) d have c: "dir_name d' = name @ [c]" "rel' = rest"
      by (metis append.assoc append_Cons append_Nil list.inject same_append_eq shar_directory.sel(1))+
    from Cons.IH [OF ok d'(2)] d'(4) c have "\<exists>loc. find_file d' (name @ c # rest) = Some loc" by simp
    then obtain loc where loc: "find_file d' (name @ c # rest) = Some loc" ..
    have "e = d'" if "e \<in> set ds" "ends_with (dir_name e) c" for e
    proof -
      have "dir_name e = dir_name d'"
        using that Cons.prems(1) d c(1) by (auto simp: ends_with_iff)
      with that(1) d'(1) Cons.prems(1) d show ?thesis by (auto simp: distinct_map inj_on_def)
    qed
    with find_in_dirs_complete [OF d'(1) _ loc] c(1) have
      "\<exists>loc'. find_in_dirs ds c (name @ c # rest) = Some loc'" by (simp add: ends_with_def)
    then show ?thesis using Cons.prems(1) d d'(3) c(2)
      by (auto simp: find_file_below)
  qed
qed

section \<open>An operation is an update of the map\<close>

lemma dirs_files_update:
  assumes "i < length ds" "all_files (ds ! i) = us @ f # vs" "all_files e = us @ g # vs"
  shows "dirs_files ds = (concat (map all_files (take i ds)) @ us) @ f #
      (vs @ concat (map all_files (drop (Suc i) ds)))"
    "dirs_files (ds[i := e]) = (concat (map all_files (take i ds)) @ us) @ g #
      (vs @ concat (map all_files (drop (Suc i) ds)))"
proof -
  have "map all_files ds = map all_files (take i ds) @ all_files (ds ! i) # map all_files (drop (Suc i) ds)"
    using assms(1) by (metis id_take_nth_drop list.simps(9) map_append)
  then show "dirs_files ds = (concat (map all_files (take i ds)) @ us) @ f #
      (vs @ concat (map all_files (drop (Suc i) ds)))"
    using assms(2) by (simp add: dirs_files_eq)
  show "dirs_files (ds[i := e]) = (concat (map all_files (take i ds)) @ us) @ g #
      (vs @ concat (map all_files (drop (Suc i) ds)))"
    using assms(1,3) by (simp add: dirs_files_eq upd_conv_take_nth_drop)
qed

lemma file_at_split:
  "file_at d is j = Some f \<Longrightarrow>
     \<exists>us vs. all_files d = us @ f # vs \<and> (\<forall>g. all_files (put_file d is j g) = us @ g # vs)"
proof (induction d "is" j rule: file_at.induct)
  case (1 d j)
  obtain name ds fs where d: "d = SharDirectory name ds fs" by (cases d)
  with 1 have "fs = take j fs @ f # drop (Suc j) fs" "j < length fs"
    by (auto simp: vec_simps id_take_nth_drop)
  then show ?case using d
    by (intro exI [of _ "take j fs"] exI [of _ "drop (Suc j) fs @ dirs_files ds"])
      (simp add: upd_conv_take_nth_drop)
next
  case (2 d i "is" j)
  obtain name ds fs where d: "d = SharDirectory name ds fs" by (cases d)
  with 2(2) have i: "i < length ds" "file_at (ds ! i) is j = Some f"
    by (auto simp: vec_get_def split: if_splits)
  from 2(1) [of "ds ! i"] i d obtain us vs where
    e: "all_files (ds ! i) = us @ f # vs" "\<And>g. all_files (put_file (ds ! i) is j g) = us @ g # vs"
    by (auto simp: vec_get_def)
  note u = dirs_files_update [OF i(1) e]
  show ?case using d i(1) u
    by (intro exI [of _ "fs @ concat (map all_files (take i ds)) @ us"]
        exI [of _ "vs @ concat (map all_files (drop (Suc i) ds))"]) simp
qed

lemma dir_name_put [simp]: "dir_name (put_file d is j f) = dir_name d"
  by (cases "is") auto

lemma map_dir_name_put:
  "i < length ds \<Longrightarrow> dir_name e = dir_name (ds ! i) \<Longrightarrow> map dir_name (ds[i := e]) = map dir_name ds"
  by (metis list_update_id map_update)

lemma dir_ok_put:
  "dir_ok d \<Longrightarrow> file_at d is j = Some f \<Longrightarrow> file_path g = file_path f \<Longrightarrow> dir_ok (put_file d is j g)"
proof (induction d "is" j rule: file_at.induct)
  case (1 d j)
  obtain name ds fs where d: "d = SharDirectory name ds fs" by (cases d)
  with 1 have j: "j < length fs" "file_path g = file_path (fs ! j)" by (auto simp: vec_simps)
  then have "map file_path (fs[j := g]) = map file_path fs" by (metis list_update_id map_update)
  moreover have "\<forall>x \<in> set (fs[j := g]). file_path x \<noteq> [] \<and> butlast (file_path x) = name"
  proof
    fix x assume "x \<in> set (fs[j := g])"
    then have "x = g \<or> x \<in> set fs" using set_update_subset_insert [of fs j g] by blast
    moreover have "fs ! j \<in> set fs" using j(1) by simp
    ultimately have "\<exists>y \<in> set fs. file_path x = file_path y" using j(2) by blast
    then show "file_path x \<noteq> [] \<and> butlast (file_path x) = name" using 1(1) d by force
  qed
  ultimately show ?case using 1(1) d by simp
next
  case (2 d i "is" j)
  obtain name ds fs where d: "d = SharDirectory name ds fs" by (cases d)
  with 2(3) have i: "i < length ds" "file_at (ds ! i) is j = Some f"
    by (auto simp: vec_get_def split: if_splits)
  let ?e = "put_file (ds ! i) is j g"
  have in_ds: "ds ! i \<in> set ds" using i(1) by simp
  have ok: "dir_ok ?e"
    using 2(1) [of "ds ! i"] 2(2,4) i d in_ds by (auto simp: vec_get_def dirs_ok_iff)
  have names: "map dir_name (ds[i := ?e]) = map dir_name ds" by (rule map_dir_name_put [OF i(1)]) simp
  have "\<forall>x \<in> set (ds[i := ?e]). x = ?e \<or> x \<in> set ds"
    using set_update_subset_insert [of ds i ?e] by auto
  with ok in_ds 2(2) d i(1) names show ?case by (auto simp: dirs_ok_iff)
qed

lemma put_file_same: "file_at d is j = Some f \<Longrightarrow> put_file d is j f = d"
proof (induction d "is" j rule: file_at.induct)
  case (1 d j)
  then show ?case by (cases d) (auto simp: vec_simps)
next
  case (2 d i "is" j)
  then show ?case by (cases d) (auto simp: vec_get_def split: if_splits)
qed

text \<open>The file map around an operation.\<close>

lemma on_file_missing:
  assumes "dir_ok d" "lookup_file d (dir_name d @ rel) = None"
  shows "on_file d (dir_name d @ rel) call = Some (d, Inl (Generic ''File not found''))"
proof (cases "find_file d (dir_name d @ rel)")
  case None
  then show ?thesis by (simp add: on_file_def)
next
  case (Some loc)
  obtain "is" j where "loc = (is, j)" by (cases loc)
  with Some find_file_sound [OF assms(1)] obtain f where
    "file_at d is j = Some f" "file_path f = dir_name d @ rel" by blast
  with file_at_split have "f \<in> set (all_files d)" by fastforce
  then have "lookup_file d (dir_name d @ rel) = Some f"
    using lookup_file_iff [OF assms(1)] \<open>file_path f = _\<close> by blast
  with assms(2) show ?thesis by simp
qed

lemma on_file_found:
  assumes ok: "dir_ok d" and f: "lookup_file d (dir_name d @ rel) = Some f"
  obtains "is" j where "find_file d (dir_name d @ rel) = Some (is, j)" "file_at d is j = Some f"
proof -
  from f lookup_file_iff [OF ok] have f': "f \<in> set (all_files d)" "file_path f = dir_name d @ rel"
    by auto
  from find_file_complete [OF ok this] obtain "is" j where
    loc: "find_file d (dir_name d @ rel) = Some (is, j)" by (metis surj_pair)
  from find_file_sound [OF ok loc] obtain g where g: "file_at d is j = Some g"
    "file_path g = dir_name d @ rel" by blast
  with file_at_split have "g \<in> set (all_files d)" by fastforce
  with g(2) have "lookup_file d (dir_name d @ rel) = Some g" using lookup_file_iff [OF ok] by blast
  with f have "g = f" by simp
  with loc g(1) that show ?thesis by blast
qed

lemma on_file_panics:
  assumes "dir_ok d" "lookup_file d (dir_name d @ rel) = Some f" "call f = None"
  shows "on_file d (dir_name d @ rel) call = None"
proof -
  obtain "is" j where "find_file d (dir_name d @ rel) = Some (is, j)" "file_at d is j = Some f"
    by (rule on_file_found [OF assms(1,2)])
  with assms(3) show ?thesis by (simp add: on_file_def)
qed

lemma on_file_updates:
  assumes ok: "dir_ok d" and f: "lookup_file d (dir_name d @ rel) = Some f"
    and call: "call f = Some (f', res)" "file_path f' = file_path f"
  shows "\<exists>d'. on_file d (dir_name d @ rel) call = Some (d', res) \<and> dir_ok d' \<and>
    dir_name d' = dir_name d \<and> set (all_files d') \<subseteq> insert f' (set (all_files d)) \<and>
    lookup_file d' = (lookup_file d)(dir_name d @ rel \<mapsto> f') \<and> (f' = f \<longrightarrow> d' = d)"
proof -
  obtain "is" j where loc: "find_file d (dir_name d @ rel) = Some (is, j)" "file_at d is j = Some f"
    by (rule on_file_found [OF ok f])
  let ?d = "put_file d is j f'"
  have ok': "dir_ok ?d" by (rule dir_ok_put [OF ok loc(2) call(2)])
  obtain us vs where split: "all_files d = us @ f # vs" "all_files ?d = us @ f' # vs"
    using file_at_split [OF loc(2)] by blast
  have path: "file_path f = dir_name d @ rel" using f lookup_file_iff [OF ok] by blast
  have "lookup_file ?d = (lookup_file d)(dir_name d @ rel \<mapsto> f')"
  proof
    fix p
    have "file_path f \<notin> set (map file_path us)"
      using distinct_files(1) [OF ok] split(1) by auto
    then have "map_of (map (\<lambda>f. (file_path f, f)) us) (file_path f) = None"
      by (auto simp: map_of_eq_None_iff)
    then show "lookup_file ?d p = ((lookup_file d)(dir_name d @ rel \<mapsto> f')) p"
      using split path call(2)
      by (auto simp: lookup_file_def map_add_def split: option.splits)
  qed
  moreover have "on_file d (dir_name d @ rel) call = Some (?d, res)"
    using loc call(1) by (simp add: on_file_def)
  moreover have "f' = f \<longrightarrow> ?d = d" using put_file_same [OF loc(2)] by blast
  ultimately show ?thesis using ok' split by auto
qed

section \<open>The tree as a set of characters\<close>

text \<open>The invariant of the tree, and the known and the removed characters of all files.\<close>

definition tree_inv :: "shar_directory \<Rightarrow> bool" where
  "tree_inv d \<longleftrightarrow> dir_ok d \<and> (\<forall>f \<in> set (all_files d). wf_file f)"

definition nodes :: "shar_directory \<Rightarrow> (path \<times> key) set" where
  "nodes d = {(p, k). \<exists>f. lookup_file d p = Some f \<and> k \<in> dom (characters f)}"

definition tombs :: "shar_directory \<Rightarrow> (path \<times> key) set" where
  "tombs d = {(p, k). \<exists>f r. lookup_file d p = Some f \<and> characters f k = Some r \<and> cr_deleted r}"

lemma tree_inv_file: "tree_inv d \<Longrightarrow> lookup_file d p = Some f \<Longrightarrow> wf_file f"
  using lookup_file_iff by (auto simp: tree_inv_def)

lemma nodes_upd:
  "lookup_file d' = (lookup_file d)(p \<mapsto> f') \<Longrightarrow> lookup_file d p = Some f \<Longrightarrow>
     (\<And>k. (\<exists>r. characters f' k = Some r) \<longleftrightarrow> (\<exists>r. characters f k = Some r) \<or> k \<in> K) \<Longrightarrow>
     nodes d' = nodes d \<union> Pair p ` K"
  unfolding nodes_def dom_def by (simp add: set_eq_iff image_iff Bex_def)

lemma tombs_upd:
  "lookup_file d' = (lookup_file d)(p \<mapsto> f') \<Longrightarrow> lookup_file d p = Some f \<Longrightarrow>
     (\<And>k. (\<exists>r. characters f' k = Some r \<and> cr_deleted r) \<longleftrightarrow>
       (\<exists>r. characters f k = Some r \<and> cr_deleted r) \<or> k \<in> K) \<Longrightarrow>
     tombs d' = tombs d \<union> Pair p ` K"
  unfolding tombs_def by (simp add: set_eq_iff image_iff Bex_def)

end
