(* ===== verification/Links.thy ===== *)
theory Links
  imports DirectoryFacts
begin

text \<open>
  Where a character hangs: what each character of a tree says about itself, and the condition under
  which an insertion below a given parent lands among the characters of its line. It asks nothing of
  an insertion below a live parent; below a removed one the new character must not be a line break,
  and the chain of removed characters above it must not end at the root sentinel.
\<close>

type_synonym link = "(path \<times> key) \<times> uchar \<times> key"

definition links :: "shar_directory \<Rightarrow> link set" where
  "links d = {(x, v, par). \<exists>f r. lookup_file d (fst x) = Some f \<and> characters f (snd x) = Some r \<and>
     v = cr_value r \<and> par = parent_key r}"

lemma links_iff:
  "((p, k), v, par) \<in> links d \<longleftrightarrow>
     (\<exists>f r. lookup_file d p = Some f \<and> characters f k = Some r \<and> v = cr_value r \<and> par = parent_key r)"
  by (simp add: links_def)

lemma links_node: "(x, u) \<in> links d \<Longrightarrow> x \<in> nodes d"
  by (cases x; cases u) (auto simp: links_def nodes_def)

lemma node_links: "x \<in> nodes d \<Longrightarrow> \<exists>u. (x, u) \<in> links d"
  unfolding nodes_def by (force simp: links_def)

lemma links_single: "(x, u) \<in> links d \<Longrightarrow> (x, w) \<in> links d \<Longrightarrow> u = w"
  by (cases u; cases w) (simp add: links_def, metis option.inject prod.inject)

lemma links_upd:
  assumes "lookup_file d' = (lookup_file d)(p \<mapsto> f')" "lookup_file d p = Some f"
    and "\<And>k v par. (\<exists>r. characters f' k = Some r \<and> v = cr_value r \<and> par = parent_key r) \<longleftrightarrow>
      (\<exists>r. characters f k = Some r \<and> v = cr_value r \<and> par = parent_key r) \<or> (k, v, par) \<in> K"
  shows "links d' = links d \<union> (\<lambda>(k, u). ((p, k), u)) ` K"
proof -
  have "((p', k), v, par) \<in> links d' \<longleftrightarrow>
      ((p', k), v, par) \<in> links d \<union> (\<lambda>(k, u). ((p, k), u)) ` K" for p' k v par
    using assms(3) [of k v par] assms(1,2) by (cases "p' = p") (auto simp: links_iff image_iff)
  then show ?thesis by (auto simp: set_eq_iff)
qed

lemma mark_deleted_links:
  "(\<exists>r. mark_deleted x chars k = Some r \<and> v = cr_value r \<and> par = parent_key r) \<longleftrightarrow>
     (\<exists>r. chars k = Some r \<and> v = cr_value r \<and> par = parent_key r)"
  by (auto simp: mark_deleted_def parent_key_def)

section \<open>Tombstones without a live character above them\<close>

inductive sunk :: "link set \<Rightarrow> (path \<times> key) set \<Rightarrow> path \<times> key \<Rightarrow> bool" for L D where
  sunk_top: "((p, k), v, root) \<in> L \<Longrightarrow> (p, k) \<in> D \<Longrightarrow> sunk L D (p, k)"
| sunk_below: "((p, k), v, par) \<in> L \<Longrightarrow> (p, k) \<in> D \<Longrightarrow> sunk L D (p, par) \<Longrightarrow> sunk L D (p, k)"

lemma sunk_mono: "sunk L D x \<Longrightarrow> L \<subseteq> L' \<Longrightarrow> D \<subseteq> D' \<Longrightarrow> sunk L' D' x"
  by (induction rule: sunk.induct) (blast intro: sunk_top sunk_below)+

text \<open>The climb of \<open>find_tombstone\<close> reaches the root only from such a tombstone.\<close>

lemma hangs_root_sunk:
  assumes "hangs_from (characters f) k a" "a = root"
    and "lookup_file d p = Some f" "(p, k) \<in> tombs d"
  shows "sunk (links d) (tombs d) (p, k)"
  using assms(1,2,4)
proof (induction rule: hangs_from.induct)
  case (hangs_live k r q)
  have "((p, k), cr_value r, parent_key r) \<in> links d"
    using assms(3) hangs_live.hyps(1) by (auto simp: links_iff)
  then show ?case using hangs_live.prems by (auto intro: sunk_top)
next
  case (hangs_tomb k r q a)
  have "((p, k), cr_value r, parent_key r) \<in> links d"
    using assms(3) hangs_tomb.hyps(1) by (auto simp: links_iff)
  moreover have "(p, parent_key r) \<in> tombs d"
    using assms(3) hangs_tomb.hyps(2,3) by (auto simp: tombs_def)
  ultimately show ?case using hangs_tomb.IH hangs_tomb.prems by (auto intro: sunk_below)
qed

section \<open>Insertions that are placed\<close>

definition accepts :: "link set \<Rightarrow> (path \<times> key) set \<Rightarrow> path \<Rightarrow> crdt_relation \<Rightarrow> bool" where
  "accepts L D p r \<longleftrightarrow>
     (p, parent_key r) \<notin> D \<or> \<not> is_line_break (cr_value r) \<and> \<not> sunk L D (p, parent_key r)"

lemma accepts_mono: "accepts L' D' p r \<Longrightarrow> L \<subseteq> L' \<Longrightarrow> D \<subseteq> D' \<Longrightarrow> accepts L D p r"
  unfolding accepts_def using sunk_mono by blast

lemma accepts_live: "(p, parent_key r) \<notin> D \<Longrightarrow> accepts L D p r"
  by (simp add: accepts_def)

lemma accepts_undeleted [simp]: "accepts L D p (r\<lparr>cr_deleted := b\<rparr>) = accepts L D p r"
  by (simp add: accepts_def parent_key_def)

lemma not_sunk_below:
  assumes "\<And>v. ((p, k), v, root) \<notin> L" "\<And>v par. ((p, k), v, par) \<in> L \<Longrightarrow> (p, par) \<notin> D"
  shows "\<not> sunk L D (p, k)"
proof
  assume "sunk L D (p, k)"
  then show False
  proof (cases rule: sunk.cases)
    case (sunk_below v par)
    from sunk_below(3) have "(p, par) \<in> D" by (cases rule: sunk.cases) auto
    with sunk_below(1) assms(2) show False by blast
  qed (use assms(1) in blast)
qed

text \<open>Every accepted insertion of a new character below a known one is carried out.\<close>

lemma add_crdt_accepted:
  assumes wf: "wf_file f" and f: "lookup_file d p = Some f"
    and new: "characters f (crdt_key c) = None"
    and par: "parent_key (crdt_relation c) \<in> dom (characters f)"
    and ok: "accepts (links d) (tombs d) p (crdt_relation c)" "\<not> cr_deleted (crdt_relation c)"
  shows "\<exists>f' q. add_crdt f n c = Some (f', Inr (Some q)) \<and> wf_file f' \<and> file_path f' = file_path f \<and>
    characters f' = (characters f)(crdt_key c \<mapsto> crdt_relation c)"
proof -
  let ?par = "parent_key (crdt_relation c)"
  obtain r where r: "characters f ?par = Some r" using par by auto
  show ?thesis
  proof (cases "cr_deleted r")
    case False
    then have "?par \<in> live_keys (characters f)" using r by (auto simp: live_keys_def)
    from add_crdt_live [OF wf new this ok(2)] show ?thesis by (auto simp: inserted_def)
  next
    case True
    then have "(p, ?par) \<in> tombs d" using f r by (auto simp: tombs_def)
    obtain a where a: "hangs_from (characters f) ?par a"
      using hangs_from_exists [OF wf_fileD(1) [OF wf] par] by blast
    have "a \<noteq> root" "\<not> is_line_break (cr_value (crdt_relation c))"
      using hangs_root_sunk [OF a _ f] \<open>(p, ?par) \<in> tombs d\<close> ok(1) by (auto simp: accepts_def)
    from add_crdt_tombstone [OF wf new r True a this ok(2)] obtain f' q where
      f': "\<And>n. add_crdt f n c = Some (f', Inr (Some q))" "wf_file f'"
        "characters f' = (characters f)(crdt_key c \<mapsto> crdt_relation c)" by blast
    moreover have "file_path f' = file_path f" using add_crdt_characters [OF f'(1)] by blast
    ultimately show ?thesis by blast
  qed
qed

end
