(* ===== verification/FileStore.thy ===== *)
theory FileStore
  imports Links
begin

text \<open>
  What the queue needs of the tree, as an interface: a store of characters under paths below its
  base, in which an insertion fails exactly on an unknown parent and a removal exactly on an unknown
  character, a repeated one changes nothing, and everything else adds one character or one
  tombstone. \<open>SharDirectory\<close> is interpreted as such a store.
\<close>

locale file_store =
  fixes add :: "'t \<Rightarrow> path \<Rightarrow> nat \<Rightarrow> crdt \<Rightarrow> ('t \<times> (error + pos option)) option"
    and remove :: "'t \<Rightarrow> path \<Rightarrow> nat \<Rightarrow> key \<Rightarrow> ('t \<times> (error + pos option)) option"
    and before :: "'t \<Rightarrow> path \<Rightarrow> pos \<Rightarrow> (error + key option) option"
    and inv :: "'t \<Rightarrow> bool"
    and base :: "'t \<Rightarrow> path"
    and known :: "'t \<Rightarrow> (path \<times> key) set"
    and dead :: "'t \<Rightarrow> (path \<times> key) set"
    and link :: "'t \<Rightarrow> link set"
  assumes add_unknown: "inv t \<Longrightarrow> (base t @ rel, parent_key (crdt_relation c)) \<notin> known t \<Longrightarrow>
      \<exists>e. add t (base t @ rel) n c = Some (t, Inl e)"
    and add_known: "inv t \<Longrightarrow> (base t @ rel, parent_key (crdt_relation c)) \<in> known t \<Longrightarrow>
      (base t @ rel, crdt_key c) \<in> known t \<Longrightarrow> add t (base t @ rel) n c = Some (t, Inr None)"
    and add_new: "inv t \<Longrightarrow> (base t @ rel, parent_key (crdt_relation c)) \<in> known t \<Longrightarrow>
      accepts (link t) (dead t) (base t @ rel) (crdt_relation c) \<Longrightarrow>
      (base t @ rel, crdt_key c) \<notin> known t \<Longrightarrow> \<not> cr_deleted (crdt_relation c) \<Longrightarrow>
      \<exists>t' p. add t (base t @ rel) n c = Some (t', Inr (Some p)) \<and> inv t' \<and> base t' = base t \<and>
        known t' = insert (base t @ rel, crdt_key c) (known t) \<and> dead t' = dead t \<and>
        link t' = insert ((base t @ rel, crdt_key c), cr_value (crdt_relation c),
          parent_key (crdt_relation c)) (link t) \<and>
        before t' (base t @ rel) p \<noteq> None"
    and remove_unknown: "inv t \<Longrightarrow> (base t @ rel, k) \<notin> known t \<Longrightarrow>
      \<exists>e. remove t (base t @ rel) n k = Some (t, Inl e)"
    and remove_known: "inv t \<Longrightarrow> (base t @ rel, k) \<in> known t \<Longrightarrow> k \<noteq> root \<Longrightarrow>
      \<exists>t' r. remove t (base t @ rel) n k = Some (t', Inr r) \<and> inv t' \<and> base t' = base t \<and>
        known t' = known t \<and> dead t' = insert (base t @ rel, k) (dead t) \<and>
        link t' = link t"
begin

text \<open>Every insertion of a live character that is accepted where it hangs has one of three ends.\<close>

lemma add_cases:
  assumes "inv t" "accepts (link t) (dead t) (base t @ rel) (crdt_relation c)"
    and "\<not> cr_deleted (crdt_relation c)"
  obtains (failed) e where "(base t @ rel, parent_key (crdt_relation c)) \<notin> known t"
      "add t (base t @ rel) n c = Some (t, Inl e)"
    | (repeated) "(base t @ rel, crdt_key c) \<in> known t" "add t (base t @ rel) n c = Some (t, Inr None)"
    | (inserted) t' p where "add t (base t @ rel) n c = Some (t', Inr (Some p))" "inv t'"
      "base t' = base t" "known t' = insert (base t @ rel, crdt_key c) (known t)" "dead t' = dead t"
      "link t' = insert ((base t @ rel, crdt_key c), cr_value (crdt_relation c),
        parent_key (crdt_relation c)) (link t)"
      "before t' (base t @ rel) p \<noteq> None" "(base t @ rel, parent_key (crdt_relation c)) \<in> known t"
  using assms add_unknown add_known add_new by metis

text \<open>So does every removal but the root's, with two ends.\<close>

lemma remove_cases:
  assumes "inv t" "k \<noteq> root"
  obtains (failed) e where "(base t @ rel, k) \<notin> known t" "remove t (base t @ rel) n k = Some (t, Inl e)"
    | (removed) t' r where "remove t (base t @ rel) n k = Some (t', Inr r)" "inv t'" "base t' = base t"
      "known t' = known t" "dead t' = insert (base t @ rel, k) (dead t)" "link t' = link t" "(base t @ rel, k) \<in> known t"
  using assms remove_unknown remove_known by metis

end

section \<open>The directory as a store\<close>

lemma dir_predecessor_returns:
  assumes "tree_inv d"
  shows "dir_predecessor_identity d (dir_name d @ rel) p \<noteq> None"
proof (cases "lookup_file d (dir_name d @ rel)")
  case None
  then show ?thesis
    using assms by (simp add: dir_predecessor_identity_def on_file_missing tree_inv_def)
next
  case (Some f)
  then show ?thesis
    using on_file_updates [of d rel f "\<lambda>f. Some (f, Inr (predecessor_identity f p))"] assms
    by (auto simp: dir_predecessor_identity_def tree_inv_def)
qed

lemma tree_inv_update:
  assumes "tree_inv d" "lookup_file d (dir_name d @ rel) = Some f" "call f = Some (f', res)"
    and "file_path f' = file_path f" "wf_file f'"
  obtains d' where "on_file d (dir_name d @ rel) call = Some (d', res)" "tree_inv d'"
    "dir_name d' = dir_name d" "lookup_file d' = (lookup_file d)(dir_name d @ rel \<mapsto> f')"
    "f' = f \<longrightarrow> d' = d"
proof -
  from assms(1) have ok: "dir_ok d" by (simp add: tree_inv_def)
  from on_file_updates [where call = call, OF ok assms(2-4)] obtain d' where
    d': "on_file d (dir_name d @ rel) call = Some (d', res)" "dir_ok d'" "dir_name d' = dir_name d"
      "set (all_files d') \<subseteq> insert f' (set (all_files d))"
      "lookup_file d' = (lookup_file d)(dir_name d @ rel \<mapsto> f')" "f' = f \<longrightarrow> d' = d" by blast
  then have "tree_inv d'" using assms(1,5) by (auto simp: tree_inv_def)
  with d' that show ?thesis by blast
qed

interpretation store: file_store dir_add_crdt dir_remove_crdt dir_predecessor_identity tree_inv
  dir_name nodes tombs links
proof
  fix d :: shar_directory and rel and c :: crdt and n
  let ?p = "dir_name d @ rel" and ?par = "parent_key (crdt_relation c)"
  assume inv: "tree_inv d"
  then have ok: "dir_ok d" by (simp add: tree_inv_def)
  show "\<exists>e. dir_add_crdt d ?p n c = Some (d, Inl e)" if "(?p, ?par) \<notin> nodes d"
  proof (cases "lookup_file d ?p")
    case None
    then show ?thesis by (simp add: dir_add_crdt_def on_file_missing [OF ok])
  next
    case (Some f)
    with that have "characters f ?par = None" by (auto simp: nodes_def)
    then have "add_crdt f n c = Some (f, Inl (Generic ''Parent does not exist''))"
      by (rule add_crdt_unknown_parent)
    from tree_inv_update [where call = "\<lambda>f. add_crdt f n c", OF inv Some this refl
        tree_inv_file [OF inv Some]] show ?thesis
      unfolding dir_add_crdt_def by metis
  qed
  show "dir_add_crdt d ?p n c = Some (d, Inr None)"
    if "(?p, ?par) \<in> nodes d" "(?p, crdt_key c) \<in> nodes d"
  proof -
    from that obtain f where f: "lookup_file d ?p = Some f" "characters f ?par \<noteq> None"
      "characters f (crdt_key c) \<noteq> None" by (auto simp: nodes_def)
    from tree_inv_update [where call = "\<lambda>f. add_crdt f n c", OF inv f(1)
        add_crdt_duplicate [OF f(2,3)] refl tree_inv_file [OF inv f(1)]] show ?thesis
      unfolding dir_add_crdt_def by metis
  qed
  show "\<exists>d' p. dir_add_crdt d ?p n c = Some (d', Inr (Some p)) \<and> tree_inv d' \<and>
      dir_name d' = dir_name d \<and> nodes d' = insert (?p, crdt_key c) (nodes d) \<and>
      tombs d' = tombs d \<and>
      links d' = insert ((?p, crdt_key c), cr_value (crdt_relation c), ?par) (links d) \<and>
      dir_predecessor_identity d' ?p p \<noteq> None"
    if "(?p, ?par) \<in> nodes d" "accepts (links d) (tombs d) ?p (crdt_relation c)"
      "(?p, crdt_key c) \<notin> nodes d" "\<not> cr_deleted (crdt_relation c)"
  proof -
    from that(1) obtain f where f: "lookup_file d ?p = Some f" "?par \<in> dom (characters f)"
      by (auto simp: nodes_def)
    have new: "characters f (crdt_key c) = None"
      using that(3) f(1) by (cases "characters f (crdt_key c)") (auto simp: nodes_def)
    from add_crdt_accepted [OF tree_inv_file [OF inv f(1)] f(1) new f(2) that(2,4)] obtain f' q where
      f': "add_crdt f n c = Some (f', Inr (Some q))" "wf_file f'" "file_path f' = file_path f"
      "characters f' = (characters f)(crdt_key c \<mapsto> crdt_relation c)" by blast
    obtain d' where d': "dir_add_crdt d ?p n c = Some (d', Inr (Some q))" "tree_inv d'"
      "dir_name d' = dir_name d" "lookup_file d' = (lookup_file d)(?p \<mapsto> f')"
      using tree_inv_update [where call = "\<lambda>f. add_crdt f n c", OF inv f(1) f'(1,3,2)]
      unfolding dir_add_crdt_def by metis
    have "nodes d' = nodes d \<union> Pair ?p ` {crdt_key c}"
      by (rule nodes_upd [OF d'(4) f(1)]) (simp add: f'(4))
    moreover have "tombs d' = tombs d \<union> Pair ?p ` {}"
      by (rule tombs_upd [OF d'(4) f(1)]) (use new that(4) in \<open>simp add: f'(4)\<close>)
    moreover have "links d' = links d \<union>
        (\<lambda>(k, u). ((?p, k), u)) ` {(crdt_key c, cr_value (crdt_relation c), ?par)}"
      by (rule links_upd [OF d'(4) f(1)]) (use new in \<open>auto simp: f'(4)\<close>)
    ultimately show ?thesis
      using d' dir_predecessor_returns [OF d'(2), of rel q] by auto
  qed
next
  fix d :: shar_directory and rel k n
  let ?p = "dir_name d @ rel"
  assume inv: "tree_inv d"
  then have ok: "dir_ok d" by (simp add: tree_inv_def)
  show "\<exists>e. dir_remove_crdt d ?p n k = Some (d, Inl e)" if "(?p, k) \<notin> nodes d"
  proof (cases "lookup_file d ?p")
    case None
    then show ?thesis by (simp add: dir_remove_crdt_def on_file_missing [OF ok])
  next
    case (Some f)
    with that have "characters f k = None" by (auto simp: nodes_def)
    from tree_inv_update [where call = "\<lambda>f. remove_crdt f n k", OF inv Some
        remove_crdt_unknown [OF this] refl tree_inv_file [OF inv Some]] show ?thesis
      unfolding dir_remove_crdt_def by metis
  qed
  show "\<exists>d' r. dir_remove_crdt d ?p n k = Some (d', Inr r) \<and> tree_inv d' \<and> dir_name d' = dir_name d \<and>
      nodes d' = nodes d \<and> tombs d' = insert (?p, k) (tombs d) \<and> links d' = links d"
    if "(?p, k) \<in> nodes d" "k \<noteq> root"
  proof -
    from that obtain f where f: "lookup_file d ?p = Some f" "k \<in> dom (characters f)"
      by (auto simp: nodes_def)
    note wf = tree_inv_file [OF inv f(1)]
    from remove_step_known [OF wf f(2) that(2)] obtain f' where f': "remove_step (n, k) f = Some f'"
      "wf_file f'" "file_path f' = file_path f" "characters f' = mark_deleted k (characters f)"
      by blast
    then obtain r where rem: "remove_crdt f n k = Some (f', Inr r)"
      by (auto simp: remove_step_def split: option.splits sum.splits)
    obtain d' where d': "dir_remove_crdt d ?p n k = Some (d', Inr r)" "tree_inv d'"
      "dir_name d' = dir_name d" "lookup_file d' = (lookup_file d)(?p \<mapsto> f')"
      using tree_inv_update [where call = "\<lambda>f. remove_crdt f n k", OF inv f(1) rem f'(3,2)]
      unfolding dir_remove_crdt_def by metis
    have "nodes d' = nodes d \<union> Pair ?p ` {}"
      by (rule nodes_upd [OF d'(4) f(1)]) (auto simp: f'(4) mark_deleted_def)
    moreover have "tombs d' = tombs d \<union> Pair ?p ` {k}"
      by (rule tombs_upd [OF d'(4) f(1)]) (use f(2) in \<open>auto simp: f'(4) mark_deleted_def\<close>)
    moreover have "links d' = links d \<union> (\<lambda>(k, u). ((?p, k), u)) ` {}"
      by (rule links_upd [OF d'(4) f(1)]) (auto simp: f'(4) mark_deleted_links)
    ultimately show ?thesis using d' by auto
  qed
qed

end
