(* ===== verification/DrainLoop.thy ===== *)
theory DrainLoop
  imports Main
begin

text \<open>
  The shape of the two loops of the queue: while the worklist is not empty, its first item is taken
  off and processed, which may put it back to wait and may add waiting items to the worklist. An
  item that waits again does not lengthen the worklist, and only an item that is done can move
  others, so the pair of the number of pending items and the length of the worklist decreases.
\<close>

locale drain_loop =
  fixes items :: "'s \<Rightarrow> 'i list"
    and pop :: "'s \<Rightarrow> 's"
    and step :: "'i \<Rightarrow> 's \<Rightarrow> 's option"
    and pending :: "'s \<Rightarrow> nat"
    and drain :: "'s \<Rightarrow> 's option"
  assumes items_pop: "items s = i # is \<Longrightarrow> items (pop s) = is"
    and pending_pop: "items s = i # is \<Longrightarrow> pending s = Suc (pending (pop s))"
    and step_pending: "step i s = Some s' \<Longrightarrow>
      pending s' \<le> pending s \<or> pending s' = Suc (pending s) \<and> length (items s') = length (items s)"
    and drain_unfold:
      "drain s = (case items s of [] \<Rightarrow> Some s | i # _ \<Rightarrow> Option.bind (step i (pop s)) drain)"
begin

definition turn :: "('s \<times> 's) set" where
  "turn = {(s', s). \<exists>i is. items s = i # is \<and> step i (pop s) = Some s'}"

lemma turn_decreases:
  "(s', s) \<in> turn \<Longrightarrow> pending s' < pending s \<or>
     pending s' = pending s \<and> length (items s') < length (items s)"
  using step_pending by (fastforce simp: turn_def pending_pop items_pop)

lemma wf_turn: "wf turn"
proof (rule wf_subset)
  show "wf (inv_image (less_than <*lex*> less_than) (\<lambda>s. (pending s, length (items s))))"
    by (intro wf_inv_image wf_lex_prod wf_less_than)
  show "turn \<subseteq> inv_image (less_than <*lex*> less_than) (\<lambda>s. (pending s, length (items s)))"
    using turn_decreases by (auto simp: inv_image_def)
qed

text \<open>An invariant of the turns is one of the loop, which ends with an empty worklist.\<close>

lemma drain_invariant:
  assumes "P s" "drain s = Some s'"
    and step: "\<And>s i is s'. P s \<Longrightarrow> items s = i # is \<Longrightarrow> step i (pop s) = Some s' \<Longrightarrow> P s'"
  shows "P s' \<and> items s' = []"
  using wf_turn assms(1,2)
proof (induction s rule: wf_induct_rule)
  case (less s)
  show ?case
  proof (cases "items s")
    case Nil
    with less.prems show ?thesis by (simp add: drain_unfold [of s])
  next
    case (Cons i "is")
    with less.prems obtain t where t: "step i (pop s) = Some t" "drain t = Some s'"
      by (auto simp: drain_unfold [of s] bind_eq_Some_conv)
    with Cons have "(t, s) \<in> turn" by (auto simp: turn_def)
    with less.IH step [OF less.prems(1) Cons t(1)] t(2) show ?thesis by blast
  qed
qed

text \<open>When no turn panics the loop returns.\<close>

lemma drain_returns:
  assumes "P s"
    and step: "\<And>s i is. P s \<Longrightarrow> items s = i # is \<Longrightarrow> \<exists>s'. step i (pop s) = Some s' \<and> P s'"
  shows "\<exists>s'. drain s = Some s' \<and> P s' \<and> items s' = []"
  using wf_turn assms(1)
proof (induction s rule: wf_induct_rule)
  case (less s)
  show ?case
  proof (cases "items s")
    case Nil
    with less.prems show ?thesis by (simp add: drain_unfold [of s])
  next
    case (Cons i "is")
    with step [OF less.prems Cons] obtain t where t: "step i (pop s) = Some t" "P t" by blast
    with Cons have "(t, s) \<in> turn" by (auto simp: turn_def)
    with less.IH t(2) obtain s' where "drain t = Some s'" "P s'" "items s' = []" by blast
    with Cons t(1) show ?thesis by (intro exI [of _ s']) (simp add: drain_unfold [of s])
  qed
qed

end

end
