(* ===== verification/NetworkQueue.thy ===== *)
theory NetworkQueue
  imports SharQueue FileStore DrainLoop
begin

text \<open>
  The network side of the queue. Messages may arrive in any order: whatever cannot be applied waits
  under what it depends on, and what waits is retried when this arrives. The invariant says that no
  waiting message could be applied; that no message is lost is proved beside it.
\<close>

section \<open>Messages\<close>

fun op_file :: "network_op \<Rightarrow> path" where
  "op_file (ADD a) = na_file_path a"
| "op_file (REMOVE r) = rm_file_path r"

fun waits_for :: "network_op \<Rightarrow> key" where
  "waits_for (ADD a) = parent_key (crdt_relation (na_crdt a))"
| "waits_for (REMOVE r) = rm_key r"

text \<open>A message with its path resolved against the shar's root, as the queue keeps it.\<close>

fun localised :: "path \<Rightarrow> network_op \<Rightarrow> network_op" where
  "localised b (ADD a) = ADD (a\<lparr>na_file_path := join b (na_file_path a)\<rparr>)"
| "localised b (REMOVE r) = REMOVE (r\<lparr>rm_file_path := join b (rm_file_path r)\<rparr>)"

definition op_dep :: "path \<Rightarrow> network_op \<Rightarrow> path \<times> key" where
  "op_dep b op = (join b (op_file op), waits_for op)"

definition in_shar :: "path \<Rightarrow> network_op \<Rightarrow> bool" where
  "in_shar b op \<longleftrightarrow> (\<exists>rel. join b (op_file op) = b @ rel)"

text \<open>The message has been carried out on a tree.\<close>

fun applied :: "path \<Rightarrow> shar_directory \<Rightarrow> network_op \<Rightarrow> bool" where
  "applied b t (ADD a) \<longleftrightarrow>
     crdt_key (na_crdt a) = root \<or> (join b (na_file_path a), crdt_key (na_crdt a)) \<in> nodes t"
| "applied b t (REMOVE r) \<longleftrightarrow> rm_key r = root \<or> (join b (rm_file_path r), rm_key r) \<in> tombs t"

definition removal_targets :: "path \<Rightarrow> network_op set \<Rightarrow> (path \<times> key) set" where
  "removal_targets b S = {op_dep b (REMOVE r) | r. REMOVE r \<in> S \<and> rm_key r \<noteq> root}"

definition links_of :: "path \<Rightarrow> network_op set \<Rightarrow> link set" where
  "links_of b S = {((join b (na_file_path a), crdt_key (na_crdt a)),
     cr_value (crdt_relation (na_crdt a)), parent_key (crdt_relation (na_crdt a))) | a.
     ADD a \<in> S \<and> crdt_key (na_crdt a) \<noteq> root}"

text \<open>
  A set of messages for files of the shar at \<open>b\<close> in which every insertion is accepted where it hangs,
  even when all characters of \<open>L\<close> and of the messages are there and all of \<open>T\<close> and what the messages
  remove is removed: characters may be inserted below one that is removed at the same time.
\<close>

definition orderly :: "path \<Rightarrow> link set \<Rightarrow> (path \<times> key) set \<Rightarrow> network_op set \<Rightarrow> bool" where
  "orderly b L T S \<longleftrightarrow>
     is_absolute b \<and>
     (\<forall>op \<in> S. in_shar b op \<and> localised b op \<in> S) \<and>
     (\<forall>a. ADD a \<in> S \<longrightarrow> \<not> cr_deleted (crdt_relation (na_crdt a)) \<and>
        accepts (L \<union> links_of b S) (T \<union> removal_targets b S) (join b (na_file_path a))
          (crdt_relation (na_crdt a)))"

lemma removal_targets_insert [simp]:
  "removal_targets b {} = {}"
  "removal_targets b (insert (ADD a) S) = removal_targets b S"
  "removal_targets b (insert (REMOVE r) S) =
     (if rm_key r = root then removal_targets b S
      else insert (join b (rm_file_path r), rm_key r) (removal_targets b S))"
  by (auto simp: removal_targets_def op_dep_def)

lemma links_of_insert [simp]:
  "links_of b {} = {}"
  "links_of b (insert (REMOVE r) S) = links_of b S"
  "links_of b (insert (ADD a) S) =
     (if crdt_key (na_crdt a) = root then links_of b S
      else insert ((join b (na_file_path a), crdt_key (na_crdt a)), cr_value (crdt_relation (na_crdt a)),
        parent_key (crdt_relation (na_crdt a))) (links_of b S))"
  unfolding links_of_def by auto

lemma links_of_iff:
  "(x, v, par) \<in> links_of b S \<longleftrightarrow> (\<exists>a. ADD a \<in> S \<and> crdt_key (na_crdt a) \<noteq> root \<and>
     x = (join b (na_file_path a), crdt_key (na_crdt a)) \<and> v = cr_value (crdt_relation (na_crdt a)) \<and>
     par = parent_key (crdt_relation (na_crdt a)))"
  unfolding links_of_def mem_Collect_eq prod.inject by (rule iffI; elim exE conjE; intro exI conjI; assumption)

lemma join_below: "is_absolute b \<Longrightarrow> join b (b @ rel) = b @ rel"
  by simp

lemma join_again:
  assumes "is_absolute b" "in_shar b op"
  shows "join b (join b (op_file op)) = join b (op_file op)"
proof -
  obtain rel where "join b (op_file op) = b @ rel" using assms(2) by (auto simp: in_shar_def)
  with join_below [OF assms(1)] show ?thesis by metis
qed

lemma localised_idem:
  "is_absolute b \<Longrightarrow> in_shar b op \<Longrightarrow> localised b (localised b op) = localised b op"
  using join_again [of b op] by (cases op) simp_all

lemma op_file_localised: "op_file (localised b op) = join b (op_file op)"
  by (cases op) simp_all

lemma waits_for_localised [simp]: "waits_for (localised b op) = waits_for op"
  by (cases op) (simp_all add: rm_key_def)

lemma localised_simps [simp]:
  assumes "is_absolute b" "in_shar b op"
  shows "op_dep b (localised b op) = op_dep b op" "in_shar b (localised b op)"
    "applied b t (localised b op) = applied b t op"
proof -
  note again = join_again [OF assms]
  show "op_dep b (localised b op) = op_dep b op"
    by (simp add: op_dep_def op_file_localised again)
  show "in_shar b (localised b op)"
    using assms(2) unfolding in_shar_def op_file_localised again .
  show "applied b t (localised b op) = applied b t op"
    using again by (cases op) (simp_all add: rm_key_def)
qed

lemma applied_mono:
  "applied b t op \<Longrightarrow> nodes t \<subseteq> nodes t' \<Longrightarrow> tombs t \<subseteq> tombs t' \<Longrightarrow> applied b t' op"
  by (cases op) auto

section \<open>The invariant\<close>

definition pending_ops :: "shar_queue \<Rightarrow> network_op set" where
  "pending_ops q = {x. bl.waiting (network_backlog q) x} \<union> set (network_worklist q)"

text \<open>What waits under a key depends on a character that its file does not have.\<close>

definition all_blocked :: "path \<Rightarrow> shar_queue \<Rightarrow> bool" where
  "all_blocked b q \<longleftrightarrow>
     bl.sorted_by (\<lambda>k op. k = waits_for op \<and> op_dep b op \<notin> nodes (tree q))
       (network_backlog q)"

text \<open>The characters that messages can add to the characters \<open>N\<close>: what their parents carry.\<close>

inductive_set reachable :: "path \<Rightarrow> (path \<times> key) set \<Rightarrow> network_op set \<Rightarrow> (path \<times> key) set"
  for b N S where
    reach_old: "x \<in> N \<Longrightarrow> x \<in> reachable b N S"
  | reach_new: "ADD a \<in> S \<Longrightarrow> op_dep b (ADD a) \<in> reachable b N S \<Longrightarrow> crdt_key (na_crdt a) \<noteq> root \<Longrightarrow>
      (join b (na_file_path a), crdt_key (na_crdt a)) \<in> reachable b N S"

text \<open>No id of the tree is above the counter.\<close>

definition ids_counted :: "shar_queue \<Rightarrow> bool" where
  "ids_counted q \<longleftrightarrow> (\<forall>x \<in> nodes (tree q). fst (snd x) \<le> counter q)"

definition queue_inv ::
  "path \<Rightarrow> link set \<Rightarrow> (path \<times> key) set \<Rightarrow> (path \<times> key) set \<Rightarrow> network_op set \<Rightarrow> shar_queue \<Rightarrow> bool"
where
  "queue_inv b L N T S q \<longleftrightarrow>
     tree_inv (tree q) \<and> tree_root q = b \<and> network_add_callback q \<and> network_remove_callback q \<and>
     all_blocked b q \<and> pending_ops q \<subseteq> S \<and> N \<subseteq> nodes (tree q) \<and>
     nodes (tree q) \<subseteq> reachable b N S \<and> T \<subseteq> tombs (tree q) \<and>
     tombs (tree q) \<subseteq> T \<union> removal_targets b S \<and> links (tree q) \<subseteq> L \<union> links_of b S \<and> ids_counted q"

lemma inv_frame [simp]:
  "pending_ops (q\<lparr>counter := c\<rparr>) = pending_ops q"
  "pending_ops (q\<lparr>events := es\<rparr>) = pending_ops q"
  "queue_inv b L N T S (q\<lparr>events := es\<rparr>) = queue_inv b L N T S q"
  by (simp_all add: queue_inv_def all_blocked_def pending_ops_def tree_root_def ids_counted_def)

lemma inv_counter:
  "queue_inv b L N T S q \<Longrightarrow> counter q \<le> c \<Longrightarrow> queue_inv b L N T S (q\<lparr>counter := c\<rparr>)"
  by (auto simp: queue_inv_def all_blocked_def tree_root_def ids_counted_def intro: order.trans)

text \<open>A message that arrived is carried out, or waits.\<close>

definition settled :: "path \<Rightarrow> shar_queue \<Rightarrow> network_op \<Rightarrow> bool" where
  "settled b q op \<longleftrightarrow> localised b op \<in> pending_ops q \<or> applied b (tree q) op"

text \<open>Progress of a queue: the tree and the waiting messages only grow.\<close>

definition grows :: "shar_queue \<Rightarrow> shar_queue \<Rightarrow> bool" where
  "grows q q' \<longleftrightarrow>
     pending_ops q \<subseteq> pending_ops q' \<and> nodes (tree q) \<subseteq> nodes (tree q') \<and>
     tombs (tree q) \<subseteq> tombs (tree q')"

lemma settled_grows: "settled b q op \<Longrightarrow> grows q q' \<Longrightarrow> settled b q' op"
  unfolding settled_def grows_def using applied_mono by blast

lemma pending_ops_dependants [simp]: "pending_ops (queue_dependants k q) = pending_ops q"
  using bl.waiting_take_out [of "network_backlog q" _ k]
  by (auto simp: pending_ops_def queue_dependants_def)

lemma tree_dependants [simp]:
  "tree (queue_dependants k q) = tree q" "tree_root (queue_dependants k q) = tree_root q"
  "network_add_callback (queue_dependants k q) = network_add_callback q"
  "network_remove_callback (queue_dependants k q) = network_remove_callback q"
  by (simp_all add: queue_dependants_def tree_root_def)

section \<open>One insertion\<close>

text \<open>A character below a known parent came into the tree: what waited for it leaves the backlog.\<close>

lemma inserted_inv:
  assumes S: "orderly b L T S" "ADD a \<in> S" and q: "queue_inv b L N T S q" "crdt_id (na_crdt a) \<le> counter q"
    and k: "k = crdt_key (na_crdt a)" "k \<noteq> root" and p: "p = join b (na_file_path a)"
    and t: "tree_inv t" "dir_name t = b" "nodes t = insert (p, k) (nodes (tree q))" "tombs t = tombs (tree q)"
      "links t = insert ((p, k), cr_value (crdt_relation (na_crdt a)),
        parent_key (crdt_relation (na_crdt a))) (links (tree q))"
    and dep: "(p, parent_key (crdt_relation (na_crdt a))) \<in> nodes (tree q)"
  shows "queue_inv b L N T S (queue_dependants k (q\<lparr>tree := t\<rparr>))"
proof -
  let ?q = "queue_dependants k (q\<lparr>tree := t\<rparr>)"
  have "bl.sorted_by (\<lambda>k op. k = waits_for op \<and> op_dep b op \<notin> nodes (tree q)) (network_backlog q)"
    using q(1) by (simp add: queue_inv_def all_blocked_def)
  from bl.sorted_by_take_out [OF this, of k]
  have "bl.sorted_by (\<lambda>k op. k = waits_for op \<and> op_dep b op \<notin> nodes t) (bl_remove k (network_backlog q))"
    by (rule bl.sorted_by_mono) (use t(3) in \<open>auto simp: bl_get_remove op_dep_def split: if_splits\<close>)
  then have "all_blocked b ?q" by (simp add: all_blocked_def queue_dependants_def)
  moreover have "(p, k) \<in> reachable b N S"
    using reach_new [OF S(2), of b N] q(1) k dep unfolding p by (auto simp: queue_inv_def op_dep_def)
  moreover have "ids_counted ?q"
    using q t(3) unfolding k(1) by (auto simp: queue_inv_def ids_counted_def queue_dependants_def crdt_key_def)
  moreover have "((p, k), cr_value (crdt_relation (na_crdt a)), parent_key (crdt_relation (na_crdt a)))
      \<in> links_of b S" using S(2) k unfolding links_of_def p by blast
  then have "links t \<subseteq> L \<union> links_of b S" using q(1) t(5) by (simp add: queue_inv_def)
  moreover have "pending_ops (q\<lparr>tree := t\<rparr>) = pending_ops q" by (simp add: pending_ops_def)
  ultimately show ?thesis
    using q(1) t(1-4) by (auto simp: queue_inv_def tree_root_def)
qed

lemma network_insert_inv:
  assumes S: "orderly b L T S" "ADD a \<in> S" and q: "queue_inv b L N T S q"
  shows "\<exists>q' r. network_insert a q = Some (q', r) \<and> network_worklist q' = network_worklist q \<and>
    grows q q' \<and> settled b q' (ADD a) \<and>
    (case r of None \<Rightarrow> queue_inv b L N T S q' | Some k \<Rightarrow> queue_inv b L N T S (queue_dependants k q'))"
proof -
  let ?c = "na_crdt a" and ?p = "join b (na_file_path a)"
  let ?a = "a\<lparr>na_file_path := ?p\<rparr>"
  let ?q = "q\<lparr>counter := max (counter q) (crdt_id ?c)\<rparr>"
  have inv: "tree_inv (tree q)" "tree_root q = b" "dir_name (tree q) = b" "network_add_callback q"
    using q by (auto simp: queue_inv_def tree_root_def)
  have live: "\<not> cr_deleted (crdt_relation ?c)"
    and all: "accepts (L \<union> links_of b S) (T \<union> removal_targets b S) ?p (crdt_relation ?c)"
    using S by (auto simp: orderly_def)
  have dep: "accepts (links (tree q)) (tombs (tree q)) ?p (crdt_relation ?c)"
    by (rule accepts_mono [OF all]) (use q in \<open>simp_all add: queue_inv_def\<close>)
  obtain rel where rel: "?p = b @ rel" using S by (auto simp: orderly_def in_shar_def)
  have aS: "ADD ?a \<in> S" using S by (fastforce simp: orderly_def)
  have q1: "queue_inv b L N T S ?q" by (rule inv_counter [OF q]) simp
  have local: "to_local_path q (na_file_path a) = ?p" by (simp add: to_local_path_def inv)
  show ?thesis
  proof (cases "crdt_key ?c = root")
    case True
    then have "network_insert a q = Some (?q, None)" by (simp add: network_insert_def Let_def)
    then show ?thesis using True q1 by (simp add: grows_def settled_def)
  next
    case nonroot: False
    have t: "tree_inv (tree q)"
      "accepts (links (tree q)) (tombs (tree q)) (dir_name (tree q) @ rel) (crdt_relation ?c)"
      using inv dep rel by simp_all
    show ?thesis
    proof (cases rule: store.add_cases [OF t live, of "na_row a", case_names failed repeated inserted])
      case (failed e)
      let ?q' = "?q\<lparr>network_backlog := bl_push (parent_key (crdt_relation ?c)) (ADD ?a) (network_backlog q)\<rparr>"
      have run: "network_insert a q = Some (?q', None)"
        using failed nonroot inv rel by (simp add: network_insert_def Let_def local)
      have pend: "pending_ops ?q' = insert (ADD ?a) (pending_ops q)"
        by (auto simp: pending_ops_def bl.waiting_push)
      have "op_dep b (ADD ?a) \<notin> nodes (tree q)"
        using failed inv rel S(1) by (simp add: op_dep_def orderly_def)
      then have "all_blocked b ?q'"
        using q inv unfolding all_blocked_def queue_inv_def
        by (auto simp: tree_root_def intro: bl.sorted_by_push)
      then have "queue_inv b L N T S ?q'"
        using q1 pend aS by (auto simp: queue_inv_def tree_root_def ids_counted_def)
      moreover have "grows q ?q'" "settled b ?q' (ADD a)"
        using pend by (auto simp: grows_def settled_def)
      ultimately show ?thesis using run by (intro exI [of _ ?q'] exI [of _ None]) simp
    next
      case repeated
      have run: "network_insert a q = Some (?q, None)"
        using repeated nonroot inv rel by (simp add: network_insert_def Let_def local)
      moreover have "settled b ?q (ADD a)" using repeated inv rel by (simp add: settled_def)
      ultimately show ?thesis using q1 by (simp add: grows_def)
    next
      case (inserted t' p)
      have add: "dir_add_crdt (tree q) ?p (na_row a) ?c = Some (t', Inr (Some p))"
        using inserted(1) inv(3) rel by simp
      obtain pred where pred: "dir_predecessor_identity t' ?p p = Some pred"
        using inserted(7) inv(3) rel by auto
      define e where "e = Network_added (case pred of
          Inr (Some k) \<Rightarrow> ?a\<lparr>na_crdt := with_parent (na_crdt ?a) k\<rparr> | _ \<Rightarrow> ?a)"
      define q' where "q' = ?q\<lparr>tree := t', events := events q @ [e]\<rparr>"
      have run: "network_insert a q = Some (q', Some (crdt_key ?c))"
        using add pred nonroot inv(4)
        by (simp add: network_insert_def Let_def local fire_def q'_def e_def)
      have bk: "network_backlog q' = network_backlog q" "tree q' = t'"
        "network_worklist q' = network_worklist q" "tree_root q' = b"
        using inserted(3) inv by (simp_all add: q'_def tree_root_def)
      have pend: "pending_ops q' = pending_ops q" by (simp add: pending_ops_def bk)
      have "queue_inv b L N T S (queue_dependants (crdt_key ?c) (?q\<lparr>tree := t'\<rparr>))"
        by (rule inserted_inv [OF S q1 _ refl nonroot refl inserted(2)])
          (use inserted(3-6,8) inv rel in simp_all)
      then have "queue_inv b L N T S (queue_dependants (crdt_key ?c) q')"
        by (simp add: q'_def queue_dependants_def queue_inv_def all_blocked_def pending_ops_def
            tree_root_def ids_counted_def)
      moreover have "settled b q' (ADD a)" using inserted(4) inv rel bk by (simp add: settled_def)
      moreover have "grows q q'" using inserted(4,5) pend bk by (auto simp: grows_def)
      ultimately show ?thesis using run bk
        by (intro exI [of _ q'] exI [of _ "Some (crdt_key ?c)"]) simp
    qed
  qed
qed

section \<open>One removal\<close>

lemma remove_operation_inv:
  assumes S: "orderly b L T S" "REMOVE r \<in> S" and q: "queue_inv b L N T S q"
    and path: "rm_file_path r = b @ rel"
  shows "\<exists>q' res. remove_operation r q = Some (q', res) \<and> grows q q' \<and> queue_inv b L N T S q' \<and>
    network_worklist q' = network_worklist q \<and> settled b q' (REMOVE r) \<and>
    ide_remove_callback q' = ide_remove_callback q"
proof -
  have inv: "tree_inv (tree q)" "tree_root q = b" "dir_name (tree q) = b"
    using q by (auto simp: queue_inv_def tree_root_def)
  have same: "join b (b @ rel) = b @ rel" using S(1) join_below by (auto simp: orderly_def)
  show ?thesis
  proof (cases "rm_key r = root")
    case True
    then show ?thesis using q
      by (simp add: remove_operation_def grows_def settled_def)
  next
    case False
    show ?thesis
    proof (cases rule: store.remove_cases [OF inv(1) False, of rel "rm_row r", case_names failed removed])
      case (failed e)
      let ?q' = "q\<lparr>network_backlog := bl_push (rm_key r) (REMOVE r) (network_backlog q)\<rparr>"
      have run: "remove_operation r q = Some (?q', None)"
        using failed False inv path by (simp add: remove_operation_def)
      have pend: "pending_ops ?q' = insert (REMOVE r) (pending_ops q)"
        by (auto simp: pending_ops_def bl.waiting_push)
      have "op_dep b (REMOVE r) \<notin> nodes (tree q)"
        using failed inv path same by (simp add: op_dep_def)
      then have "all_blocked b ?q'"
        using q inv unfolding all_blocked_def queue_inv_def
        by (auto simp: tree_root_def intro: bl.sorted_by_push)
      then have "queue_inv b L N T S ?q'"
        using q pend S(2) by (auto simp: queue_inv_def tree_root_def ids_counted_def)
      moreover have "localised b (REMOVE r) = REMOVE r" using path same by simp
      ultimately show ?thesis using run pend
        by (intro exI [of _ ?q'] exI [of _ None]) (auto simp: grows_def settled_def)
    next
      case (removed t' res)
      let ?q' = "q\<lparr>tree := t'\<rparr>"
      have run: "remove_operation r q = Some (?q', res)"
        using removed(1) False inv(3) path by (simp add: remove_operation_def)
      have pend: "pending_ops ?q' = pending_ops q" by (simp add: pending_ops_def)
      have target: "(b @ rel, rm_key r) \<in> removal_targets b S"
        using S(2) path same False by (force simp: removal_targets_def op_dep_def)
      have "all_blocked b ?q'"
        using q removed(3,4) by (simp add: queue_inv_def all_blocked_def tree_root_def)
      then have "queue_inv b L N T S ?q'"
        using q removed(2-6) pend target inv by (auto simp: queue_inv_def tree_root_def ids_counted_def)
      moreover have "settled b ?q' (REMOVE r)"
        using removed(5) inv path same by (simp add: settled_def)
      ultimately show ?thesis using run pend removed(4,5)
        by (intro exI [of _ ?q'] exI [of _ res]) (auto simp: grows_def)
    qed
  qed
qed

lemma grows_refl [simp]: "grows q q"
  by (simp add: grows_def)

lemma grows_trans: "grows q r \<Longrightarrow> grows r s \<Longrightarrow> grows q s"
  by (auto simp: grows_def)

lemma remove_network_inv:
  assumes S: "orderly b L T S" "REMOVE r \<in> S" and q: "queue_inv b L N T S q"
  shows "\<exists>q'. remove_network_operation r q = Some q' \<and> grows q q' \<and> queue_inv b L N T S q' \<and>
    network_worklist q' = network_worklist q \<and> settled b q' (REMOVE r)"
proof -
  let ?r = "r\<lparr>rm_file_path := join b (rm_file_path r)\<rparr>"
  have root: "tree_root q = b" using q by (simp add: queue_inv_def)
  have shar: "in_shar b (REMOVE r)" "localised b (REMOVE r) = REMOVE ?r" "is_absolute b"
    using S by (auto simp: orderly_def)
  then obtain rel where rel: "rm_file_path ?r = b @ rel" by (auto simp: in_shar_def)
  have "REMOVE ?r \<in> S" using S shar(2) by (auto simp: orderly_def)
  from remove_operation_inv [OF S(1) this q rel] obtain q1 res where
    q1: "remove_operation ?r q = Some (q1, res)" "grows q q1" "queue_inv b L N T S q1"
      "network_worklist q1 = network_worklist q" "settled b q1 (REMOVE ?r)" by blast
  have "localised b (REMOVE ?r) = localised b (REMOVE r)"
    using localised_idem [OF shar(3,1)] shar(2) by simp
  moreover have "applied b (tree q1) (REMOVE ?r) = applied b (tree q1) (REMOVE r)"
    using localised_simps(3) [OF shar(3,1), of "tree q1"] shar(2) by simp
  ultimately have settled: "settled b q1 (REMOVE r)" using q1(5) unfolding settled_def by simp
  have cb: "network_remove_callback q1" using q1(3) by (simp add: queue_inv_def)
  show ?thesis
  proof (cases res)
    case None
    then show ?thesis using q1 settled
      by (simp add: remove_network_operation_def Let_def to_local_path_def root)
  next
    case (Some p)
    let ?q' = "q1\<lparr>events := events q1 @ [Network_removed ?r]\<rparr>"
    have "remove_network_operation r q = Some ?q'"
      using q1(1) Some cb
      by (simp add: remove_network_operation_def Let_def to_local_path_def root fire_def)
    moreover have "grows q ?q'" "settled b ?q' (REMOVE r)"
      using q1(2) settled by (simp_all add: grows_def settled_def)
    ultimately show ?thesis using q1(3,4) by (intro exI [of _ ?q']) simp
  qed
qed

section \<open>The loop\<close>

interpretation net_loop: drain_loop network_worklist
  "\<lambda>q. q\<lparr>network_worklist := tl (network_worklist q)\<rparr>" network_item network_pending
  drain_network_worklist
proof
  fix q q' :: shar_queue and item items
  show "drain_network_worklist q = (case network_worklist q of [] \<Rightarrow> Some q
      | i # _ \<Rightarrow> Option.bind (network_item i (q\<lparr>network_worklist := tl (network_worklist q)\<rparr>))
          drain_network_worklist)"
    by (subst drain_network_worklist.simps) (auto split: list.splits option.splits)
  show "network_item item q = Some q' \<Longrightarrow> network_pending q' \<le> network_pending q \<or>
      network_pending q' = Suc (network_pending q) \<and>
      length (network_worklist q') = length (network_worklist q)"
    by (rule network_item_pending)
qed (auto simp: network_pending_def)

lemma settled_item:
  assumes "settled b q x" "network_worklist q = item # items"
    and "grows (q\<lparr>network_worklist := items\<rparr>) q'" "settled b q' item"
    and b: "is_absolute b" "in_shar b x"
  shows "settled b q' x"
proof -
  consider "localised b x = item" | "settled b (q\<lparr>network_worklist := items\<rparr>) x"
    using assms(1,2) by (auto simp: settled_def pending_ops_def)
  then show ?thesis
  proof cases
    case 1
    then have "settled b q' (localised b x)" using assms(4) by simp
    then show ?thesis using localised_idem [OF b] b by (simp add: settled_def)
  next
    case 2
    then show ?thesis using assms(3) by (rule settled_grows)
  qed
qed

text \<open>One turn keeps the invariant and every message that arrived.\<close>

definition served ::
  "path \<Rightarrow> link set \<Rightarrow> (path \<times> key) set \<Rightarrow> (path \<times> key) set \<Rightarrow> network_op set \<Rightarrow> network_op set \<Rightarrow> shar_queue \<Rightarrow> bool"
where
  "served b L N T S M q \<longleftrightarrow> queue_inv b L N T S q \<and> (\<forall>x \<in> M. settled b q x)"

lemma network_item_serves:
  assumes S: "orderly b L T S" "M \<subseteq> S" and q: "served b L N T S M q"
    and w: "network_worklist q = item # items"
  shows "\<exists>q'. network_item item (q\<lparr>network_worklist := items\<rparr>) = Some q' \<and> served b L N T S M q'"
proof -
  let ?q = "q\<lparr>network_worklist := items\<rparr>"
  have inv: "queue_inv b L N T S ?q" "item \<in> S"
    using q w
    by (auto simp: served_def queue_inv_def all_blocked_def pending_ops_def tree_root_def ids_counted_def)
  have "\<exists>q'. network_item item ?q = Some q' \<and> grows ?q q' \<and> queue_inv b L N T S q' \<and> settled b q' item"
  proof (cases item)
    case (ADD a)
    with network_insert_inv [OF S(1) _ inv(1), of a] inv(2) obtain q1 r where
      r: "network_insert a ?q = Some (q1, r)" "grows ?q q1" "settled b q1 item"
        "case r of None \<Rightarrow> queue_inv b L N T S q1 | Some k \<Rightarrow> queue_inv b L N T S (queue_dependants k q1)"
      by blast
    then show ?thesis
      by (cases r) (simp_all add: ADD network_item_def grows_def settled_def)
  next
    case (REMOVE r)
    with remove_network_inv [OF S(1) _ inv(1), of r] inv(2) show ?thesis
      by (auto simp: network_item_def)
  qed
  then obtain q' where q': "network_item item ?q = Some q'" "grows ?q q'" "queue_inv b L N T S q'"
    "settled b q' item" by blast
  have "settled b q' x" if "x \<in> M" for x
    by (rule settled_item [OF _ w q'(2,4)])
      (use that q S in \<open>auto simp: served_def orderly_def\<close>)
  with q' show ?thesis by (auto simp: served_def)
qed

lemma drain_serves:
  assumes "orderly b L T S" "M \<subseteq> S" "served b L N T S M q"
  shows "\<exists>q'. drain_network_worklist q = Some q' \<and> served b L N T S M q' \<and> network_worklist q' = []"
  by (rule net_loop.drain_returns [where P = "served b L N T S M", OF assms(3)]) (use network_item_serves [OF assms(1,2)] in simp)

section \<open>Whole operations\<close>

lemma queue_dependants_none:
  "map_of (network_backlog q) k = None \<Longrightarrow> queue_dependants k q = q"
  by (simp add: queue_dependants_def bl_get_def bl_remove_none)

lemma settled_dependants [simp]: "settled b (queue_dependants k q) x = settled b q x"
  by (simp add: settled_def)

lemma add_network_serves:
  assumes S: "orderly b L T S" "M \<subseteq> S" "ADD a \<in> S" and q: "served b L N T S M q" "network_worklist q = []"
  shows "\<exists>q'. add_network_operation a q = Some q' \<and> served b L N T S (insert (ADD a) M) q' \<and>
    network_worklist q' = []"
proof -
  have "queue_inv b L N T S q" using q(1) by (simp add: served_def)
  from network_insert_inv [OF S(1,3) this] q(2) obtain q1 r where
    r: "network_insert a q = Some (q1, r)" "grows q q1" "settled b q1 (ADD a)"
      "case r of None \<Rightarrow> queue_inv b L N T S q1 | Some k \<Rightarrow> queue_inv b L N T S (queue_dependants k q1)"
      "network_worklist q1 = []" by metis
  have all: "settled b q1 x" if "x \<in> insert (ADD a) M" for x
    using that q(1) r(2,3) settled_grows by (auto simp: served_def)
  show ?thesis
  proof (cases r)
    case None
    then show ?thesis using r all by (auto simp: add_network_operation_def served_def)
  next
    case (Some k)
    let ?q = "queue_dependants k q1"
    have "served b L N T S (insert (ADD a) M) ?q" using r(4) Some all by (simp add: served_def)
    moreover have "insert (ADD a) M \<subseteq> S" using S by simp
    ultimately obtain q' where q': "drain_network_worklist ?q = Some q'"
      "served b L N T S (insert (ADD a) M) q'" "network_worklist q' = []"
      using drain_serves [OF S(1)] by blast
    show ?thesis
    proof (cases "map_of (network_backlog q1) k")
      case None
      then have "?q = q1" by (rule queue_dependants_none)
      then have "q' = q1" using q'(1) r(5) by (subst (asm) drain_network_worklist.simps) simp
      then show ?thesis
        using q' r(1) Some None by (simp add: add_network_operation_def clear_network_backlog_def)
    next
      case (Some l)
      then show ?thesis
        using q' r(1) \<open>r = Some k\<close> by (simp add: add_network_operation_def clear_network_backlog_def)
    qed
  qed
qed

lemma remove_network_serves:
  assumes S: "orderly b L T S" "M \<subseteq> S" "REMOVE r \<in> S" and q: "served b L N T S M q" "network_worklist q = []"
  shows "\<exists>q'. remove_network_operation r q = Some q' \<and> served b L N T S (insert (REMOVE r) M) q' \<and>
    network_worklist q' = []"
proof -
  have "queue_inv b L N T S q" using q(1) by (simp add: served_def)
  from remove_network_inv [OF S(1,3) this] q(2) obtain q' where
    q': "remove_network_operation r q = Some q'" "grows q q'" "queue_inv b L N T S q'"
      "network_worklist q' = []" "settled b q' (REMOVE r)" by metis
  then show ?thesis using q(1) settled_grows by (auto simp: served_def)
qed

text \<open>A message of the network, and a sequence of them.\<close>

definition receive :: "network_op \<Rightarrow> shar_queue \<Rightarrow> shar_queue option" where
  "receive op q =
     (case op of ADD a \<Rightarrow> add_network_operation a q | REMOVE r \<Rightarrow> remove_network_operation r q)"

fun receive_all :: "network_op list \<Rightarrow> shar_queue \<Rightarrow> shar_queue option" where
  "receive_all [] q = Some q"
| "receive_all (m # ms) q = Option.bind (receive m q) (receive_all ms)"

text \<open>
  Relations between the queue before and after that every call of the network side respects: they are
  kept by its loop and by whole sequences of messages once they are by its parts.
\<close>

locale network_relation =
  fixes R :: "shar_queue \<Rightarrow> shar_queue \<Rightarrow> bool"
  assumes related_refl: "R q q"
    and related_trans: "R q r \<Longrightarrow> R r s \<Longrightarrow> R q s"
    and related_pop: "R q (q\<lparr>network_worklist := w\<rparr>)"
    and related_dependants: "R q (queue_dependants k q)"
    and related_insert: "network_insert a q = Some (q', k') \<Longrightarrow> R q q'"
    and related_remove: "remove_network_operation x q = Some q' \<Longrightarrow> R q q'"
begin

lemma related_item: "network_item i q = Some q' \<Longrightarrow> R q q'"
  by (auto simp: network_item_def split: network_op.splits option.splits
      intro: related_remove related_insert related_trans [OF related_insert related_dependants])

lemma related_drain: "drain_network_worklist q = Some q' \<Longrightarrow> R q q' \<and> network_worklist q' = []"
  by (rule net_loop.drain_invariant [where P = "R q"])
    (auto intro: related_refl related_trans [OF _ related_trans [OF related_pop related_item]])

lemma related_clear: "clear_network_backlog k q = Some q' \<Longrightarrow> R q q'"
  by (auto simp: clear_network_backlog_def related_refl split: option.splits dest!: related_drain
      intro: related_trans [OF related_dependants])

lemma related_add: "add_network_operation a q = Some q' \<Longrightarrow> R q q'"
  by (auto simp: add_network_operation_def split: option.splits
      intro: related_insert related_trans [OF related_insert related_clear])

lemma related_receive: "receive m q = Some q' \<Longrightarrow> R q q'"
  by (cases m) (auto simp: receive_def related_add related_remove)

lemma related_receive_all: "receive_all ms q = Some q' \<Longrightarrow> R q q'"
  by (induction ms arbitrary: q)
    (auto simp: related_refl elim!: bind_SomeE dest: related_receive intro: related_trans)

end

lemma receive_serves:
  assumes "orderly b L T S" "M \<subseteq> S" "m \<in> S" "served b L N T S M q" "network_worklist q = []"
  shows "\<exists>q'. receive m q = Some q' \<and> served b L N T S (insert m M) q' \<and> network_worklist q' = []"
  using assms add_network_serves remove_network_serves
  by (cases m) (simp_all add: receive_def)

lemma receive_all_serves:
  "orderly b L T S \<Longrightarrow> M \<subseteq> S \<Longrightarrow> set ms \<subseteq> S \<Longrightarrow> served b L N T S M q \<Longrightarrow> network_worklist q = [] \<Longrightarrow>
     \<exists>q'. receive_all ms q = Some q' \<and> served b L N T S (M \<union> set ms) q' \<and> network_worklist q' = []"
proof (induction ms arbitrary: q M)
  case (Cons m ms)
  from receive_serves [of b L T S M m N q] Cons.prems obtain q1 where
    q1: "receive m q = Some q1" "served b L N T S (insert m M) q1" "network_worklist q1 = []" by auto
  from Cons.IH [of "insert m M" q1] Cons.prems q1 show ?case by auto
qed simp

text \<open>A queue that was just opened.\<close>

lemma queue_of_served:
  assumes "tree_inv d" "dir_name d = b" "\<And>x. x \<in> nodes d \<Longrightarrow> fst (snd x) \<le> c"
  shows "served b (links d) (nodes d) (tombs d) S {} (queue_of d c p)"
  using assms
  by (auto simp: served_def queue_inv_def queue_of_def tree_root_def all_blocked_def
      pending_ops_def bl.sorted_by_def bl.waiting_def bl_get_def ids_counted_def
      intro: reach_old)

section \<open>What a run ends with\<close>

text \<open>The messages of a run, as they arrive and as they are kept.\<close>

definition universe :: "path \<Rightarrow> network_op list \<Rightarrow> network_op set" where
  "universe b ms = set ms \<union> localised b ` set ms"

text \<open>A run whose messages are for files of the shar and are accepted where they hang.\<close>

definition orderly_run :: "path \<Rightarrow> link set \<Rightarrow> (path \<times> key) set \<Rightarrow> network_op list \<Rightarrow> bool" where
  "orderly_run b L T ms \<longleftrightarrow>
     is_absolute b \<and> (\<forall>op \<in> set ms. in_shar b op) \<and>
     (\<forall>a. ADD a \<in> set ms \<longrightarrow> \<not> cr_deleted (crdt_relation (na_crdt a)) \<and>
        accepts (L \<union> links_of b (set ms)) (T \<union> removal_targets b (set ms)) (join b (na_file_path a))
          (crdt_relation (na_crdt a)))"

lemma universe_cases:
  assumes "x \<in> universe b ms"
  obtains y where "y \<in> set ms" "x = y \<or> x = localised b y"
  using assms by (auto simp: universe_def)

lemma localised_eq_ADD: "ADD a = localised b y \<Longrightarrow> \<exists>a0. y = ADD a0 \<and> na_crdt a = na_crdt a0"
  by (cases y) auto

lemma localised_eq_REMOVE: "REMOVE r = localised b y \<Longrightarrow> \<exists>r0. y = REMOVE r0"
  by (cases y) auto

lemma universe_add:
  assumes b: "is_absolute b" "\<forall>op \<in> set ms. in_shar b op" and a: "ADD a \<in> universe b ms"
  shows "\<exists>a0. ADD a0 \<in> set ms \<and> na_crdt a = na_crdt a0 \<and> join b (na_file_path a) = join b (na_file_path a0)"
  using a
proof (rule universe_cases)
  fix y assume y: "y \<in> set ms" "ADD a = y \<or> ADD a = localised b y"
  then obtain a0 where a0: "y = ADD a0" "na_crdt a = na_crdt a0"
    using localised_eq_ADD by blast
  moreover from y b have "op_dep b (ADD a) = op_dep b y" by (auto simp: localised_simps)
  ultimately show ?thesis using y(1) by (auto simp: op_dep_def)
qed

lemma universe_remove:
  assumes b: "is_absolute b" "\<forall>op \<in> set ms. in_shar b op" and r: "REMOVE r \<in> universe b ms"
  shows "\<exists>r0. REMOVE r0 \<in> set ms \<and> op_dep b (REMOVE r) = op_dep b (REMOVE r0)"
  using r
proof (rule universe_cases)
  fix y assume y: "y \<in> set ms" "REMOVE r = y \<or> REMOVE r = localised b y"
  then obtain r0 where r0: "y = REMOVE r0" using localised_eq_REMOVE by blast
  moreover from y b have "op_dep b (REMOVE r) = op_dep b y" by (auto simp: localised_simps)
  ultimately show ?thesis using y(1) by blast
qed

text \<open>Resolving the paths adds nothing to what the messages insert and remove.\<close>

lemma universe_same:
  assumes b: "is_absolute b" "\<forall>op \<in> set ms. in_shar b op"
  shows "removal_targets b (universe b ms) = removal_targets b (set ms)"
    "links_of b (universe b ms) = links_of b (set ms)"
proof -
  have sub: "set ms \<subseteq> universe b ms" by (simp add: universe_def)
  have key: "rm_key r = snd (op_dep b (REMOVE r))" for r by (simp add: op_dep_def)
  have "removal_targets b (universe b ms) \<subseteq> removal_targets b (set ms)"
    unfolding removal_targets_def key using universe_remove [OF b] by (smt (verit) Collect_mono)
  with sub show "removal_targets b (universe b ms) = removal_targets b (set ms)"
    unfolding removal_targets_def by blast
  have "links_of b (universe b ms) \<subseteq> links_of b (set ms)"
  proof
    fix x assume "x \<in> links_of b (universe b ms)"
    then obtain a where a: "ADD a \<in> universe b ms" "crdt_key (na_crdt a) \<noteq> root"
      "x = ((join b (na_file_path a), crdt_key (na_crdt a)),
        cr_value (crdt_relation (na_crdt a)), parent_key (crdt_relation (na_crdt a)))"
      unfolding links_of_def by blast
    with universe_add [OF b a(1)] show "x \<in> links_of b (set ms)" unfolding links_of_def by auto
  qed
  with sub show "links_of b (universe b ms) = links_of b (set ms)" unfolding links_of_def by blast
qed

lemma universe_orderly:
  assumes "orderly_run b L T ms"
  shows "orderly b L T (universe b ms)"
proof -
  have b: "is_absolute b" "\<forall>op \<in> set ms. in_shar b op" using assms by (auto simp: orderly_run_def)
  have "in_shar b op \<and> localised b op \<in> universe b ms" if "op \<in> universe b ms" for op
    using that
  proof (rule universe_cases)
    fix y assume y: "y \<in> set ms" "op = y \<or> op = localised b y"
    then show ?thesis
      using b localised_idem [of b y] by (auto simp: universe_def)
  qed
  moreover have "\<not> cr_deleted (crdt_relation (na_crdt a)) \<and>
      accepts (L \<union> links_of b (set ms)) (T \<union> removal_targets b (set ms)) (join b (na_file_path a))
        (crdt_relation (na_crdt a))" if "ADD a \<in> universe b ms" for a
    using universe_add [OF b that] assms by (auto simp: orderly_run_def)
  ultimately show ?thesis using b(1) unfolding orderly_def universe_same [OF b] by blast
qed

lemma pending_waits:
  "network_worklist q = [] \<Longrightarrow> x \<in> pending_ops q \<Longrightarrow> all_blocked b q \<Longrightarrow> op_dep b x \<notin> nodes (tree q)"
  by (auto simp: pending_ops_def bl.waiting_def all_blocked_def dest: bl.sorted_by_got)

lemma tombs_nodes: "tombs d \<subseteq> nodes d"
  by (auto simp: tombs_def nodes_def)

lemma tombs_not_root: "tree_inv d \<Longrightarrow> x \<in> tombs d \<Longrightarrow> snd x \<noteq> root"
  using tree_inv_file wf_fileD(1) wf_chars_root by (fastforce simp: tombs_def)

lemma settled_done:
  assumes "settled b q x" "network_worklist q = []" "all_blocked b q" "op_dep b x \<in> nodes (tree q)"
    and "is_absolute b" "in_shar b x"
  shows "applied b (tree q) x"
  using assms pending_waits [of q "localised b x" b] by (auto simp: settled_def localised_simps)

text \<open>
  A queue that was told of every insertion and every removal of the messages, by them or by others
  that say the same.
\<close>

lemma informed_nodes:
  assumes run: "orderly_run b L T ms" and q: "served b L N T (universe b ms) M q"
    and w: "network_worklist q = []" and M: "M \<subseteq> set ms" "links_of b (set ms) \<subseteq> links_of b M"
  shows "nodes (tree q) = reachable b N (universe b ms)"
proof
  have inv: "queue_inv b L N T (universe b ms) q" and set: "\<And>x. x \<in> M \<Longrightarrow> settled b q x"
    using q by (auto simp: served_def)
  have b: "is_absolute b" "\<forall>op \<in> set ms. in_shar b op" using run by (auto simp: orderly_run_def)
  show "nodes (tree q) \<subseteq> reachable b N (universe b ms)" using inv by (simp add: queue_inv_def)
  show "reachable b N (universe b ms) \<subseteq> nodes (tree q)"
  proof
    fix x assume "x \<in> reachable b N (universe b ms)"
    then show "x \<in> nodes (tree q)"
    proof (induction rule: reachable.induct)
      case (reach_old x)
      then show ?case using inv by (auto simp: queue_inv_def)
    next
      case (reach_new a)
      from universe_add [OF b reach_new(1)] obtain a0 where
        a0: "ADD a0 \<in> set ms" "na_crdt a = na_crdt a0" "join b (na_file_path a) = join b (na_file_path a0)"
        by blast
      let ?r = "crdt_relation (na_crdt a)"
      have "((join b (na_file_path a), crdt_key (na_crdt a)), cr_value ?r, parent_key ?r) \<in> links_of b (set ms)"
        unfolding links_of_iff by (intro exI [of _ a0]) (use a0 reach_new.hyps(3) in simp)
      then have "((join b (na_file_path a), crdt_key (na_crdt a)), cr_value ?r, parent_key ?r) \<in> links_of b M"
        using M(2) by (rule subsetD [rotated])
      then obtain a1 where a1: "ADD a1 \<in> M" "join b (na_file_path a1) = join b (na_file_path a)"
        "crdt_key (na_crdt a1) = crdt_key (na_crdt a)" "parent_key (crdt_relation (na_crdt a1)) = parent_key ?r"
        unfolding links_of_iff prod.inject by (elim exE conjE) (rule that; simp)
      then have dep: "op_dep b (ADD a1) \<in> nodes (tree q)" using reach_new.IH by (simp add: op_dep_def)
      have "all_blocked b q" "in_shar b (ADD a1)" using inv b(2) M(1) a1(1) by (auto simp: queue_inv_def)
      from settled_done [OF set [OF a1(1)] w this(1) dep b(1) this(2)]
      have "applied b (tree q) (ADD a1)" .
      then show ?case using a1(2,3) reach_new.hyps by simp
    qed
  qed
qed

lemma informed_tombs:
  assumes run: "orderly_run b L T ms" and q: "served b L N T (universe b ms) M q"
    and w: "network_worklist q = []"
    and M: "M \<subseteq> set ms" "removal_targets b (set ms) \<subseteq> T \<union> removal_targets b M"
  shows "tombs (tree q) = T \<union> (removal_targets b (set ms) \<inter> nodes (tree q))"
proof
  have inv: "queue_inv b L N T (universe b ms) q" and set: "\<And>x. x \<in> M \<Longrightarrow> settled b q x"
    using q by (auto simp: served_def)
  have b: "is_absolute b" "\<forall>op \<in> set ms. in_shar b op" using run by (auto simp: orderly_run_def)
  show "tombs (tree q) \<subseteq> T \<union> (removal_targets b (set ms) \<inter> nodes (tree q))"
    using inv tombs_nodes [of "tree q"] unfolding queue_inv_def universe_same [OF b] by blast
  have old: "T \<subseteq> tombs (tree q)" using inv by (simp add: queue_inv_def)
  have "x \<in> tombs (tree q)" if x: "x \<in> removal_targets b (set ms)" "x \<in> nodes (tree q)" "x \<notin> T" for x
  proof -
    have "x \<in> removal_targets b M" using x(1,3) M(2) by blast
    then obtain r where r: "REMOVE r \<in> M" "x = op_dep b (REMOVE r)" "rm_key r \<noteq> root"
      by (auto simp: removal_targets_def)
    have "all_blocked b q" using inv by (simp add: queue_inv_def)
    from settled_done [OF set [OF r(1)] w this _ b(1)] x(2) r b(2) M(1)
    have "applied b (tree q) (REMOVE r)" by blast
    then show ?thesis using r(2,3) by (simp add: op_dep_def)
  qed
  then show "T \<union> (removal_targets b (set ms) \<inter> nodes (tree q)) \<subseteq> tombs (tree q)" using old by blast
qed

lemmas run_nodes = informed_nodes [OF _ _ _ order.refl order.refl]
lemmas run_tombs = informed_tombs [OF _ _ _ order.refl Un_upper2]

text \<open>What each character is and where it hangs, when no two messages disagree about it.\<close>

lemma run_links:
  assumes run: "orderly_run b L T ms" and q: "served b L N T (universe b ms) M q"
    and L: "single_valued (L \<union> links_of b (set ms))"
  shows "links (tree q) = {l \<in> L \<union> links_of b (set ms). fst l \<in> nodes (tree q)}"
proof
  have b: "is_absolute b" "\<forall>op \<in> set ms. in_shar b op" using run by (auto simp: orderly_run_def)
  have sub: "links (tree q) \<subseteq> L \<union> links_of b (set ms)"
    using q unfolding served_def queue_inv_def universe_same [OF b] by blast
  then show "links (tree q) \<subseteq> {l \<in> L \<union> links_of b (set ms). fst l \<in> nodes (tree q)}"
    using links_node by fastforce
  show "{l \<in> L \<union> links_of b (set ms). fst l \<in> nodes (tree q)} \<subseteq> links (tree q)"
  proof
    fix l assume l: "l \<in> {l \<in> L \<union> links_of b (set ms). fst l \<in> nodes (tree q)}"
    then obtain u where u: "(fst l, u) \<in> links (tree q)" using node_links by blast
    then have "u = snd l"
      using l sub L unfolding single_valued_def by (metis (no_types, lifting) mem_Collect_eq prod.collapse subsetD)
    then show "l \<in> links (tree q)" using u by simp
  qed
qed

lemma run_served:
  assumes "orderly_run (dir_name d) (links d) (tombs d) ms" "tree_inv d" "\<And>x. x \<in> nodes d \<Longrightarrow> fst (snd x) \<le> c"
  shows "\<exists>q. receive_all ms (queue_of d c p) = Some q \<and>
    served (dir_name d) (links d) (nodes d) (tombs d) (universe (dir_name d) ms) (set ms) q \<and>
    network_worklist q = []"
proof -
  note S = universe_orderly [OF assms(1)]
  have "network_worklist (queue_of d c p) = []" by (simp add: queue_of_def)
  from receive_all_serves [OF S _ _ queue_of_served [OF assms(2) refl assms(3)] this, of ms]
  show ?thesis by (auto simp: universe_def)
qed

end
