(* ===== verification/IdeQueue.thy ===== *)
theory IdeQueue
  imports NetworkQueue
begin

text \<open>
  The IDE side of the queue: a typed character and a deletion on one replica, and the same operation
  arriving at another replica over the network.
\<close>

section \<open>One file of the tree\<close>

text \<open>The newest character of a file, inserted through the tree.\<close>

lemma dir_typed:
  assumes d: "tree_inv d" "lookup_file d (dir_name d @ rel) = Some f"
    and c: "insertable f c" "newest f c"
    and i: "i < length (flat f)" "flat f ! i = parent_key (crdt_relation c)"
  shows "\<exists>d' f' p. dir_add_crdt d (dir_name d @ rel) n c = Some (d', Inr (Some p)) \<and> tree_inv d' \<and>
    dir_name d' = dir_name d \<and> lookup_file d' = (lookup_file d)(dir_name d @ rel \<mapsto> f') \<and>
    inserted f c f' p \<and>
    flat f' = take (Suc i) (flat f) @ crdt_key c # drop (Suc i) (flat f) \<and>
    text_of f' = take i (text_of f) @ cr_value (crdt_relation c) # drop i (text_of f) \<and>
    dir_predecessor_identity d' (dir_name d @ rel) p =
      Some (Inr (Some (parent_key (crdt_relation c))))"
proof -
  note wf = tree_inv_file [OF d]
  obtain f' p where f': "inserted f c f' p" "\<And>n. add_crdt f n c = Some (f', Inr (Some p))"
    "flat f' = take (Suc i) (flat f) @ crdt_key c # drop (Suc i) (flat f)"
    "text_of f' = take i (text_of f) @ cr_value (crdt_relation c) # drop i (text_of f)"
    using typed_text [OF wf c i] by blast
  have w': "wf_file f'" "file_path f' = file_path f" "fst p < length (projection f')"
    "vec_get (projection f' ! fst p) (snd p) = Some (crdt_key c)"
    using f'(1) by (simp_all add: inserted_def)
  obtain d' where d': "dir_add_crdt d (dir_name d @ rel) n c = Some (d', Inr (Some p))" "tree_inv d'"
    "dir_name d' = dir_name d" "lookup_file d' = (lookup_file d)(dir_name d @ rel \<mapsto> f')"
    using tree_inv_update [where call = "\<lambda>f. add_crdt f n c", OF d f'(2) w'(2,1)]
    unfolding dir_add_crdt_def by metis
  have "take (Suc i) (flat f) \<noteq> []" "last (take (Suc i) (flat f)) = flat f ! i"
    using i(1) by (auto simp: take_Suc_conv_app_nth)
  with predecessor_identity_flat [OF w'(1,3,4) f'(3)] i(2)
  have pred: "predecessor_identity f' p = Some (parent_key (crdt_relation c))" by simp
  have "lookup_file d' (dir_name d' @ rel) = Some f'" using d'(3,4) by simp
  then obtain e where "on_file d' (dir_name d' @ rel) (\<lambda>f. Some (f, Inr (predecessor_identity f p))) =
      Some (e, Inr (predecessor_identity f' p) :: error + key option)"
    using tree_inv_update [where call = "\<lambda>f. Some (f, Inr (predecessor_identity f p) :: error + key option)",
        OF d'(2) _ refl refl w'(1)] by blast
  then have "dir_predecessor_identity d' (dir_name d @ rel) p =
      Some (Inr (Some (parent_key (crdt_relation c))))"
    using d'(3) pred by (simp add: dir_predecessor_identity_def)
  with d' f'(1,3,4) show ?thesis by blast
qed

lemma ids_counted_newest:
  assumes q: "ids_counted q" "lookup_file (tree q) p = Some f" and c: "counter q < i"
  shows "characters f (i, x) = None" "\<And>c. crdt_id c = i \<Longrightarrow> newest f c"
proof -
  have "ids_below f (counter q)"
    using q unfolding ids_counted_def ids_below_def nodes_def by fastforce
  with ids_below_fresh [OF this c] ids_below_newest [OF this] c
  show "characters f (i, x) = None" "\<And>c. crdt_id c = i \<Longrightarrow> newest f c" by auto
qed

section \<open>Typing\<close>

lemma relative_strip [simp]: "to_relative_path q (tree_root q @ rel) = rel"
  by (simp add: to_relative_path_def)

text \<open>A typed character on a queue in which nothing waits for it.\<close>

definition quiet_for :: "ide_add \<Rightarrow> shar_queue \<Rightarrow> bool" where
  "quiet_for op q \<longleftrightarrow>
     ide_worklist q = [] \<and> bl_get (ide_tag_backlog q) (ia_tag op) = [] \<and>
     map_of (ide_backlog q) (counter q + 1, peer q) = None \<and>
     ide_add_confirm_callback q \<and> ide_add_callback q"

text \<open>
  A queue with all callbacks set on which nothing of the IDE waits; and one on which nothing waits
  at all.
\<close>

definition calm :: "shar_queue \<Rightarrow> bool" where
  "calm q \<longleftrightarrow>
     ide_worklist q = [] \<and> ide_tag_backlog q = [] \<and> ide_backlog q = [] \<and>
     network_add_callback q \<and> network_remove_callback q \<and> ide_add_confirm_callback q \<and>
     ide_add_callback q \<and> ide_remove_callback q"

definition idle :: "shar_queue \<Rightarrow> bool" where
  "idle q \<longleftrightarrow> calm q \<and> network_backlog q = [] \<and> network_worklist q = []"

lemma calm_quiet: "calm q \<Longrightarrow> quiet_for op q"
  by (simp add: calm_def quiet_for_def bl_get_def)

lemma idle_quiet: "idle q \<Longrightarrow> quiet_for op q"
  by (simp add: idle_def calm_quiet)

definition typed_crdt :: "ide_add \<Rightarrow> key \<Rightarrow> shar_queue \<Rightarrow> crdt" where
  "typed_crdt op par q =
     CRDT_new (counter q + 1) (peer q) (CrdtRelation_new (ia_val op) (fst par) (snd par))"

lemma drain_ide_empty [simp]: "ide_worklist q = [] \<Longrightarrow> drain_ide_worklist q = Some q"
  by (subst drain_ide_worklist.simps) simp

lemma with_own_parent: "with_parent c (parent_key (crdt_relation c)) = c"
  by (simp add: with_parent_def parent_key_def)

text \<open>The insertion and its announcement, on a queue that has an identity for the tag.\<close>

lemma ide_insert_typed:
  assumes q: "tree_inv (tree q)" "tag_identities q (ia_tag op) = Some k"
    and f: "lookup_file (tree q) (tree_root q @ rel) = Some f" "ia_file_path op = tree_root q @ rel"
    and k: "characters f k = None" "\<And>c. crdt_id c = fst k \<Longrightarrow> newest f c"
    and par: "ia_parent_id op = Some (fst par)" "ia_parent_peer op = Some (snd par)"
    and i: "i < length (flat f)" "flat f ! i = par"
    and c: "c = CRDT_new (fst k) (snd k) (CrdtRelation_new (ia_val op) (fst par) (snd par))"
  shows "\<exists>d' f' p. ide_insert op q = Some (q\<lparr>tree := d'\<rparr>, Some (c, p)) \<and> tree_inv d' \<and>
    dir_name d' = tree_root q \<and> lookup_file d' = (lookup_file (tree q))(tree_root q @ rel \<mapsto> f') \<and>
    inserted f c f' p \<and> flat f' = take (Suc i) (flat f) @ k # drop (Suc i) (flat f) \<and>
    text_of f' = take i (text_of f) @ ia_val op # drop i (text_of f) \<and>
    (\<forall>r. tree r = d' \<and> ide_add_callback r \<longrightarrow> ide_announce op c p r =
       Some (r\<lparr>events := events r @ [Ide_added (NetworkAdd_new rel c (fst p)) (NetworkAdd_new rel c (fst p))]\<rparr>))"
proof -
  have key: "crdt_key c = k" "parent_key (crdt_relation c) = par" "cr_value (crdt_relation c) = ia_val op"
    by (simp_all add: c)
  have "par \<in> live_keys (characters f)"
    using i wf_fileD(4) [OF tree_inv_file [OF q(1) f(1)]] by (metis nth_mem)
  then have ok: "insertable f c" "newest f c" using k by (simp_all add: insertable_def c)
  obtain d' f' p where d': "dir_add_crdt (tree q) (tree_root q @ rel) (ia_line_hint op) c =
      Some (d', Inr (Some p))" "tree_inv d'" "dir_name d' = tree_root q"
    "lookup_file d' = (lookup_file (tree q))(tree_root q @ rel \<mapsto> f')" "inserted f c f' p"
    "flat f' = take (Suc i) (flat f) @ k # drop (Suc i) (flat f)"
    "text_of f' = take i (text_of f) @ ia_val op # drop i (text_of f)"
    "dir_predecessor_identity d' (tree_root q @ rel) p = Some (Inr (Some par))"
    using dir_typed [OF q(1) f(1) [unfolded tree_root_def] ok i(1), of "ia_line_hint op"] i(2)
    unfolding key tree_root_def by blast
  have ins: "ide_insert op q = Some (q\<lparr>tree := d'\<rparr>, Some (c, p))"
    using d'(1) q(2) par f(2) by (simp add: ide_insert_def ide_parent_def Let_def c)
  have same: "\<lparr>na_file_path = rel, na_crdt = with_parent c par, na_row = fst p\<rparr> = NetworkAdd_new rel c (fst p)"
    using with_own_parent [of c] key(2) by (simp add: NetworkAdd_new_def)
  have "ide_announce op c p r =
      Some (r\<lparr>events := events r @ [Ide_added (NetworkAdd_new rel c (fst p)) (NetworkAdd_new rel c (fst p))]\<rparr>)"
    if r: "tree r = d'" "ide_add_callback r" for r
  proof -
    have "tree_root r = tree_root q" using r(1) d'(3) by (simp add: tree_root_def)
    then show ?thesis
      using d'(8) f(2) r relative_strip [of r rel] same
      by (simp add: ide_announce_def Let_def fire_def NetworkAdd_new_def)
  qed
  with ins d'(2-7) show ?thesis by blast
qed

lemma add_ide_typed:
  assumes q: "tree_inv (tree q)" "ids_counted q" "unat (counter q) + 1 < 2 ^ 32" "quiet_for op q"
    and f: "lookup_file (tree q) (tree_root q @ rel) = Some f" "ia_file_path op = tree_root q @ rel"
    and par: "ia_parent_id op = Some (fst par)" "ia_parent_peer op = Some (snd par)"
    and i: "i < length (flat f)" "flat f ! i = par"
  shows "\<exists>q' f' p. add_ide_operation op q = Some q' \<and> tree_inv (tree q') \<and>
    tree_root q' = tree_root q \<and> counter q' = counter q + 1 \<and> peer q' = peer q \<and>
    ids_counted q' \<and> (calm q \<longrightarrow> calm q') \<and> network_backlog q' = network_backlog q \<and>
    network_worklist q' = network_worklist q \<and>
    lookup_file (tree q') = (lookup_file (tree q))(tree_root q @ rel \<mapsto> f') \<and>
    inserted f (typed_crdt op par q) f' p \<and>
    flat f' = take (Suc i) (flat f) @ (counter q + 1, peer q) # drop (Suc i) (flat f) \<and>
    text_of f' = take i (text_of f) @ ia_val op # drop i (text_of f) \<and>
    events q' = events q @
      [Ide_add_confirmed (IdeAddConfirmed_new (ia_tag op) (counter q + 1) (peer q)),
       Ide_added (NetworkAdd_new rel (typed_crdt op par q) (fst p))
         (NetworkAdd_new rel (typed_crdt op par q) (fst p))]"
proof -
  let ?i = "counter q + 1" and ?c = "typed_crdt op par q"
  let ?e = "Ide_add_confirmed (IdeAddConfirmed_new (ia_tag op) ?i (peer q))"
  define q1 where "q1 = q\<lparr>counter := ?i, tag_identities := (tag_identities q)(ia_tag op \<mapsto> (?i, peer q)),
    events := events q @ [?e]\<rparr>"
  define q2 where "q2 = queue_tag_dependants (ia_tag op) q1"
  have q2: "tree q2 = tree q" "tree_root q2 = tree_root q" "counter q2 = ?i" "ide_worklist q2 = []"
    "ide_backlog q2 = ide_backlog q" "tag_identities q2 (ia_tag op) = Some (?i, peer q)"
    "events q2 = events q @ [?e]" "ide_add_callback q2" "peer q2 = peer q" "calm q \<longrightarrow> calm q2"
    "network_backlog q2 = network_backlog q" "network_worklist q2 = network_worklist q"
    using q(4)
    by (simp_all add: q1_def q2_def queue_tag_dependants_def quiet_for_def tree_root_def calm_def
        bl_remove_def bl_get_def)
  have less: "counter q < ?i" by (rule word_succ_less [OF q(3)])
  obtain d' f' p where d': "ide_insert op q2 = Some (q2\<lparr>tree := d'\<rparr>, Some (?c, p))" "tree_inv d'"
    "dir_name d' = tree_root q" "lookup_file d' = (lookup_file (tree q))(tree_root q @ rel \<mapsto> f')"
    "inserted f ?c f' p" "flat f' = take (Suc i) (flat f) @ (?i, peer q) # drop (Suc i) (flat f)"
    "text_of f' = take i (text_of f) @ ia_val op # drop i (text_of f)"
    "\<And>r. tree r = d' \<Longrightarrow> ide_add_callback r \<Longrightarrow> ide_announce op ?c p r = Some (r\<lparr>events := events r @
       [Ide_added (NetworkAdd_new rel ?c (fst p)) (NetworkAdd_new rel ?c (fst p))]\<rparr>)"
    using ide_insert_typed [of q2 op "(?i, peer q)" rel f par i ?c] ids_counted_newest [OF q(2) f(1) less]
      q(1) f par i unfolding q2(1,2,6) by (auto simp: typed_crdt_def)
  let ?q3 = "q2\<lparr>tree := d'\<rparr>"
  let ?m = "NetworkAdd_new rel ?c (fst p)"
  let ?q4 = "?q3\<lparr>events := events q2 @ [Ide_added ?m ?m]\<rparr>"
  have "map_of (ide_backlog ?q3) (crdt_key ?c) = None"
    using q(4) q2(5) by (simp add: quiet_for_def typed_crdt_def)
  then have inner: "add_ide_operation_inner op q2 = Some ?q4"
    using d'(1) d'(8) [of ?q3] q2(8) by (simp add: add_ide_operation_inner_def clear_ide_backlog_def)
  have "assign_identity op q = Some q1"
    using q(4) by (simp add: assign_identity_def fire_def Let_def quiet_for_def q1_def)
  then have run: "add_ide_operation op q = Some ?q4"
    using inner q2(4) by (simp add: add_ide_operation_def q2_def)
  have "nodes d' = nodes (tree q) \<union> Pair (tree_root q @ rel) ` {(?i, peer q)}"
    by (rule nodes_upd [OF d'(4) f(1)]) (use d'(5) in \<open>simp add: inserted_def typed_crdt_def\<close>)
  then have "ids_counted ?q4"
    using q(2) less q2(3) by (auto simp: ids_counted_def intro: order.trans [OF _ less_imp_le])
  moreover have "calm q \<longrightarrow> calm ?q4" using q2(10) by (simp add: calm_def)
  ultimately show ?thesis
    using run d'(2-7) q2(3,7,9,11,12)
    by (intro exI [of _ ?q4] exI [of _ f'] exI [of _ p]) (simp add: tree_root_def)
qed

lemma add_ide_idle:
  assumes q: "tree_inv (tree q)" "ids_counted q" "unat (counter q) + 1 < 2 ^ 32" "idle q"
    and f: "lookup_file (tree q) (tree_root q @ rel) = Some f" "ia_file_path op = tree_root q @ rel"
    and par: "ia_parent_id op = Some (fst par)" "ia_parent_peer op = Some (snd par)"
    and i: "i < length (flat f)" "flat f ! i = par"
  obtains q' f' m where "add_ide_operation op q = Some q'" "tree_inv (tree q')"
    "tree_root q' = tree_root q" "counter q' = counter q + 1" "ids_counted q'" "idle q'"
    "lookup_file (tree q') = (lookup_file (tree q))(tree_root q @ rel \<mapsto> f')"
    "flat f' = take (Suc i) (flat f) @ (counter q + 1, peer q) # drop (Suc i) (flat f)"
    "text_of f' = take i (text_of f) @ ia_val op # drop i (text_of f)"
    "events q' = events q @
      [Ide_add_confirmed (IdeAddConfirmed_new (ia_tag op) (counter q + 1) (peer q)), Ide_added m m]"
  using add_ide_typed [OF q(1-3) idle_quiet [OF q(4)] f par i] q(4)
  by (elim exE conjE) (erule that; simp add: idle_def)

section \<open>Deleting\<close>

text \<open>The removal of the character behind the \<open>i\<close>-th element of a file, whoever asks for it.\<close>

lemma remove_operation_done:
  assumes q: "tree_inv (tree q)"
    and f: "lookup_file (tree q) (tree_root q @ rel) = Some f" "rm_file_path op = tree_root q @ rel"
    and i: "Suc i < length (flat f)" "flat f ! Suc i = rm_key op"
  obtains d' f' p where "remove_operation op q = Some (q\<lparr>tree := d'\<rparr>, Some p)" "tree_inv d'"
    "dir_name d' = tree_root q" "nodes d' = nodes (tree q)"
    "lookup_file d' = (lookup_file (tree q))(tree_root q @ rel \<mapsto> f')" "removed f (rm_key op) f'"
    "flat f' = take (Suc i) (flat f) @ drop (Suc (Suc i)) (flat f)"
    "text_of f' = take i (text_of f) @ drop (Suc i) (text_of f)"
proof -
  note wf = tree_inv_file [OF q f(1)]
  obtain f' p where f': "removed f (rm_key op) f'" "\<And>n. remove_crdt f n (rm_key op) = Some (f', Inr (Some p))"
    "flat f' = take (Suc i) (flat f) @ drop (Suc (Suc i)) (flat f)"
    "text_of f' = take i (text_of f) @ drop (Suc i) (text_of f)"
    using deleted_text [OF wf i(1)] unfolding i(2) by blast
  have w': "wf_file f'" "file_path f' = file_path f" using f'(1) by (simp_all add: removed_def)
  obtain ks where ks: "flat f = root # ks" "root \<notin> set ks" using wf_flat_root [OF wf] by blast
  then have "rm_key op = ks ! i" "i < length ks" using i by simp_all
  then have nonroot: "rm_key op \<noteq> root" using ks(2) by (metis nth_mem)
  obtain d' where d': "dir_remove_crdt (tree q) (tree_root q @ rel) (rm_row op) (rm_key op) =
      Some (d', Inr (Some p))" "tree_inv d'" "dir_name d' = tree_root q"
    "lookup_file d' = (lookup_file (tree q))(tree_root q @ rel \<mapsto> f')"
    using tree_inv_update [where call = "\<lambda>f. remove_crdt f (rm_row op) (rm_key op)",
        OF q f(1) [unfolded tree_root_def] f'(2) w'(2,1)]
    unfolding dir_remove_crdt_def tree_root_def by metis
  have "remove_operation op q = Some (q\<lparr>tree := d'\<rparr>, Some p)"
    using nonroot d'(1) f(2) by (simp add: remove_operation_def)
  moreover have "nodes d' = nodes (tree q) \<union> Pair (tree_root q @ rel) ` {}"
    by (rule nodes_upd [OF d'(4) f(1)]) (use f'(1) in \<open>auto simp: removed_def split: if_splits\<close>)
  ultimately show ?thesis using that d'(2-4) f'(1,3,4) by simp
qed

lemma remove_ide_done:
  assumes q: "tree_inv (tree q)" "ids_counted q" "ide_remove_callback q"
    and f: "lookup_file (tree q) (tree_root q @ rel) = Some f" "rm_file_path op = tree_root q @ rel"
    and i: "Suc i < length (flat f)" "flat f ! Suc i = rm_key op"
  shows "\<exists>q' f'. remove_ide_operation op q = Some q' \<and> tree_inv (tree q') \<and>
    tree_root q' = tree_root q \<and> counter q' = counter q \<and> peer q' = peer q \<and>
    ids_counted q' \<and> (calm q \<longrightarrow> calm q') \<and> network_backlog q' = network_backlog q \<and>
    network_worklist q' = network_worklist q \<and>
    lookup_file (tree q') = (lookup_file (tree q))(tree_root q @ rel \<mapsto> f') \<and>
    removed f (rm_key op) f' \<and>
    flat f' = take (Suc i) (flat f) @ drop (Suc (Suc i)) (flat f) \<and>
    text_of f' = take i (text_of f) @ drop (Suc i) (text_of f) \<and>
    events q' = events q @ [Ide_removed (op\<lparr>rm_file_path := rel\<rparr>)]"
proof -
  obtain d' f' p where d': "remove_operation op q = Some (q\<lparr>tree := d'\<rparr>, Some p)" "tree_inv d'"
    "dir_name d' = tree_root q" "nodes d' = nodes (tree q)"
    "lookup_file d' = (lookup_file (tree q))(tree_root q @ rel \<mapsto> f')" "removed f (rm_key op) f'"
    "flat f' = take (Suc i) (flat f) @ drop (Suc (Suc i)) (flat f)"
    "text_of f' = take i (text_of f) @ drop (Suc i) (text_of f)"
    by (rule remove_operation_done [OF q(1) f i])
  let ?q1 = "q\<lparr>tree := d'\<rparr>"
  let ?q' = "?q1\<lparr>events := events q @ [Ide_removed (op\<lparr>rm_file_path := rel\<rparr>)]\<rparr>"
  have root1: "tree_root ?q1 = tree_root q" using d'(3) by (simp add: tree_root_def)
  have run: "remove_ide_operation op q = Some ?q'"
    using d'(1) relative_strip [of ?q1 rel] root1 f(2) q(3)
    by (simp add: remove_ide_operation_def fire_def)
  have "ids_counted ?q'" using q(2) d'(4) by (simp add: ids_counted_def)
  then show ?thesis using run d'(2-8) root1
    by (intro exI [of _ ?q'] exI [of _ f']) (simp add: tree_root_def calm_def)
qed

section \<open>Receiving\<close>

lemma join_under_root:
  "is_absolute b \<Longrightarrow> rel = [] \<or> hd rel \<notin> {''/'', ''.''} \<Longrightarrow> join b rel = b @ rel"
  by (cases rel) (auto simp: join_def is_absolute_def)

text \<open>A new character of a peer, above every id of the file, on a queue where nothing waits for it.\<close>

lemma add_network_typed:
  assumes q: "tree_inv (tree q)" "map_of (network_backlog q) (crdt_key c) = None" "network_add_callback q"
    and path: "is_absolute (tree_root q)" "rel = [] \<or> hd rel \<notin> {''/'', ''.''}"
    and f: "lookup_file (tree q) (tree_root q @ rel) = Some f"
    and c: "insertable f c" "newest f c"
    and i: "i < length (flat f)" "flat f ! i = parent_key (crdt_relation c)"
  shows "\<exists>q' f' p. add_network_operation (NetworkAdd_new rel c n) q = Some q' \<and> tree_inv (tree q') \<and>
    tree_root q' = tree_root q \<and> counter q' = max (counter q) (crdt_id c) \<and>
    (ids_counted q \<longrightarrow> ids_counted q') \<and> (idle q \<longrightarrow> idle q') \<and>
    lookup_file (tree q') = (lookup_file (tree q))(tree_root q @ rel \<mapsto> f') \<and>
    inserted f c f' p \<and>
    text_of f' = take i (text_of f) @ cr_value (crdt_relation c) # drop i (text_of f) \<and>
    events q' = events q @ [Network_added (NetworkAdd_new (tree_root q @ rel) c n)]"
proof -
  have wf: "wf_file f" by (rule tree_inv_file [OF q(1) f])
  have nonroot: "crdt_key c \<noteq> root"
    using c(1) wf_chars_root [OF wf_fileD(1) [OF wf]] by (auto simp: insertable_def)
  obtain d' f' p where d': "dir_add_crdt (tree q) (tree_root q @ rel) n c = Some (d', Inr (Some p))"
    "tree_inv d'" "dir_name d' = tree_root q"
    "lookup_file d' = (lookup_file (tree q))(tree_root q @ rel \<mapsto> f')" "inserted f c f' p"
    "text_of f' = take i (text_of f) @ cr_value (crdt_relation c) # drop i (text_of f)"
    "dir_predecessor_identity d' (tree_root q @ rel) p = Some (Inr (Some (parent_key (crdt_relation c))))"
    using dir_typed [OF q(1) f [unfolded tree_root_def] c i, of n] unfolding tree_root_def by blast
  have local: "to_local_path q rel = tree_root q @ rel"
    using join_under_root [OF path] by (simp add: to_local_path_def)
  let ?q' = "q\<lparr>counter := max (counter q) (crdt_id c), tree := d',
    events := events q @ [Network_added (NetworkAdd_new (tree_root q @ rel) c n)]\<rparr>"
  have "network_insert (NetworkAdd_new rel c n) q = Some (?q', Some (crdt_key c))"
    using d'(1,7) q(3) nonroot local with_own_parent [of c]
    by (simp add: network_insert_def Let_def fire_def NetworkAdd_new_def)
  then have "add_network_operation (NetworkAdd_new rel c n) q = Some ?q'"
    using q(2) by (simp add: add_network_operation_def clear_network_backlog_def)
  moreover have "nodes d' = nodes (tree q) \<union> Pair (tree_root q @ rel) ` {crdt_key c}"
    by (rule nodes_upd [OF d'(4) f]) (use d'(5) in \<open>simp add: inserted_def\<close>)
  then have "ids_counted q \<longrightarrow> ids_counted ?q'" by (auto simp: ids_counted_def crdt_key_def max_def)
  ultimately show ?thesis using d'(2-6)
    by (intro exI [of _ ?q'] exI [of _ f'] exI [of _ p]) (simp add: tree_root_def idle_def calm_def)
qed

text \<open>A removal of a peer, of a character that the file has.\<close>

lemma remove_network_done:
  assumes q: "tree_inv (tree q)" "network_remove_callback q"
    and path: "is_absolute (tree_root q)" "rel = [] \<or> hd rel \<notin> {''/'', ''.''}"
    and f: "lookup_file (tree q) (tree_root q @ rel) = Some f" "rm_file_path op = rel"
    and i: "Suc i < length (flat f)" "flat f ! Suc i = rm_key op"
  shows "\<exists>q' f'. remove_network_operation op q = Some q' \<and> tree_inv (tree q') \<and>
    tree_root q' = tree_root q \<and> counter q' = counter q \<and>
    (ids_counted q \<longrightarrow> ids_counted q') \<and> (idle q \<longrightarrow> idle q') \<and>
    lookup_file (tree q') = (lookup_file (tree q))(tree_root q @ rel \<mapsto> f') \<and>
    removed f (rm_key op) f' \<and>
    text_of f' = take i (text_of f) @ drop (Suc i) (text_of f) \<and>
    events q' = events q @ [Network_removed (op\<lparr>rm_file_path := tree_root q @ rel\<rparr>)]"
proof -
  let ?op = "op\<lparr>rm_file_path := tree_root q @ rel\<rparr>"
  have op: "rm_file_path ?op = tree_root q @ rel" "rm_key ?op = rm_key op" by (simp_all add: rm_key_def)
  obtain d' f' p where d': "remove_operation ?op q = Some (q\<lparr>tree := d'\<rparr>, Some p)" "tree_inv d'"
    "dir_name d' = tree_root q" "nodes d' = nodes (tree q)" "lookup_file d' = (lookup_file (tree q))(tree_root q @ rel \<mapsto> f')"
    "removed f (rm_key op) f'" "text_of f' = take i (text_of f) @ drop (Suc i) (text_of f)"
    by (rule remove_operation_done [OF q(1) f(1) op(1) i [folded op(2)]]) (unfold op(2))
  have local: "to_local_path q (rm_file_path op) = tree_root q @ rel"
    using join_under_root [OF path] f(2) by (simp add: to_local_path_def)
  then have "remove_network_operation op q =
      Some (q\<lparr>tree := d', events := events q @ [Network_removed ?op]\<rparr>)"
    using d'(1) q(2) by (simp add: remove_network_operation_def Let_def fire_def)
  then show ?thesis using d'(2-7)
    by (intro exI [of _ "q\<lparr>tree := d', events := events q @ [Network_removed ?op]\<rparr>"] exI [of _ f'])
      (simp add: tree_root_def idle_def calm_def ids_counted_def)
qed

section \<open>The loop of the IDE\<close>

interpretation ide_loop: drain_loop ide_worklist
  "\<lambda>q. q\<lparr>ide_worklist := tl (ide_worklist q)\<rparr>" ide_item ide_pending drain_ide_worklist
proof
  fix q q' :: shar_queue and item items
  show "drain_ide_worklist q = (case ide_worklist q of [] \<Rightarrow> Some q
      | i # _ \<Rightarrow> Option.bind (ide_item i (q\<lparr>ide_worklist := tl (ide_worklist q)\<rparr>)) drain_ide_worklist)"
    by (subst drain_ide_worklist.simps) (auto split: list.splits option.splits)
  show "ide_item item q = Some q' \<Longrightarrow> ide_pending q' \<le> ide_pending q \<or>
      ide_pending q' = Suc (ide_pending q) \<and> length (ide_worklist q') = length (ide_worklist q)"
    by (rule ide_item_pending)
qed (auto simp: ide_pending_def)

text \<open>Relations that every call of the IDE side respects, up to the assignment of identities.\<close>

locale ide_relation =
  fixes R :: "shar_queue \<Rightarrow> shar_queue \<Rightarrow> bool"
  assumes related_refl: "R q q"
    and related_trans: "R q r \<Longrightarrow> R r s \<Longrightarrow> R q s"
    and related_pop: "R q (q\<lparr>ide_worklist := w\<rparr>)"
    and related_dependants: "R q (queue_ide_dependants k q)"
    and related_insert: "ide_insert op q = Some (q', k') \<Longrightarrow> R q q'"
    and related_announce: "ide_announce op c p q = Some q' \<Longrightarrow> R q q'"
begin

lemma related_item:
  assumes "ide_item op q = Some q'"
  shows "R q q'"
proof -
  from assms obtain q1 r where r: "ide_insert op q = Some (q1, r)"
    "r = None \<and> q' = q1 \<or>
     (\<exists>c p. r = Some (c, p) \<and> ide_announce op c p (queue_ide_dependants (crdt_key c) q1) = Some q')"
    by (auto simp: ide_item_def split: option.splits)
  from related_insert [OF r(1)] r(2) related_announce related_trans [OF related_dependants]
  show ?thesis by (metis related_trans)
qed

lemma related_drain: "drain_ide_worklist q = Some q' \<Longrightarrow> R q q' \<and> ide_worklist q' = []"
  by (rule ide_loop.drain_invariant [where P = "R q"])
    (auto intro: related_refl related_trans [OF _ related_trans [OF related_pop related_item]])

lemma related_clear: "clear_ide_backlog k q = Some q' \<Longrightarrow> R q q'"
  by (auto simp: clear_ide_backlog_def related_refl split: option.splits dest!: related_drain
      intro: related_trans [OF related_dependants])

lemma related_inner:
  assumes "add_ide_operation_inner op q = Some q'"
  shows "R q q'"
proof -
  from assms obtain q1 r where r: "ide_insert op q = Some (q1, r)"
    "r = None \<and> q' = q1 \<or>
     (\<exists>c p q2. r = Some (c, p) \<and> clear_ide_backlog (crdt_key c) q1 = Some q2 \<and>
        ide_announce op c p q2 = Some q')"
    by (auto simp: add_ide_operation_inner_def split: option.splits elim!: bind_SomeE)
  from related_insert [OF r(1)] r(2) related_announce related_clear show ?thesis
    by (metis related_trans)
qed

end

text \<open>The log only grows, and the counter stays what the last assignment made it.\<close>

definition logs :: "shar_queue \<Rightarrow> shar_queue \<Rightarrow> bool" where
  "logs q q' \<longleftrightarrow> counter q' = counter q \<and> (\<exists>es. events q' = events q @ es)"

interpretation logged: ide_relation logs
proof
  show "ide_insert op q = Some (q', r) \<Longrightarrow> logs q q'" for op q q' r
    by (auto simp: ide_insert_def logs_def Let_def split: if_splits option.splits sum.splits prod.splits)
qed (auto dest!: ide_announce_event simp: logs_def queue_ide_dependants_def)

lemma add_ide_stages:
  assumes "add_ide_operation op q = Some q'"
  obtains q1 q2 where "assign_identity op q = Some q1"
    "add_ide_operation_inner op (queue_tag_dependants (ia_tag op) q1) = Some q2"
    "drain_ide_worklist q2 = Some q'"
  using assms unfolding add_ide_operation_def by (auto elim!: bind_SomeE)

lemma add_ide_logs:
  assumes "add_ide_operation op q = Some q'"
  shows "counter q' = counter q + 1 \<and> (\<exists>es. events q' = events q @
    Ide_add_confirmed (IdeAddConfirmed_new (ia_tag op) (counter q + 1) (peer q)) # es)"
proof -
  from assms obtain q1 q2 where q: "assign_identity op q = Some q1"
    "add_ide_operation_inner op (queue_tag_dependants (ia_tag op) q1) = Some q2"
    "drain_ide_worklist q2 = Some q'" by (rule add_ide_stages)
  have "logs (queue_tag_dependants (ia_tag op) q1) q'"
    using logged.related_trans [OF logged.related_inner [OF q(2)]] logged.related_drain [OF q(3)] by simp
  then have "logs q1 q'" by (simp add: logs_def queue_tag_dependants_def)
  moreover have "counter q1 = counter q + 1" "events q1 = events q @
      [Ide_add_confirmed (IdeAddConfirmed_new (ia_tag op) (counter q + 1) (peer q))]"
    using q(1) by (auto simp: assign_identity_def Let_def fire_Some)
  ultimately show ?thesis by (auto simp: logs_def)
qed

end
