(* ===== verification/StateRequest.thy ===== *)
theory StateRequest
  imports IdeQueue
begin

text \<open>
  \<open>src/state_request.rs\<close>: the full state of a replica as a list of operations, the frame it travels
  in, and its replay at the peer that asked for it. The bytes of a connection are a list; the JSON
  encoder and decoder and the texts of transport errors are parameters, being library code. A
  \<open>HashMap\<close> is iterated in an order of its own, so the state comes with one.
\<close>

type_synonym state_listing = "(path \<times> (key \<times> crdt_relation) list) list"

text \<open>The listing shows a state: every map in some order.\<close>

definition lists_state :: "state_listing \<Rightarrow> (path \<times> (key \<rightharpoonup> crdt_relation)) list \<Rightarrow> bool" where
  "lists_state l s \<longleftrightarrow>
     list_all2 (\<lambda>(p, xs) (q, m). p = q \<and> distinct (map fst xs) \<and> map_of xs = m) l s"

text \<open>The operations of one character: a live insertion, then a removal if it is a tombstone.\<close>

definition char_ops :: "path \<Rightarrow> key \<times> crdt_relation \<Rightarrow> network_op list" where
  "char_ops p x =
     (let (k, r) = x in
      ADD (NetworkAdd_new p (CRDT_new (fst k) (snd k) (r\<lparr>cr_deleted := False\<rparr>)) 0) #
      (if cr_deleted r then [REMOVE (Remove_new p (fst k) (snd k) 0)] else []))"

definition to_network_ops :: "state_listing \<Rightarrow> network_op list" where
  "to_network_ops state = concat (map (\<lambda>(p, chars). concat (map (char_ops p) chars)) state)"

section \<open>The frame\<close>

type_synonym byte = "8 word"

definition MAX_STATE_BYTES :: nat where
  "MAX_STATE_BYTES = 1024 * 1024 * 1024"

text \<open>\<open>to_be_bytes\<close> and \<open>from_be_bytes\<close>, for \<open>k\<close> bytes.\<close>

fun to_be_bytes :: "nat \<Rightarrow> nat \<Rightarrow> byte list" where
  "to_be_bytes 0 n = []"
| "to_be_bytes (Suc k) n = to_be_bytes k (n div 256) @ [of_nat (n mod 256)]"

definition from_be_bytes :: "byte list \<Rightarrow> nat" where
  "from_be_bytes bs = foldl (\<lambda>a b. a * 256 + unat b) 0 bs"

text \<open>What \<open>accept\<close> writes to the stream, of the encoded state.\<close>

definition send_state :: "byte list \<Rightarrow> byte list" where
  "send_state encoded = to_be_bytes 8 (length encoded) @ encoded"

text \<open>\<open>read_exact\<close>: as many bytes as the buffer has, or an error.\<close>

definition read_exact :: "nat \<Rightarrow> byte list \<Rightarrow> (byte list \<times> byte list) option" where
  "read_exact n bs = (if n \<le> length bs then Some (take n bs, drop n bs) else None)"

text \<open>\<open>request_state\<close> on an open stream, up to the replay.\<close>

definition receive_state ::
  "(byte list \<Rightarrow> string + network_op list) \<Rightarrow> (nat \<Rightarrow> string) \<Rightarrow> string \<Rightarrow> byte list \<Rightarrow>
     error + network_op list"
where
  "receive_state from_slice show io_error stream =
     (case read_exact 8 stream of
        None \<Rightarrow> Inl (Generic (''couldn't read length prefix: '' @ io_error))
      | Some (len_buf, rest) \<Rightarrow>
          let declared_len = from_be_bytes len_buf in
          if declared_len > MAX_STATE_BYTES
          then Inl (Generic (''peer claimed an unreasonably large state ('' @ show declared_len @ '' bytes)''))
          else case read_exact declared_len rest of
              None \<Rightarrow> Inl (Generic (''couldn't read state payload: '' @ io_error))
            | Some (bytes, _) \<Rightarrow>
                (case from_slice bytes of
                   Inl e \<Rightarrow> Inl (Generic (''couldn't decode response: '' @ e))
                 | Inr state \<Rightarrow> Inr state))"

text \<open>The end of \<open>request_state\<close>: every operation through the incoming path, in the order it came.\<close>

fun replay :: "network_op list \<Rightarrow> shar_queue \<Rightarrow> shar_queue option" where
  "replay [] q = Some q"
| "replay (ADD a # ops) q = Option.bind (add_network_operation a q) (replay ops)"
| "replay (REMOVE r # ops) q = Option.bind (remove_network_operation r q) (replay ops)"

section \<open>Lemmas\<close>

lemma length_to_be_bytes [simp]: "length (to_be_bytes k n) = k"
  by (induction k arbitrary: n) auto

lemma unat_byte: "unat (of_nat (n mod 256) :: byte) = n mod 256"
  by (simp add: unat_of_nat)

lemma from_to_be_bytes: "from_be_bytes (to_be_bytes k n) = n mod 256 ^ k"
proof (induction k arbitrary: n)
  case (Suc k)
  have "from_be_bytes (to_be_bytes (Suc k) n) = (n div 256 mod 256 ^ k) * 256 + n mod 256"
    using Suc.IH [of "n div 256"] by (simp add: from_be_bytes_def unat_byte)
  then show ?case by (simp add: mod_mult2_eq mult.commute)
qed (simp add: from_be_bytes_def)

lemma read_exact_append: "length xs = n \<Longrightarrow> read_exact n (xs @ ys) = Some (xs, ys)"
  by (simp add: read_exact_def)

lemma frame_received:
  assumes "from_slice encoded = Inr state" "length encoded \<le> MAX_STATE_BYTES"
  shows "receive_state from_slice show io_error (send_state encoded @ rest) = Inr state"
proof -
  let ?n = "length encoded"
  have "?n < 256 ^ 8" using assms(2) by (simp add: MAX_STATE_BYTES_def)
  then have "from_be_bytes (to_be_bytes 8 ?n) = ?n" by (simp add: from_to_be_bytes)
  moreover have "read_exact 8 (send_state encoded @ rest) = Some (to_be_bytes 8 ?n, encoded @ rest)"
    using read_exact_append [of "to_be_bytes 8 ?n" 8] by (simp add: send_state_def)
  moreover have "read_exact ?n (encoded @ rest) = Some (encoded, rest)"
    by (rule read_exact_append) simp
  ultimately show ?thesis using assms by (simp add: receive_state_def Let_def)
qed

lemma replay_receive_all: "replay ops q = receive_all ops q"
proof (induction ops arbitrary: q)
  case (Cons m ops)
  have "replay ops = receive_all ops" using Cons.IH by (rule ext)
  then show ?case by (cases m) (simp_all add: receive_def)
qed simp

lemma char_ops_ADD:
  "ADD a \<in> set (char_ops p x) \<longleftrightarrow>
     a = NetworkAdd_new p (CRDT_new (fst (fst x)) (snd (fst x)) ((snd x)\<lparr>cr_deleted := False\<rparr>)) 0"
  by (cases x) (auto simp: char_ops_def)

lemma char_ops_REMOVE:
  "REMOVE r \<in> set (char_ops p x) \<longleftrightarrow>
     cr_deleted (snd x) \<and> r = Remove_new p (fst (fst x)) (snd (fst x)) 0"
  by (cases x) (auto simp: char_ops_def)

end
