(* ===== verification/QueueWrap.thy ===== *)
theory QueueWrap
  imports StateRequest Delivery
begin

text \<open>
  \<open>QueueWrap\<close> of \<open>src/queue_wrap.rs\<close>: the queue behind its lock, the flag that says it was opened, and
  the buffer of network operations that came before. Each method is one step here; \<open>WrapRace\<close> has the steps between their awaits.
\<close>

record queue_wrap =
  queue :: shar_queue
  queue_initialized :: bool
  buffer :: "network_op list"

definition QueueWrap_default :: queue_wrap where
  "QueueWrap_default = \<lparr>queue = SharQueue_default, queue_initialized = False, buffer = []\<rparr>"

definition wrap_add_ide_operation :: "ide_add \<Rightarrow> queue_wrap \<Rightarrow> queue_wrap option" where
  "wrap_add_ide_operation op w =
     map_option (\<lambda>q. w\<lparr>queue := q\<rparr>) (add_ide_operation op (queue w))"

definition wrap_remove_ide_operation :: "remove \<Rightarrow> queue_wrap \<Rightarrow> queue_wrap option" where
  "wrap_remove_ide_operation op w =
     map_option (\<lambda>q. w\<lparr>queue := q\<rparr>) (remove_ide_operation op (queue w))"

definition wrap_add_network_operation :: "network_add \<Rightarrow> queue_wrap \<Rightarrow> queue_wrap option" where
  "wrap_add_network_operation op w =
     (if queue_initialized w
      then map_option (\<lambda>q. w\<lparr>queue := q\<rparr>) (add_network_operation op (queue w))
      else Some (w\<lparr>buffer := buffer w @ [ADD op]\<rparr>))"

definition wrap_remove_network_operation :: "remove \<Rightarrow> queue_wrap \<Rightarrow> queue_wrap option" where
  "wrap_remove_network_operation op w =
     (if queue_initialized w
      then map_option (\<lambda>q. w\<lparr>queue := q\<rparr>) (remove_network_operation op (queue w))
      else Some (w\<lparr>buffer := buffer w @ [REMOVE op]\<rparr>))"

text \<open>The loop of \<open>new\<close> over the buffer, which is read and not emptied.\<close>

fun replay_buffer :: "network_op list \<Rightarrow> queue_wrap \<Rightarrow> queue_wrap option" where
  "replay_buffer [] w = Some w"
| "replay_buffer (ADD op # msgs) w =
     Option.bind (wrap_add_network_operation op w) (replay_buffer msgs)"
| "replay_buffer (REMOVE op # msgs) w =
     Option.bind (wrap_remove_network_operation op w) (replay_buffer msgs)"

text \<open>\<open>new\<close>: only the first one that can read the directory sets the queue.\<close>

definition QueueWrap_new :: "path \<Rightarrow> fs_dir \<Rightarrow> u32 \<Rightarrow> queue_wrap \<Rightarrow> (queue_wrap \<times> (error + unit)) option"
where
  "QueueWrap_new dir_path listing this_peer_id w =
     (case SharQueue_new dir_path listing this_peer_id of
        None \<Rightarrow> None
      | Some (Inl e) \<Rightarrow> Some (w, Inl e)
      | Some (Inr real_queue) \<Rightarrow>
          if \<not> network_add_callback (queue w)
          then map_option (\<lambda>w'. (w', Inr ()))
                 (replay_buffer (buffer w) (w\<lparr>queue := real_queue, queue_initialized := True\<rparr>))
          else Some (w, Inr ()))"

definition wrap_identities :: "queue_wrap \<Rightarrow> (path \<times> (key \<times> uchar) list list) list option" where
  "wrap_identities w = queue_identities (queue w)"

definition wrap_full_state :: "queue_wrap \<Rightarrow> (path \<times> (key \<rightharpoonup> crdt_relation)) list" where
  "wrap_full_state w = queue_full_state (queue w)"

text \<open>A network operation through the wrapper, and a sequence of them.\<close>

definition wrap_receive :: "network_op \<Rightarrow> queue_wrap \<Rightarrow> queue_wrap option" where
  "wrap_receive m w =
     (case m of ADD a \<Rightarrow> wrap_add_network_operation a w
      | REMOVE r \<Rightarrow> wrap_remove_network_operation r w)"

fun wrap_receive_all :: "network_op list \<Rightarrow> queue_wrap \<Rightarrow> queue_wrap option" where
  "wrap_receive_all [] w = Some w"
| "wrap_receive_all (m # ms) w = Option.bind (wrap_receive m w) (wrap_receive_all ms)"

lemma wrap_receive_open:
  "queue_initialized w \<Longrightarrow> wrap_receive m w = map_option (\<lambda>q. w\<lparr>queue := q\<rparr>) (receive m (queue w))"
  by (cases m)
    (simp_all add: wrap_receive_def receive_def wrap_add_network_operation_def
      wrap_remove_network_operation_def)

lemma wrap_receive_closed:
  "\<not> queue_initialized w \<Longrightarrow> wrap_receive m w = Some (w\<lparr>buffer := buffer w @ [m]\<rparr>)"
  by (cases m)
    (simp_all add: wrap_receive_def wrap_add_network_operation_def wrap_remove_network_operation_def)

lemma wrap_receive_all_open:
  "queue_initialized w \<Longrightarrow>
     wrap_receive_all ms w = map_option (\<lambda>q. w\<lparr>queue := q\<rparr>) (receive_all ms (queue w))"
proof (induction ms arbitrary: w)
  case (Cons m ms)
  then show ?case
    by (cases "receive m (queue w)") (simp_all add: wrap_receive_open comp_def)
qed simp

lemma wrap_receive_all_closed:
  "\<not> queue_initialized w \<Longrightarrow> wrap_receive_all ms w = Some (w\<lparr>buffer := buffer w @ ms\<rparr>)"
  by (induction ms arbitrary: w) (simp_all add: wrap_receive_closed)

lemma replay_buffer_eq: "replay_buffer ms w = wrap_receive_all ms w"
proof (induction ms arbitrary: w)
  case (Cons m ms)
  have "replay_buffer ms = wrap_receive_all ms" using Cons.IH by (rule ext)
  then show ?case by (cases m) (simp_all add: wrap_receive_def)
qed simp

interpretation rx: sequence receive receive_all
  by unfold_locales simp_all

text \<open>An open wrapper hands every message on to its queue.\<close>

interpretation wrap_rx: layered wrap_receive wrap_receive_all receive receive_all
  "\<lambda>w q. queue_initialized w \<and> queue w = q"
  by unfold_locales (auto simp: wrap_receive_open)

text \<open>Messages before the opening and after it are one sequence to the queue.\<close>

lemma wrap_new_after_buffering:
  assumes new: "SharQueue_new p listing i = Some (Inr q)"
    and pre: "wrap_receive_all ms QueueWrap_default = Some w"
    and opened: "QueueWrap_new p listing i w = Some (w', res)"
    and post: "wrap_receive_all ns w' = Some w''"
  shows "receive_all (ms @ ns) q = Some (queue w'') \<and> queue_initialized w''"
proof -
  have w: "w = QueueWrap_default\<lparr>buffer := ms\<rparr>"
    using pre wrap_receive_all_closed [of QueueWrap_default ms] by (simp add: QueueWrap_default_def)
  let ?w = "QueueWrap_default\<lparr>buffer := ms, queue := q, queue_initialized := True\<rparr>"
  have "replay_buffer ms ?w = Some w'"
    using opened new w
    by (simp add: QueueWrap_new_def QueueWrap_default_def SharQueue_default_def split: option.splits)
  then have "map_option (\<lambda>r. ?w\<lparr>queue := r\<rparr>) (receive_all ms q) = Some w'"
    using wrap_receive_all_open [of ?w ms] by (simp add: replay_buffer_eq)
  then obtain r where r: "receive_all ms q = Some r" "w' = ?w\<lparr>queue := r\<rparr>" by auto
  with post wrap_receive_all_open [of w' ns]
  have "map_option (\<lambda>s. w'\<lparr>queue := s\<rparr>) (receive_all ns r) = Some w''" by simp
  then show ?thesis using r by (auto simp: rx.run_append)
qed

end
