(* ===== verification/LoadTree.thy ===== *)
theory LoadTree
  imports DirectoryFacts
begin

text \<open>
  Opening a shar: \<open>SharDirectory::new\<close> loads every readable file below a directory, with one counter
  for all of them, and an unreadable entry makes it fail.
\<close>

text \<open>What a listing holds: the files of a directory, then those of its subdirectories.\<close>

fun own_texts :: "path \<Rightarrow> fs_entry list \<Rightarrow> (path \<times> uchar list) list" where
  "own_texts p [] = []"
| "own_texts p (File_entry name (Inr cs) # es) = (p @ [name], cs) # own_texts p es"
| "own_texts p (_ # es) = own_texts p es"

fun fs_texts :: "path \<Rightarrow> fs_dir \<Rightarrow> (path \<times> uchar list) list"
  and sub_texts :: "path \<Rightarrow> fs_entry list \<Rightarrow> (path \<times> uchar list) list"
where
  "fs_texts p (Unreadable e) = []"
| "fs_texts p (Listing es) = own_texts p es @ sub_texts p es"
| "sub_texts p [] = []"
| "sub_texts p (Entry_error e # es) = sub_texts p es"
| "sub_texts p (Type_error e # es) = sub_texts p es"
| "sub_texts p (Dir_entry name sub # es) = fs_texts (p @ [name]) sub @ sub_texts p es"
| "sub_texts p (File_entry name c # es) = sub_texts p es"
| "sub_texts p (Other_entry name # es) = sub_texts p es"

text \<open>No entry fails; the number of characters.\<close>

fun readable :: "fs_dir \<Rightarrow> bool" and readable_entries :: "fs_entry list \<Rightarrow> bool" where
  "readable (Unreadable e) = False"
| "readable (Listing es) = readable_entries es"
| "readable_entries [] = True"
| "readable_entries (Entry_error e # es) = False"
| "readable_entries (Type_error e # es) = False"
| "readable_entries (Dir_entry name sub # es) = (readable sub \<and> readable_entries es)"
| "readable_entries (File_entry name c # es) =
     ((case c of Inl _ \<Rightarrow> False | Inr _ \<Rightarrow> True) \<and> readable_entries es)"
| "readable_entries (Other_entry name # es) = readable_entries es"

fun fs_size :: "fs_dir \<Rightarrow> nat" and entries_size :: "fs_entry list \<Rightarrow> nat" where
  "fs_size (Unreadable e) = 0"
| "fs_size (Listing es) = entries_size es"
| "entries_size [] = 0"
| "entries_size (Entry_error e # es) = entries_size es"
| "entries_size (Type_error e # es) = entries_size es"
| "entries_size (Dir_entry name sub # es) = fs_size sub + entries_size es"
| "entries_size (File_entry name c # es) =
     (case c of Inl _ \<Rightarrow> 0 | Inr cs \<Rightarrow> length cs) + entries_size es"
| "entries_size (Other_entry name # es) = entries_size es"

text \<open>Names as a file system has them, with none repeated above itself.\<close>

fun file_names :: "fs_entry list \<Rightarrow> string list" where
  "file_names [] = []"
| "file_names (File_entry name c # es) = name # file_names es"
| "file_names (_ # es) = file_names es"

fun dir_names :: "fs_entry list \<Rightarrow> string list" where
  "dir_names [] = []"
| "dir_names (Dir_entry name sub # es) = name # dir_names es"
| "dir_names (_ # es) = dir_names es"

fun names_ok :: "path \<Rightarrow> fs_dir \<Rightarrow> bool" and sub_names_ok :: "path \<Rightarrow> fs_entry list \<Rightarrow> bool" where
  "names_ok p (Unreadable e) = fresh_name p"
| "names_ok p (Listing es) \<longleftrightarrow>
     fresh_name p \<and> distinct (file_names es) \<and> distinct (dir_names es) \<and> sub_names_ok p es"
| "sub_names_ok p [] = True"
| "sub_names_ok p (Entry_error e # es) = sub_names_ok p es"
| "sub_names_ok p (Type_error e # es) = sub_names_ok p es"
| "sub_names_ok p (Dir_entry name sub # es) = (names_ok (p @ [name]) sub \<and> sub_names_ok p es)"
| "sub_names_ok p (File_entry name c # es) = sub_names_ok p es"
| "sub_names_ok p (Other_entry name # es) = sub_names_ok p es"

definition texts :: "shar_file list \<Rightarrow> (path \<times> uchar list) list" where
  "texts fs = map (\<lambda>f. (file_path f, text_of f)) fs"

definition files_below_counter :: "shar_file list \<Rightarrow> u32 \<Rightarrow> bool" where
  "files_below_counter fs counter \<longleftrightarrow> (\<forall>f \<in> set fs. wf_file f \<and> ids_below f counter)"

lemma texts_simps [simp]:
  "texts [] = []" "texts (fs @ gs) = texts fs @ texts gs"
  "texts (f # fs) = (file_path f, text_of f) # texts fs"
  by (simp_all add: texts_def)

lemma files_below_counter_simps [simp]:
  "files_below_counter [] c"
  "files_below_counter (f # fs) c \<longleftrightarrow> wf_file f \<and> ids_below f c \<and> files_below_counter fs c"
  "files_below_counter (fs @ gs) c \<longleftrightarrow> files_below_counter fs c \<and> files_below_counter gs c"
  by (auto simp: files_below_counter_def)

lemma ids_below_mono: "ids_below f c \<Longrightarrow> c \<le> c' \<Longrightarrow> ids_below f c'"
  by (auto simp: ids_below_def intro: order.trans)

lemma word_add_mono: "unat (c :: u32) + n + m < 2 ^ 32 \<Longrightarrow> c + of_nat n \<le> c + of_nat (n + m)"
  by (simp add: word_le_nat_alt unat_word_ariths unat_of_nat mod_less)

lemma unat_add_of_nat: "unat (c :: u32) + n < 2 ^ 32 \<Longrightarrow> unat (c + of_nat n) = unat c + n"
  by (simp add: unat_word_ariths unat_of_nat mod_less)

definition dir_loaded :: "path \<Rightarrow> fs_dir \<Rightarrow> u32 \<Rightarrow> shar_directory \<Rightarrow> bool" where
  "dir_loaded p l counter d \<longleftrightarrow>
     dir_name d = p \<and> texts (all_files d) = fs_texts p l \<and>
     files_below_counter (all_files d) counter \<and> (names_ok p l \<longrightarrow> dir_ok d)"

definition entries_loaded ::
  "path \<Rightarrow> fs_entry list \<Rightarrow> u32 \<Rightarrow> shar_directory list \<Rightarrow> shar_file list \<Rightarrow> bool"
where
  "entries_loaded p es counter ds fs \<longleftrightarrow>
     texts fs = own_texts p es \<and> texts (dirs_files ds) = sub_texts p es \<and>
     files_below_counter (fs @ dirs_files ds) counter \<and>
     map file_path fs = map (\<lambda>n. p @ [n]) (file_names es) \<and>
     map dir_name ds = map (\<lambda>n. p @ [n]) (dir_names es) \<and> (sub_names_ok p es \<longrightarrow> dirs_ok ds)"

lemma files_below_counter_mono:
  "files_below_counter fs c \<Longrightarrow> c \<le> c' \<Longrightarrow> files_below_counter fs c'"
  by (auto simp: files_below_counter_def intro: ids_below_mono)

lemma distinct_snoc_names: "distinct (map (\<lambda>n. p @ [n]) ns) = distinct ns"
  by (simp add: distinct_map inj_on_def)

lemma names_in: "map g xs = map (\<lambda>n. p @ [n]) ns \<Longrightarrow> x \<in> set xs \<Longrightarrow> g x \<noteq> [] \<and> butlast (g x) = p"
  by (metis (no_types, lifting) butlast_snoc ex_map_conv image_eqI list.set_map snoc_eq_iff_butlast)

lemma entries_loaded_dir:
  assumes "entries_loaded p es counter ds fs"
  shows "dir_loaded p (Listing es) counter (SharDirectory p ds fs)"
proof -
  note e = assms [unfolded entries_loaded_def]
  have "dir_ok (SharDirectory p ds fs)" if "names_ok p (Listing es)"
  proof -
    have "distinct (map file_path fs)" "distinct (map dir_name ds)"
      using e that by (simp_all add: distinct_snoc_names)
    moreover have "\<forall>f \<in> set fs. file_path f \<noteq> [] \<and> butlast (file_path f) = p"
      using e names_in [of file_path fs p "file_names es"] by blast
    moreover have "\<forall>d \<in> set ds. dir_name d \<noteq> [] \<and> butlast (dir_name d) = p"
      using e names_in [of dir_name ds p "dir_names es"] by blast
    ultimately show ?thesis using e that by simp
  qed
  then show ?thesis using e by (simp add: dir_loaded_def)
qed

lemma entries_loaded_Cons:
  assumes "dir_loaded (p @ [name]) sub c d" "entries_loaded p es c' ds fs" "c \<le> c'"
  shows "entries_loaded p (Dir_entry name sub # es) c' (d # ds) fs"
  using assms files_below_counter_mono [of "all_files d" c c']
  by (auto simp: entries_loaded_def dir_loaded_def)

lemma entries_loaded_file:
  assumes "wf_file f" "ids_below f c" "file_path f = p @ [name]" "text_of f = cs"
    and "entries_loaded p es c' ds fs" "c \<le> c'"
  shows "entries_loaded p (File_entry name (Inr cs) # es) c' ds (f # fs)"
  using assms ids_below_mono [of f c c'] by (auto simp: entries_loaded_def)

lemma entries_loaded_other [simp]:
  "entries_loaded p (Other_entry name # es) c ds fs = entries_loaded p es c ds fs"
  by (simp add: entries_loaded_def)

lemma SharDirectory_new_loads:
  "readable l \<Longrightarrow> unat c + fs_size l < 2 ^ 32 \<Longrightarrow>
     \<exists>d. SharDirectory_new p l c = Some (Inr d, c + of_nat (fs_size l)) \<and>
       dir_loaded p l (c + of_nat (fs_size l)) d"
  "readable_entries es \<Longrightarrow> unat c + entries_size es < 2 ^ 32 \<Longrightarrow>
     \<exists>ds' fs'. load_entries p es c ds fs =
         Some (Inr (SharDirectory p (ds @ ds') (fs @ fs')), c + of_nat (entries_size es)) \<and>
       entries_loaded p es (c + of_nat (entries_size es)) ds' fs'"
proof (induction p l c and p es c ds fs rule: SharDirectory_new_load_entries.induct)
  case (2 p es c)
  then show ?case using entries_loaded_dir by fastforce
next
  case (3 p c ds fs)
  then show ?case by (simp add: entries_loaded_def)
next
  case (6 p name sub es c ds fs)
  let ?c = "c + of_nat (fs_size sub)" and ?c' = "c + of_nat (fs_size sub + entries_size es)"
  from 6 obtain d where d: "SharDirectory_new (p @ [name]) sub c = Some (Inr d, ?c)"
    "dir_loaded (p @ [name]) sub ?c d" by fastforce
  have "unat ?c + entries_size es < 2 ^ 32"
    using 6(4) by (simp add: unat_add_of_nat)
  with 6(2) [OF d(1) refl refl] 6(3) obtain ds' fs' where
    r: "load_entries p es ?c (ds @ [d]) fs =
        Some (Inr (SharDirectory p (ds @ [d] @ ds') (fs @ fs')), ?c + of_nat (entries_size es))"
      "entries_loaded p es (?c + of_nat (entries_size es)) ds' fs'" by auto
  have eq: "?c + of_nat (entries_size es) = ?c'" by (simp add: add.assoc)
  have "?c \<le> ?c'" by (rule word_add_mono) (use 6(4) in simp)
  with entries_loaded_Cons [OF d(2) r(2) [unfolded eq]]
  have "entries_loaded p (Dir_entry name sub # es) ?c' (d # ds') fs'" .
  then show ?case using d(1) r(1) eq by (intro exI [of _ "d # ds'"] exI [of _ fs']) simp
next
  case (7 p name contents es c ds fs)
  obtain cs where cs: "contents = Inr cs" using 7(2) by (cases contents) auto
  let ?c = "c + of_nat (length cs)" and ?c' = "c + of_nat (length cs + entries_size es)"
  have "unat c + length cs < 2 ^ 32" using 7(3) cs by simp
  from SharFile_new_loaded [OF refl this, of "p @ [name]"] obtain f where
    f: "SharFile_new (\<lambda>_. contents) (p @ [name]) c = Some (Inr (f, ?c))"
      "loaded (empty_file (p @ [name])) c cs f" using cs by (auto simp: SharFile_new_def)
  have "unat ?c + entries_size es < 2 ^ 32"
    using 7(3) cs by (simp add: unat_add_of_nat)
  with 7(1) [OF f(1) refl refl] 7(2) obtain ds' fs' where
    r: "load_entries p es ?c ds (fs @ [f]) =
        Some (Inr (SharDirectory p (ds @ ds') (fs @ [f] @ fs')), ?c + of_nat (entries_size es))"
      "entries_loaded p es (?c + of_nat (entries_size es)) ds' fs'" by auto
  have eq: "?c + of_nat (entries_size es) = ?c'" by (simp add: add.assoc)
  have le: "?c \<le> ?c'" by (rule word_add_mono) (use 7(3) cs in simp)
  have "ids_below f ?c" using f(2) by (simp add: loaded_def)
  from entries_loaded_file [OF loaded_text(3) [OF f(2)] this loaded_text(2,1) [OF f(2)]
      r(2) [unfolded eq] le]
  show ?case using f(1) r(1) eq cs by (intro exI [of _ ds'] exI [of _ "f # fs'"]) simp
qed auto

end
