(* ===== verification/DirectoryProperties.thy ===== *)
theory DirectoryProperties
  imports LoadTree Samples FileStore
begin

text \<open>
  The properties of \<open>SharDirectory\<close>: opening a directory, routing by path, and operations that
  change one file and no other.
\<close>

definition sample_dir :: shar_directory where
  "sample_dir = SharDirectory [''/'', ''p''] [] [sample_file]"

lemma sample_dir_ok: "dir_ok sample_dir"
  by (simp add: sample_dir_def fresh_name_def)

lemma sample_dir_name [simp]: "dir_name sample_dir = [''/'', ''p'']"
  by (simp add: sample_dir_def)

lemma sample_dir_lookup:
  "lookup_file sample_dir p = (if p = [''/'', ''p'', ''t''] then Some sample_file else None)"
  by (simp add: lookup_file_def sample_dir_def)

lemma sample_dir_inv: "tree_inv sample_dir"
  using sample_dir_ok sample_wf by (simp add: tree_inv_def) (simp add: sample_dir_def)

section \<open>Opening\<close>

text \<open>
  C26. Opening a directory whose every entry can be read never panics and gives a tree that holds,
  file by file, the texts that the file system holds, the files of a directory before those of its
  subdirectories; every file is well-formed, one counter numbers all characters, and when names are
  as routing needs them the tree is one that routing finds its way in.
\<close>

theorem SharDirectory_new_texts:
  assumes "readable listing" "unat counter + fs_size listing < 2 ^ 32"
  shows "\<exists>d. SharDirectory_new p listing counter =
      Some (Inr d, counter + of_nat (fs_size listing)) \<and> dir_name d = p \<and>
    map (\<lambda>f. (file_path f, text_of f)) (all_files d) = fs_texts p listing \<and>
    (\<forall>f \<in> set (all_files d). wf_file f \<and> ids_below f (counter + of_nat (fs_size listing))) \<and>
    (names_ok p listing \<longrightarrow> dir_ok d)"
  using SharDirectory_new_loads(1) [OF assms, of p]
  unfolding dir_loaded_def texts_def files_below_counter_def by blast

theorem SharDirectory_new_texts_witness:
  "\<exists>d. SharDirectory_new [''/'', ''p'']
       (Listing [Dir_entry ''s'' (Listing [File_entry ''u'' (Inr [98, 10])]), File_entry ''t'' (Inr [97])]) 0 =
      Some (Inr d, 3) \<and>
     map (\<lambda>f. (file_path f, text_of f)) (all_files d) =
       [([''/'', ''p'', ''t''], [97]), ([''/'', ''p'', ''s'', ''u''], [98, 10])] \<and> dir_ok d"
  using SharDirectory_new_texts [of "Listing [Dir_entry ''s'' (Listing [File_entry ''u'' (Inr [98, 10])]),
      File_entry ''t'' (Inr [97])]" 0 "[''/'', ''p'']"]
  by (auto simp: fresh_name_def)

section \<open>Routing\<close>

text \<open>
  An insertion for a path below the root is an insertion into the file of exactly this path:
  the result is the file's, the file is replaced in the tree, and no other file changes.
\<close>

theorem dir_add_crdt_updates:
  assumes "dir_ok d" "lookup_file d (dir_name d @ rel) = Some f" "add_crdt f n c = Some (f', res)"
  shows "\<exists>d'. dir_add_crdt d (dir_name d @ rel) n c = Some (d', res) \<and> dir_ok d' \<and>
    dir_name d' = dir_name d \<and> lookup_file d' = (lookup_file d)(dir_name d @ rel \<mapsto> f')"
proof -
  have "file_path f' = file_path f" using add_crdt_characters [OF assms(3)] by blast
  from on_file_updates [where call = "\<lambda>f. add_crdt f n c", OF assms this] show ?thesis
    unfolding dir_add_crdt_def by blast
qed

theorem dir_add_crdt_updates_witness:
  "\<exists>d' f'. add_crdt sample_file 0 x_crdt = Some (f', Inr (Some (0, 2))) \<and>
     dir_add_crdt sample_dir [''/'', ''p'', ''t''] 0 x_crdt = Some (d', Inr (Some (0, 2))) \<and>
     lookup_file d' [''/'', ''p'', ''t''] = Some f'"
proof -
  have add: "\<exists>f'. add_crdt sample_file 0 x_crdt = Some (f', Inr (Some (0, 2)))"
    by (simp add: add_crdt_def place_crdt_def find_crdt_def x_crdt_def is_line_break_def vec_get_def
        scan_range_def vec_insert_def sample_chars_def Let_def upt_rec)
  then obtain f' where f': "add_crdt sample_file 0 x_crdt = Some (f', Inr (Some (0, 2)))" ..
  from dir_add_crdt_updates [OF sample_dir_ok _ this, of "[''t'']"] show ?thesis
    using f' by (simp add: sample_dir_lookup) auto
qed

text \<open>
  A removal for a path below the root with no file of exactly this path is the error
  \<open>File not found\<close>, and the tree is unchanged: routing takes no other file for it.
\<close>

theorem dir_remove_crdt_not_found:
  assumes "dir_ok d" "lookup_file d (dir_name d @ rel) = None"
  shows "dir_remove_crdt d (dir_name d @ rel) n k = Some (d, Inl (Generic ''File not found''))"
  unfolding dir_remove_crdt_def by (rule on_file_missing [OF assms])

theorem dir_remove_crdt_not_found_witness:
  "dir_remove_crdt sample_dir [''/'', ''p'', ''s'', ''t''] 0 (1, 0) =
     Some (sample_dir, Inl (Generic ''File not found''))"
  using dir_remove_crdt_not_found [OF sample_dir_ok, of "[''s'', ''t'']" 0 "(1, 0)"]
  by (simp add: sample_dir_lookup)

text \<open>
  A subdirectory with the name of its parent is out of reach: no file in it is found, although
  it was loaded, because each level looks for its own name from the start of the path.
\<close>

theorem same_name_unroutable:
  assumes "fresh_name (b @ [n])"
  shows "find_file (SharDirectory (b @ [n]) [SharDirectory (b @ [n, n]) [] fs] gs) (b @ [n, n, x]) = None"
proof -
  have names: "file_name (b @ [n]) = Some n" "file_name (b @ [n, n]) = Some n"
    "behind n (b @ [n, n, x]) = Some [n, x]"
    using assms behind_fresh [of n b "[n, x]"] by (auto simp: fresh_name_def file_name_def)
  have "find_file (SharDirectory (b @ [n, n]) [] fs) (b @ [n, n, x]) = None"
    using names by (auto simp: find_file.simps)
  then show ?thesis using names by (auto simp: find_file.simps)
qed

theorem same_name_unroutable_witness:
  "find_file (SharDirectory [''/'', ''a''] [SharDirectory [''/'', ''a'', ''a''] []
     [empty_file [''/'', ''a'', ''a'', ''f'']]] []) [''/'', ''a'', ''a'', ''f''] = None"
  using same_name_unroutable [of "[''/'']" "''a''" "[empty_file [''/'', ''a'', ''a'', ''f'']]" "[]" "''f''"]
  by (simp add: fresh_name_def)

end
