(* ===== verification/QueueProperties.thy ===== *)
theory QueueProperties
  imports QueueWrap DirectoryProperties
begin

text \<open>
  The properties of \<open>SharQueue\<close>, of its wrapper and of the state request: the loops end, messages are
  served in whatever order they come, replicas agree on what exists, and an edit on one replica is
  the same edit on another.
\<close>

section \<open>Samples\<close>

text \<open>The sample directory opened by peer 1, with the counter at the highest id.\<close>

definition sample_queue :: shar_queue where
  "sample_queue = queue_of sample_dir 4 1"

text \<open>A character below \<open>c\<close>, one below that, and the removal of the latter.\<close>

definition m1 :: network_op where
  "m1 = ADD (NetworkAdd_new [''t''] (CRDT_new 5 2 (CrdtRelation_new 120 4 0)) 0)"

definition m2 :: network_op where
  "m2 = ADD (NetworkAdd_new [''t''] (CRDT_new 6 2 (CrdtRelation_new 121 5 2)) 0)"

definition m3 :: network_op where
  "m3 = REMOVE (Remove_new [''t''] 6 2 0)"

lemma sample_nodes: "nodes sample_dir = {[''/'', ''p'', ''t'']} \<times> {root, (1, 0), (2, 0), (3, 0), (4, 0)}"
proof -
  have "nodes sample_dir = {[''/'', ''p'', ''t'']} \<times> dom sample_chars"
    by (auto simp: nodes_def sample_dir_lookup simp del: sample_lookup split: if_splits)
  then show ?thesis by (simp only: sample_dom)
qed

lemma sample_tombs: "tombs sample_dir = {([''/'', ''p'', ''t''], (2, 0))}"
  by (auto simp: tombs_def sample_dir_lookup sample_chars_def split: if_splits)

lemma sample_ids: "x \<in> nodes sample_dir \<Longrightarrow> fst (snd x) \<le> 4"
  unfolding sample_nodes by (auto simp: word_le_nat_alt)

text \<open>A character below the one that is removed.\<close>

definition m4 :: network_op where
  "m4 = ADD (NetworkAdd_new [''t''] (CRDT_new 7 3 (CrdtRelation_new 122 6 2)) 0)"

lemma sample_ops:
  "join [''/'', ''p''] [''t''] = [''/'', ''p'', ''t'']" "is_absolute [''/'', ''p'']"
  by (simp_all add: join_def is_absolute_def)

lemma sample_targets:
  "removal_targets [''/'', ''p''] (set [m3, m4, m2, m1]) = {([''/'', ''p'', ''t''], (6, 2))}"
  by (simp add: m1_def m2_def m3_def m4_def sample_ops)

lemma sample_links_of:
  "links_of [''/'', ''p''] (set [m3, m4, m2, m1]) =
     {(([''/'', ''p'', ''t''], (5, 2)), 120, (4, 0)), (([''/'', ''p'', ''t''], (6, 2)), 121, (5, 2)),
      (([''/'', ''p'', ''t''], (7, 3)), 122, (6, 2))}"
  by (auto simp: m1_def m2_def m3_def m4_def sample_ops)

lemma sample_links_old: "((p, k), u) \<in> links sample_dir \<Longrightarrow> k \<in> {root, (1, 0), (2, 0), (3, 0), (4, 0)}"
  using links_node [of "(p, k)" u sample_dir] by (auto simp: sample_nodes)

lemma sample_orderly:
  "orderly_run [''/'', ''p''] (links sample_dir) (tombs sample_dir) [m3, m4, m2, m1]"
proof -
  have "\<not> sunk (links sample_dir \<union> links_of [''/'', ''p''] (set [m3, m4, m2, m1]))
      (tombs sample_dir \<union> removal_targets [''/'', ''p''] (set [m3, m4, m2, m1]))
      ([''/'', ''p'', ''t''], (6, 2))"
    unfolding sample_targets sample_links_of sample_tombs
    by (rule not_sunk_below) (auto dest!: sample_links_old)
  then show ?thesis
    unfolding orderly_run_def sample_targets sample_links_of sample_tombs
    by (auto simp: m1_def m2_def m3_def m4_def in_shar_def sample_ops accepts_def is_line_break_def)
qed

section \<open>Termination\<close>

text \<open>
  \<open>drain_network_worklist\<close> ends on every queue: no infinite sequence of turns of its loop exists,
  whatever waits in the backlog, in cycles or not.
\<close>

theorem network_loop_terminates:
  "wf {(q', q). \<exists>item items. network_worklist q = item # items \<and>
     network_item item (q\<lparr>network_worklist := items\<rparr>) = Some q'}"
proof (rule wf_subset [OF net_loop.wf_turn])
  show "{(q', q). \<exists>item items. network_worklist q = item # items \<and>
      network_item item (q\<lparr>network_worklist := items\<rparr>) = Some q'} \<subseteq> net_loop.turn"
    by (auto simp: net_loop.turn_def)
qed

text \<open>\<open>drain_ide_worklist\<close> ends on every queue.\<close>

theorem ide_loop_terminates:
  "wf {(q', q). \<exists>item items. ide_worklist q = item # items \<and>
     ide_item item (q\<lparr>ide_worklist := items\<rparr>) = Some q'}"
proof (rule wf_subset [OF ide_loop.wf_turn])
  show "{(q', q). \<exists>item items. ide_worklist q = item # items \<and>
      ide_item item (q\<lparr>ide_worklist := items\<rparr>) = Some q'} \<subseteq> ide_loop.turn"
    by (auto simp: ide_loop.turn_def)
qed

section \<open>Messages in any order\<close>

text \<open>
  C10. Service. A freshly opened queue receives any sequence of messages for files of the shar, in
  any order, children before parents and removals before insertions included. No insertion of the
  sequence is a line break whose parent is removed, in the opening or by any message of the sequence, and
  none has a parent that is removed with no live ancestor but the sentinel; other insertions below removed
  characters may occur. Every call returns; in the end nothing is left on the worklist, every message is
  carried out or waits for a character that its file does not have, and the counter covers every id of
  the tree.
\<close>

theorem messages_are_served:
  assumes "tree_inv d" "\<And>x. x \<in> nodes d \<Longrightarrow> fst (snd x) \<le> c"
    and "orderly_run (dir_name d) (links d) (tombs d) ms"
  shows "\<exists>q. receive_all ms (queue_of d c p) = Some q \<and> tree_inv (tree q) \<and>
    network_worklist q = [] \<and>
    (\<forall>m \<in> set ms. applied (dir_name d) (tree q) m \<or>
       localised (dir_name d) m \<in> pending_ops q \<and> op_dep (dir_name d) m \<notin> nodes (tree q)) \<and>
    (\<forall>x \<in> nodes (tree q). fst (snd x) \<le> counter q)"
proof -
  let ?b = "dir_name d"
  obtain q where q: "receive_all ms (queue_of d c p) = Some q"
    "served ?b (links d) (nodes d) (tombs d) (universe ?b ms) (set ms) q" "network_worklist q = []"
    using run_served [OF assms(3,1,2)] by blast
  have inv: "queue_inv ?b (links d) (nodes d) (tombs d) (universe ?b ms) q" "\<And>x. x \<in> set ms \<Longrightarrow> settled ?b q x"
    using q(2) by (auto simp: served_def)
  then have "all_blocked ?b q" by (simp add: queue_inv_def)
  then have "applied ?b (tree q) m \<or> localised ?b m \<in> pending_ops q \<and> op_dep ?b m \<notin> nodes (tree q)"
    if "m \<in> set ms" for m
  proof (cases "op_dep ?b m \<in> nodes (tree q)")
    case True
    then show ?thesis
      using settled_done [OF inv(2) [OF that] q(3) \<open>all_blocked ?b q\<close>] that assms(3)
      by (simp add: orderly_run_def)
  next
    case False
    then show ?thesis using inv(2) [OF that] by (auto simp: settled_def)
  qed
  then show ?thesis using q(1,3) inv(1) by (auto simp: queue_inv_def ids_counted_def)
qed

theorem messages_are_served_witness:
  "\<exists>q. receive_all [m3, m4, m2, m1] sample_queue = Some q \<and> network_worklist q = [] \<and>
     (\<forall>m \<in> {m1, m2, m3, m4}. applied [''/'', ''p''] (tree q) m \<or>
       localised [''/'', ''p''] m \<in> pending_ops q \<and> op_dep [''/'', ''p''] m \<notin> nodes (tree q))"
  using messages_are_served [OF sample_dir_inv sample_ids, of "[m3, m4, m2, m1]" 1] sample_orderly
  by (auto simp: sample_queue_def)

text \<open>
  C9. Agreement. Two replicas open the same tree and receive the same messages in two orders, under
  the conditions of the previous property: no insertion is a line break below a character that is removed
  in the opening or by any of the messages, or hangs from removed characters alone up to the sentinel.
  No two messages, and no message and the opened tree, give one identity different values or parents. They end with the same characters, each
  with the same value and parent, and the same tombstones in every file, namely what can be reached
  from the messages.
\<close>

theorem replicas_agree:
  assumes "tree_inv d" "\<And>x. x \<in> nodes d \<Longrightarrow> fst (snd x) \<le> c"
    and "orderly_run (dir_name d) (links d) (tombs d) ms" "mset ms = mset ns"
    and "single_valued (links d \<union> links_of (dir_name d) (set ms))"
  shows "\<exists>q r. receive_all ms (queue_of d c p) = Some q \<and> receive_all ns (queue_of d c p') = Some r \<and>
    nodes (tree q) = nodes (tree r) \<and> links (tree q) = links (tree r) \<and> tombs (tree q) = tombs (tree r) \<and>
    nodes (tree q) = reachable (dir_name d) (nodes d) (universe (dir_name d) ms)"
proof -
  let ?b = "dir_name d"
  have same: "set ns = set ms" "universe ?b ns = universe ?b ms"
    using mset_eq_setD [OF assms(4)] by (simp_all add: universe_def)
  have ns: "orderly_run ?b (links d) (tombs d) ns" using assms(3) unfolding orderly_run_def same .
  obtain q where q: "receive_all ms (queue_of d c p) = Some q"
    "served ?b (links d) (nodes d) (tombs d) (universe ?b ms) (set ms) q" "network_worklist q = []"
    using run_served [OF assms(3,1,2)] by blast
  obtain r where r: "receive_all ns (queue_of d c p') = Some r"
    "served ?b (links d) (nodes d) (tombs d) (universe ?b ns) (set ns) r" "network_worklist r = []"
    using run_served [OF ns assms(1,2)] by blast
  note nodes = run_nodes [OF assms(3) q(2,3)] run_nodes [OF ns r(2,3)]
  moreover from nodes have "tombs (tree q) = tombs (tree r)"
    using run_tombs [OF assms(3) q(2,3)] run_tombs [OF ns r(2,3)] same by simp
  moreover from nodes have "links (tree q) = links (tree r)"
    using run_links [OF assms(3) q(2)] run_links [OF ns r(2)] assms(5) same by simp
  ultimately show ?thesis using q(1) r(1) same by auto
qed

lemma sample_links_single:
  "single_valued (links sample_dir \<union> links_of [''/'', ''p''] (set [m3, m4, m2, m1]))"
proof -
  have "x \<notin> nodes sample_dir" if "(x, u) \<in> links_of [''/'', ''p''] (set [m3, m4, m2, m1])" for x u
    using that unfolding sample_links_of sample_nodes by auto
  moreover have "u = w" if "(x, u) \<in> links_of [''/'', ''p''] (set [m3, m4, m2, m1])"
    "(x, w) \<in> links_of [''/'', ''p''] (set [m3, m4, m2, m1])" for x u w
    using that unfolding sample_links_of by auto
  ultimately show ?thesis
    unfolding single_valued_def using links_node links_single by blast
qed

theorem replicas_agree_witness:
  "\<exists>q r. receive_all [m3, m4, m2, m1] sample_queue = Some q \<and>
     receive_all [m1, m2, m3, m4] sample_queue = Some r \<and>
     nodes (tree q) = nodes (tree r) \<and> links (tree q) = links (tree r) \<and> tombs (tree q) = tombs (tree r)"
proof -
  have "orderly_run (dir_name sample_dir) (links sample_dir) (tombs sample_dir) [m3, m4, m2, m1]"
    "single_valued (links sample_dir \<union> links_of (dir_name sample_dir) (set [m3, m4, m2, m1]))"
    using sample_orderly sample_links_single by simp_all
  from replicas_agree [OF sample_dir_inv sample_ids this(1) _ this(2), of "[m1, m2, m3, m4]" 1 1]
  show ?thesis unfolding sample_queue_def by fastforce
qed

section \<open>Paths\<close>

text \<open>
  A path of one replica's shar, made relative for the wire and resolved at another replica,
  is the path of the same file there; and a path that is already local stays what it is.
\<close>

theorem paths_translate:
  assumes "is_absolute (tree_root r)" "rel = [] \<or> hd rel \<notin> {''/'', ''.''}"
  shows "to_local_path r (to_relative_path s (tree_root s @ rel)) = tree_root r @ rel \<and>
    to_local_path r (tree_root r @ rel) = tree_root r @ rel"
  using join_under_root [OF assms] assms(1) by (simp add: to_local_path_def)

theorem paths_translate_witness:
  "to_local_path sample_queue (to_relative_path sample_queue [''/'', ''p'', ''t'']) = [''/'', ''p'', ''t'']"
  using paths_translate [of sample_queue "[''t'']" sample_queue]
  by (simp add: sample_queue_def queue_of_def tree_root_def is_absolute_def)

section \<open>The IDE\<close>

lemma sample_queue_simps:
  "tree sample_queue = sample_dir" "tree_root sample_queue = [''/'', ''p'']" "counter sample_queue = 4"
  "peer sample_queue = 1" "events sample_queue = []"
  by (simp_all add: sample_queue_def queue_of_def tree_root_def)

definition type_z :: ide_add where
  "type_z = IdeAdd_new [''/'', ''p'', ''t''] (Some 4) (Some 0) None 122 9 0"

lemma sample_quiet: "quiet_for type_z sample_queue"
  by (simp add: quiet_for_def sample_queue_def queue_of_def bl_get_def)

lemma sample_counted: "ids_counted sample_queue"
  using sample_ids by (simp add: ids_counted_def sample_queue_simps)

lemma type_z_simps:
  "ia_file_path type_z = [''/'', ''p'', ''t'']" "ia_parent_id type_z = Some 4"
  "ia_parent_peer type_z = Some 0" "ia_val type_z = 122" "ia_tag type_z = 9"
  by (simp_all add: type_z_def IdeAdd_new_def)

text \<open>
  Typing in the IDE. A character typed behind the \<open>i\<close>-th element of a file, on a queue where
  nothing waits for it, gets the next id of the counter, appears in the text right there, and
  causes two callbacks: first the confirmation of its identity, then the broadcast, with the path
  relative to the shar, its true parent, and the same parent for the IDE.
\<close>

theorem ide_typing:
  assumes "tree_inv (tree q)" "ids_counted q" "unat (counter q) + 1 < 2 ^ 32" "quiet_for op q"
    and "lookup_file (tree q) (tree_root q @ rel) = Some f" "ia_file_path op = tree_root q @ rel"
    and "ia_parent_id op = Some (fst par)" "ia_parent_peer op = Some (snd par)"
    and "i < length (flat f)" "flat f ! i = par"
  shows "\<exists>q' f' row. add_ide_operation op q = Some q' \<and> counter q' = counter q + 1 \<and>
    lookup_file (tree q') = (lookup_file (tree q))(tree_root q @ rel \<mapsto> f') \<and>
    text_of f' = take i (text_of f) @ ia_val op # drop i (text_of f) \<and>
    events q' = events q @
      [Ide_add_confirmed (IdeAddConfirmed_new (ia_tag op) (counter q + 1) (peer q)),
       Ide_added (NetworkAdd_new rel (typed_crdt op par q) row)
         (NetworkAdd_new rel (typed_crdt op par q) row)]"
  using add_ide_typed [OF assms] by blast

theorem ide_typing_witness:
  "\<exists>q' f'. add_ide_operation type_z sample_queue = Some q' \<and> counter q' = 5 \<and>
     lookup_file (tree q') [''/'', ''p'', ''t''] = Some f' \<and> text_of f' = [97, 10, 99, 122]"
  using ide_typing [of sample_queue type_z "[''t'']" sample_file "(4, 0)" 3]
    sample_dir_inv sample_counted sample_quiet
  by (auto simp: sample_queue_simps type_z_simps sample_dir_lookup flat_def text_of_def char_at_def)

text \<open>
  Confirmation comes first. Whatever waits and whatever the IDE asks for, every IDE insertion
  that returns assigns the next id of the counter, and its first callback is the confirmation of
  this identity for the operation's tag; nothing is taken back from the log.
\<close>

theorem confirmed_first:
  assumes "add_ide_operation op q = Some q'"
  shows "counter q' = counter q + 1 \<and> (\<exists>es. events q' = events q @
    Ide_add_confirmed (IdeAddConfirmed_new (ia_tag op) (counter q + 1) (peer q)) # es)"
  by (rule add_ide_logs [OF assms])

theorem confirmed_first_witness:
  "\<exists>q' es. add_ide_operation type_z sample_queue = Some q' \<and>
     events q' = Ide_add_confirmed (IdeAddConfirmed_new 9 5 1) # es"
proof -
  obtain q' where q': "add_ide_operation type_z sample_queue = Some q'"
    using add_ide_typed [of sample_queue type_z "[''t'']" sample_file "(4, 0)" 3]
      sample_dir_inv sample_counted sample_quiet
    by (auto simp: sample_queue_simps type_z_simps sample_dir_lookup flat_def)
  from confirmed_first [OF this] q' show ?thesis by (auto simp: sample_queue_simps type_z_simps)
qed

section \<open>State requests and the wrapper\<close>

text \<open>
  What a peer sends for a state request is what the asking side decodes, whatever follows on the
  stream, when the JSON library decodes what it encodes and the state is at most one gibibyte.
\<close>

theorem state_frame_roundtrip:
  assumes "from_slice encoded = Inr state" "length encoded \<le> MAX_STATE_BYTES"
  shows "receive_state from_slice show io_error (send_state encoded @ rest) = Inr state"
  using frame_received [of from_slice encoded state] assms by blast

theorem state_frame_roundtrip_witness:
  "receive_state (\<lambda>bs. if bs = [1, 2, 3] then Inr [m1] else Inl ''eof'') (\<lambda>_. []) []
     (send_state [1, 2, 3] @ [7]) = Inr [m1]"
  by (rule state_frame_roundtrip) (simp_all add: MAX_STATE_BYTES_def)

text \<open>
  A declared length above one gibibyte is refused before anything more is read, whatever the
  bytes that follow.
\<close>

theorem oversized_state_refused:
  assumes "length prefix = 8" "from_be_bytes prefix > MAX_STATE_BYTES"
  shows "receive_state from_slice show io_error (prefix @ rest) =
    Inl (Generic (''peer claimed an unreasonably large state ('' @ show (from_be_bytes prefix) @ '' bytes)''))"
  using assms read_exact_append [OF assms(1), of rest] by (simp add: receive_state_def Let_def)

theorem oversized_state_refused_witness:
  "receive_state (\<lambda>_. Inr []) (\<lambda>_. ''n'') [] ([0, 0, 0, 0, 64, 0, 0, 1] @ []) =
     Inl (Generic ''peer claimed an unreasonably large state (n bytes)'')"
  using oversized_state_refused [of "[0, 0, 0, 0, 64, 0, 0, 1]" "\<lambda>_. Inr []" "\<lambda>_. ''n''" "[]" "[]"]
  by (simp add: from_be_bytes_def MAX_STATE_BYTES_def)

text \<open>
  C28. Messages that come before the IDE opens the directory are not lost: after \<open>new\<close> and further
  messages, the queue is what it would be had it been open from the start and received all of them
  in this order.
\<close>

theorem buffered_messages_replayed:
  assumes "SharQueue_new p listing i = Some (Inr q)" "wrap_receive_all ms QueueWrap_default = Some w"
    and "QueueWrap_new p listing i w = Some (w', res)" "wrap_receive_all ns w' = Some w''"
  shows "receive_all (ms @ ns) q = Some (queue w'') \<and> queue_initialized w''"
  by (rule wrap_new_after_buffering [OF assms])

theorem buffered_messages_replayed_witness:
  "\<exists>w w' w'' res. wrap_receive_all [REMOVE (Remove_new [] 0 0 0)] QueueWrap_default = Some w \<and>
     QueueWrap_new [''/''] (Listing []) 1 w = Some (w', res) \<and> wrap_receive_all [] w' = Some w'' \<and>
     receive_all ([REMOVE (Remove_new [] 0 0 0)] @ []) (queue_of (SharDirectory [''/''] [] []) 0 1) =
       Some (queue w'')"
proof -
  let ?m = "REMOVE (Remove_new [] 0 0 0)"
  let ?q = "queue_of (SharDirectory [''/''] [] []) 0 1"
  let ?w = "QueueWrap_default\<lparr>buffer := [?m]\<rparr>"
  let ?w' = "?w\<lparr>queue := ?q, queue_initialized := True\<rparr>"
  have new: "SharQueue_new [''/''] (Listing []) 1 = Some (Inr ?q)" by (simp add: SharQueue_new_def)
  have pre: "wrap_receive_all [?m] QueueWrap_default = Some ?w"
    using wrap_receive_all_closed [of QueueWrap_default "[?m]"] by (simp add: QueueWrap_default_def)
  have "replay_buffer [?m] ?w' = Some ?w'"
    by (simp add: wrap_remove_network_operation_def remove_network_operation_def remove_operation_def
        Let_def rm_key_def Remove_new_def)
  then have opened: "QueueWrap_new [''/''] (Listing []) 1 ?w = Some (?w', Inr ())"
    using new by (simp add: QueueWrap_new_def QueueWrap_default_def SharQueue_default_def)
  have post: "wrap_receive_all [] ?w' = Some ?w'" by simp
  from buffered_messages_replayed [OF new pre opened post] pre opened post show ?thesis by blast
qed

end
