(* ===== verification/QueueRuns.thy ===== *)
theory QueueRuns
  imports QueueProperties
begin

text \<open>
  \<open>SharQueue\<close> through any sequence of its four operations: a step relation over the calls, and what every
  run keeps. The backlogs stay sorted by what their operations wait for, every waiting operation of
  the IDE has an identity, and the identities that the IDE was given are all different.
\<close>

section \<open>Runs\<close>

text \<open>
  A call that returns. An insertion of the IDE is one with an id left: at the last \<open>u32\<close> the counter
  overflows.
\<close>

inductive queue_call :: "shar_queue \<Rightarrow> shar_queue \<Rightarrow> bool" where
  ide_adds: "unat (counter q) + 1 < 2 ^ 32 \<Longrightarrow> add_ide_operation op q = Some q' \<Longrightarrow> queue_call q q'"
| ide_removes: "remove_ide_operation r q = Some q' \<Longrightarrow> queue_call q q'"
| network_adds: "add_network_operation a q = Some q' \<Longrightarrow> queue_call q q'"
| network_removes: "remove_network_operation r q = Some q' \<Longrightarrow> queue_call q q'"

inductive queue_run :: "shar_queue \<Rightarrow> shar_queue \<Rightarrow> bool" where
  run_none: "queue_run q q"
| run_more: "queue_run q q1 \<Longrightarrow> queue_call q1 q2 \<Longrightarrow> queue_run q q2"

text \<open>What no operation changes.\<close>

definition settings :: "shar_queue \<Rightarrow> u32 \<times> path \<times> bool list" where
  "settings q = (peer q, tree_root q,
     [network_add_callback q, network_remove_callback q, ide_add_confirm_callback q,
      ide_add_callback q, ide_remove_callback q])"

text \<open>The identities that the IDE was told.\<close>

fun confirms :: "event \<Rightarrow> key list" where
  "confirms (Ide_add_confirmed c) = [(ic_id c, ic_peer c)]"
| "confirms _ = []"

definition confirmed :: "shar_queue \<Rightarrow> key list" where
  "confirmed q = concat (map confirms (events q))"

definition tagged :: "shar_queue \<Rightarrow> ide_add \<Rightarrow> bool" where
  "tagged q op \<longleftrightarrow> tag_identities q (ia_tag op) \<noteq> None"

definition net_sorted :: "shar_queue \<Rightarrow> bool" where
  "net_sorted q \<longleftrightarrow> bl.sorted_by (\<lambda>k op. waits_for op = k) (network_backlog q)"

text \<open>
  What an insertion of the IDE names as its parent: an identity, or a tag, which then stands for an
  identity that the IDE was told for it. A tag can be told again with another identity.
\<close>

definition told :: "shar_queue \<Rightarrow> u32 \<Rightarrow> key \<Rightarrow> bool" where
  "told q t k \<longleftrightarrow> Ide_add_confirmed (IdeAddConfirmed_new t (fst k) (snd k)) \<in> set (events q)"

definition names_parent :: "shar_queue \<Rightarrow> ide_add \<Rightarrow> key \<Rightarrow> bool" where
  "names_parent q op k \<longleftrightarrow>
     (case (ia_parent_id op, ia_parent_peer op) of
        (Some i, Some p) \<Rightarrow> k = (i, p)
      | _ \<Rightarrow> (\<exists>t. ia_parent_tag op = Some t \<and> told q t k))"

lemma names_parent_mono:
  "names_parent q op k \<Longrightarrow> set (events q) \<subseteq> set (events q') \<Longrightarrow> names_parent q' op k"
  unfolding names_parent_def told_def by (auto split: option.splits)

definition ide_sorted :: "shar_queue \<Rightarrow> bool" where
  "ide_sorted q \<longleftrightarrow>
     bl.sorted_by (\<lambda>t op. ia_parent_tag op = Some t \<and> tag_identities q t = None \<and> tagged q op)
       (ide_tag_backlog q) \<and>
     bl.sorted_by (\<lambda>k op. names_parent q op k \<and> tagged q op) (ide_backlog q) \<and>
     (\<forall>t k. tag_identities q t = Some k \<longrightarrow> told q t k) \<and>
     (\<forall>op \<in> set (ide_worklist q). tagged q op)"

text \<open>The log may grow.\<close>

lemma ide_sorted_kept:
  assumes "ide_sorted q" "set (events q) \<subseteq> set (events q')"
    and "ide_backlog q' = ide_backlog q" "ide_tag_backlog q' = ide_tag_backlog q"
    and "ide_worklist q' = ide_worklist q" "tag_identities q' = tag_identities q"
  shows "ide_sorted q'"
proof -
  have "bl.sorted_by (\<lambda>k op. names_parent q op k \<and> tagged q op) (ide_backlog q)"
    using assms(1) by (simp add: ide_sorted_def)
  then have "bl.sorted_by (\<lambda>k op. names_parent q' op k \<and> tagged q' op) (ide_backlog q)"
    by (rule bl.sorted_by_mono) (use assms(2,6) names_parent_mono in \<open>auto simp: tagged_def\<close>)
  moreover have "\<forall>t k. tag_identities q t = Some k \<longrightarrow> told q' t k"
    using assms(1,2) unfolding ide_sorted_def told_def by blast
  ultimately show ?thesis using assms(1,3-6) unfolding ide_sorted_def tagged_def by simp
qed

text \<open>Identities of one peer with ids up to \<open>c\<close>.\<close>

definition identities_of :: "u32 \<Rightarrow> u32 \<Rightarrow> (u32 \<rightharpoonup> key) \<Rightarrow> bool" where
  "identities_of p c m \<longleftrightarrow> (\<forall>k \<in> ran m. snd k = p \<and> fst k \<le> c)"

lemma identities_of_mono: "identities_of p c m \<Longrightarrow> c \<le> c' \<Longrightarrow> identities_of p c' m"
  unfolding identities_of_def by (meson order.trans)

lemma identities_of_upd: "identities_of p c m \<Longrightarrow> identities_of p c (m(t \<mapsto> (c, p)))"
  by (auto simp: identities_of_def ran_def split: if_splits)

definition queue_typed :: "shar_queue \<Rightarrow> bool" where
  "queue_typed q \<longleftrightarrow>
     net_sorted q \<and> ide_sorted q \<and> ide_worklist q = [] \<and> network_worklist q = [] \<and>
     identities_of (peer q) (counter q) (tag_identities q)"

section \<open>Calls of the network\<close>

lemma dir_name_on_file: "on_file d p call = Some (d', r) \<Longrightarrow> dir_name d' = dir_name d"
  by (auto simp: on_file_def split: option.splits prod.splits)

lemmas dir_name_calls = dir_name_on_file [of _ _ "\<lambda>f. add_crdt f _ _", folded dir_add_crdt_def]
  dir_name_on_file [of _ _ "\<lambda>f. remove_crdt f _ _", folded dir_remove_crdt_def]

text \<open>A move of the network side leaves the IDE side as it is.\<close>

definition net_moves :: "shar_queue \<Rightarrow> shar_queue \<Rightarrow> bool" where
  "net_moves q q' \<longleftrightarrow>
     settings q' = settings q \<and> counter q \<le> counter q' \<and> confirmed q' = confirmed q \<and>
     set (events q) \<subseteq> set (events q') \<and>
     ide_backlog q' = ide_backlog q \<and> ide_tag_backlog q' = ide_tag_backlog q \<and>
     ide_worklist q' = ide_worklist q \<and> tag_identities q' = tag_identities q \<and>
     (net_sorted q \<longrightarrow> net_sorted q')"

lemma net_moves_refl [simp]: "net_moves q q"
  by (simp add: net_moves_def)

lemma net_moves_trans: "net_moves q r \<Longrightarrow> net_moves r s \<Longrightarrow> net_moves q s"
  unfolding net_moves_def by (auto intro: order.trans)

lemma net_moves_worklist [simp]:
  "net_moves (q\<lparr>network_worklist := w\<rparr>) q' = net_moves q q'"
  by (simp add: net_moves_def settings_def tree_root_def confirmed_def net_sorted_def)

lemma net_moves_dependants [simp]: "net_moves q (queue_dependants k q)"
  by (auto simp: net_moves_def settings_def confirmed_def net_sorted_def tree_root_def
      queue_dependants_def intro: bl.sorted_by_take_out)

lemma remove_operation_moves:
  "remove_operation op q = Some (q', r) \<Longrightarrow> net_moves q q' \<and> events q' = events q"
  by (auto simp: remove_operation_def net_moves_def settings_def tree_root_def confirmed_def
      net_sorted_def dir_name_calls intro!: bl.sorted_by_push split: if_splits option.splits sum.splits)

lemma remove_network_moves: "remove_network_operation r q = Some q' \<Longrightarrow> net_moves q q'"
  by (auto simp: remove_network_operation_def Let_def fire_Some net_moves_def settings_def
      tree_root_def confirmed_def net_sorted_def dest!: remove_operation_moves split: option.splits)

lemma remove_ide_moves: "remove_ide_operation r q = Some q' \<Longrightarrow> net_moves q q'"
  by (auto simp: remove_ide_operation_def fire_Some net_moves_def settings_def
      tree_root_def confirmed_def net_sorted_def dest!: remove_operation_moves split: option.splits)

lemma network_insert_moves: "network_insert a q = Some (q', r) \<Longrightarrow> net_moves q q'"
  by (auto simp: network_insert_def Let_def fire_Some net_moves_def settings_def tree_root_def
      confirmed_def net_sorted_def dir_name_calls intro!: bl.sorted_by_push
      split: if_splits option.splits sum.splits prod.splits)

interpretation moves: network_relation net_moves
proof
  show "net_moves q r \<Longrightarrow> net_moves r s \<Longrightarrow> net_moves q s" for q r s by (rule net_moves_trans)
  show "net_moves q (q\<lparr>network_worklist := w\<rparr>)" for q w
    by (simp add: net_moves_def settings_def tree_root_def confirmed_def net_sorted_def)
qed (simp_all add: network_insert_moves remove_network_moves)

lemma add_network_moves:
  assumes "add_network_operation a q = Some q'" "network_worklist q = []"
  shows "net_moves q q' \<and> network_worklist q' = []"
proof -
  from assms(1) obtain q1 r where r: "network_insert a q = Some (q1, r)"
    "r = None \<and> q' = q1 \<or> (\<exists>k. r = Some k \<and> clear_network_backlog k q1 = Some q')"
    by (auto simp: add_network_operation_def split: option.splits)
  have "network_worklist q1 = []" using network_insert_pending [OF r(1)] assms(2) by simp
  with r(2) have "network_worklist q' = []"
    by (auto simp: clear_network_backlog_def dest: moves.related_drain split: option.splits)
  with moves.related_add [OF assms(1)] show ?thesis ..
qed

section \<open>Calls of the IDE\<close>

text \<open>A move of the IDE side, its identities being given.\<close>

definition ide_moves :: "shar_queue \<Rightarrow> shar_queue \<Rightarrow> bool" where
  "ide_moves q q' \<longleftrightarrow>
     settings q' = settings q \<and> counter q' = counter q \<and> confirmed q' = confirmed q \<and>
     set (events q) \<subseteq> set (events q') \<and>
     tag_identities q' = tag_identities q \<and> network_backlog q' = network_backlog q \<and>
     network_worklist q' = network_worklist q"

lemma ide_moves_refl [simp]: "ide_moves q q"
  by (simp add: ide_moves_def)

lemma ide_moves_trans: "ide_moves q r \<Longrightarrow> ide_moves r s \<Longrightarrow> ide_moves q s"
  by (auto simp: ide_moves_def)

lemma ide_moves_frame [simp]:
  "ide_moves (q\<lparr>ide_worklist := w\<rparr>) q' = ide_moves q q'"
  "ide_moves (queue_ide_dependants k q) q' = ide_moves q q'"
  "ide_moves (queue_tag_dependants t q) q' = ide_moves q q'"
  by (simp_all add: ide_moves_def queue_ide_dependants_def queue_tag_dependants_def settings_def
      tree_root_def confirmed_def)

lemma ide_insert_moves: "ide_insert op q = Some (q', r) \<Longrightarrow> ide_moves q q'"
  by (auto simp: ide_insert_def Let_def ide_moves_def settings_def tree_root_def confirmed_def
      dir_name_calls split: if_splits option.splits sum.splits prod.splits)

lemma sorted_told:
  "ide_sorted q \<Longrightarrow> ide_parent op q = Some k \<Longrightarrow> names_parent q op k"
  unfolding ide_sorted_def ide_parent_def names_parent_def
  by (cases k; cases "ia_parent_id op"; cases "ia_parent_peer op"; cases "ia_parent_tag op") auto

text \<open>What the invariant reads of the queue.\<close>

lemma told_frame [simp]:
  "told (q\<lparr>tree := t\<rparr>) = told q" "told (q\<lparr>ide_backlog := b\<rparr>) = told q"
  "told (q\<lparr>ide_tag_backlog := b'\<rparr>) = told q" "told (q\<lparr>ide_worklist := w\<rparr>) = told q"
  by (auto simp: told_def intro!: ext)

lemma names_parent_frame [simp]:
  "names_parent (q\<lparr>tree := t\<rparr>) = names_parent q"
  "names_parent (q\<lparr>ide_backlog := b\<rparr>) = names_parent q"
  "names_parent (q\<lparr>ide_tag_backlog := b'\<rparr>) = names_parent q"
  "names_parent (q\<lparr>ide_worklist := w\<rparr>) = names_parent q"
  by (intro ext; simp add: names_parent_def split: option.split)+

lemma ide_insert_sorted:
  assumes "ide_insert op q = Some (q', r)" "ide_sorted q" "tagged q op"
  shows "ide_sorted q'"
proof (cases "ide_parent op q")
  case None
  then show ?thesis
    using assms by (auto simp: ide_insert_def ide_parent_def ide_sorted_def tagged_def
        intro!: bl.sorted_by_push split: option.splits)
next
  case (Some k)
  with sorted_told [OF assms(2)] have "names_parent q op k" .
  with Some show ?thesis
    using assms by (auto simp: ide_insert_def Let_def ide_sorted_def tagged_def
        intro!: bl.sorted_by_push split: option.splits sum.splits prod.splits)
qed

lemma ide_dependants_sorted: "ide_sorted q \<Longrightarrow> ide_sorted (queue_ide_dependants k q)"
  by (auto simp: ide_sorted_def queue_ide_dependants_def tagged_def
      intro: bl.sorted_by_take_out dest: bl.sorted_by_got)

lemma ide_announce_moves:
  "ide_announce op c p q = Some q' \<Longrightarrow> ide_moves q q' \<and> (ide_sorted q \<longrightarrow> ide_sorted q')"
  by (auto simp: ide_announce_def Let_def fire_Some ide_moves_def settings_def tree_root_def
      confirmed_def split: option.splits elim!: ide_sorted_kept)

lemma ide_item_keeps:
  assumes "ide_item op q = Some q'" "ide_sorted q" "tagged q op"
  shows "ide_moves q q' \<and> ide_sorted q'"
proof -
  from assms(1) obtain q1 r where r: "ide_insert op q = Some (q1, r)"
    "r = None \<and> q' = q1 \<or>
     (\<exists>c p. r = Some (c, p) \<and> ide_announce op c p (queue_ide_dependants (crdt_key c) q1) = Some q')"
    by (auto simp: ide_item_def split: option.splits)
  have q1: "ide_moves q q1" "ide_sorted q1"
    using ide_insert_moves [OF r(1)] ide_insert_sorted [OF r(1) assms(2,3)] by simp_all
  then show ?thesis
    using r(2) ide_announce_moves ide_dependants_sorted [OF q1(2)] ide_moves_trans [OF q1(1)]
    by (metis ide_moves_frame(2))
qed

lemma drain_ide_keeps:
  assumes "drain_ide_worklist q = Some q'" "ide_sorted q"
  shows "ide_moves q q' \<and> ide_sorted q' \<and> ide_worklist q' = []"
proof -
  have "(ide_moves q q' \<and> ide_sorted q') \<and> ide_worklist q' = []"
  proof (rule ide_loop.drain_invariant [where P = "\<lambda>r. ide_moves q r \<and> ide_sorted r"])
    fix s i "is" s'
    assume s: "ide_moves q s \<and> ide_sorted s" "ide_worklist s = i # is"
      "ide_item i (s\<lparr>ide_worklist := tl (ide_worklist s)\<rparr>) = Some s'"
    let ?s = "s\<lparr>ide_worklist := tl (ide_worklist s)\<rparr>"
    have "ide_sorted ?s" "tagged ?s i" using s by (auto simp: ide_sorted_def tagged_def)
    from ide_item_keeps [OF s(3) this] s(1) show "ide_moves q s' \<and> ide_sorted s'"
      using ide_moves_trans by (metis ide_moves_frame(1))
  qed (use assms in simp_all)
  then show ?thesis by blast
qed

lemma clear_ide_keeps:
  assumes "clear_ide_backlog k q = Some q'" "ide_sorted q"
  shows "ide_moves q q' \<and> ide_sorted q'"
proof (cases "map_of (ide_backlog q) k")
  case None
  then show ?thesis using assms by (simp add: clear_ide_backlog_def)
next
  case (Some l)
  then have "drain_ide_worklist (queue_ide_dependants k q) = Some q'"
    using assms(1) by (simp add: clear_ide_backlog_def)
  from drain_ide_keeps [OF this ide_dependants_sorted [OF assms(2)]] show ?thesis by simp
qed

lemma add_ide_inner_keeps:
  assumes "add_ide_operation_inner op q = Some q'" "ide_sorted q" "tagged q op"
  shows "ide_moves q q' \<and> ide_sorted q'"
proof -
  from assms(1) obtain q1 r where r: "ide_insert op q = Some (q1, r)"
    "r = None \<and> q' = q1 \<or>
     (\<exists>c p q2. r = Some (c, p) \<and> clear_ide_backlog (crdt_key c) q1 = Some q2 \<and>
        ide_announce op c p q2 = Some q')"
    by (auto simp: add_ide_operation_inner_def split: option.splits elim!: bind_SomeE)
  have q1: "ide_moves q q1" "ide_sorted q1"
    using ide_insert_moves [OF r(1)] ide_insert_sorted [OF r(1) assms(2,3)] by simp_all
  then show ?thesis
    using r(2) clear_ide_keeps [OF _ q1(2)] ide_announce_moves ide_moves_trans by metis
qed

text \<open>The new identity: its tag is waited for no more.\<close>

lemma assign_identity_keeps:
  assumes "assign_identity op q = Some q'" "ide_sorted q"
  shows "settings q' = settings q \<and> counter q' = counter q + 1 \<and>
    confirmed q' = confirmed q @ [(counter q + 1, peer q)] \<and>
    tag_identities q' = (tag_identities q)(ia_tag op \<mapsto> (counter q + 1, peer q)) \<and>
    network_backlog q' = network_backlog q \<and> network_worklist q' = network_worklist q \<and>
    tagged q' op \<and> ide_sorted (queue_tag_dependants (ia_tag op) q')"
proof -
  have q': "q' = q\<lparr>counter := counter q + 1,
      tag_identities := (tag_identities q)(ia_tag op \<mapsto> (counter q + 1, peer q)),
      events := events q @ [Ide_add_confirmed (IdeAddConfirmed_new (ia_tag op) (counter q + 1) (peer q))]\<rparr>"
    using assms(1) by (auto simp: assign_identity_def Let_def fire_Some)
  have mono: "tagged q x \<Longrightarrow> tagged q' x" for x by (simp add: tagged_def q')
  have old: "bl.sorted_by (\<lambda>t x. ia_parent_tag x = Some t \<and> tag_identities q t = None \<and> tagged q x)
      (ide_tag_backlog q)"
    using assms(2) by (simp add: ide_sorted_def)
  have old': "bl.sorted_by (\<lambda>k x. names_parent q x k \<and> tagged q x) (ide_backlog q)"
    using assms(2) by (simp add: ide_sorted_def)
  have names: "names_parent q x k \<Longrightarrow> names_parent q' x k" for x k
    by (rule names_parent_mono) (auto simp: q')
  have "bl.sorted_by (\<lambda>t x. ia_parent_tag x = Some t \<and> tag_identities q' t = None \<and> tagged q' x)
      (bl_remove (ia_tag op) (ide_tag_backlog q))"
    by (rule bl.sorted_by_mono [OF bl.sorted_by_take_out [OF old]])
      (use mono in \<open>auto simp: bl_get_remove q' split: if_splits\<close>)
  moreover have "bl.sorted_by (\<lambda>k x. names_parent q' x k \<and> tagged q' x) (ide_backlog q)"
    by (rule bl.sorted_by_mono [OF old']) (use mono names in blast)
  moreover have "told q' t k" if "tag_identities q' t = Some k" for t k
    using that assms(2) unfolding ide_sorted_def told_def q' by (fastforce split: if_splits)
  moreover have "tagged q' x" if "x \<in> set (ide_worklist q) \<union> set (bl_get (ide_tag_backlog q) (ia_tag op))" for x
    using that assms(2) mono unfolding ide_sorted_def by (auto dest: bl.sorted_by_got)
  ultimately have "ide_sorted (queue_tag_dependants (ia_tag op) q')"
    unfolding ide_sorted_def by (simp add: queue_tag_dependants_def tagged_def q')
  moreover have "tagged q' op" by (simp add: tagged_def q')
  ultimately show ?thesis
    by (simp add: q' settings_def tree_root_def confirmed_def IdeAddConfirmed_new_def)
qed

lemma add_ide_keeps:
  assumes "add_ide_operation op q = Some q'" "ide_sorted q"
  shows "settings q' = settings q \<and> counter q' = counter q + 1 \<and>
    confirmed q' = confirmed q @ [(counter q + 1, peer q)] \<and>
    tag_identities q' = (tag_identities q)(ia_tag op \<mapsto> (counter q + 1, peer q)) \<and>
    network_backlog q' = network_backlog q \<and> network_worklist q' = network_worklist q \<and>
    ide_sorted q' \<and> ide_worklist q' = []"
proof -
  from assms(1) obtain q1 q2 where q: "assign_identity op q = Some q1"
    "add_ide_operation_inner op (queue_tag_dependants (ia_tag op) q1) = Some q2"
    "drain_ide_worklist q2 = Some q'" by (rule add_ide_stages)
  note q1 = assign_identity_keeps [OF q(1) assms(2)]
  then have "tagged (queue_tag_dependants (ia_tag op) q1) op"
    by (simp add: tagged_def queue_tag_dependants_def)
  with add_ide_inner_keeps [OF q(2)] q1 have q2: "ide_moves q1 q2" "ide_sorted q2" by simp_all
  from drain_ide_keeps [OF q(3) q2(2)] ide_moves_trans [OF q2(1)] have
    "ide_moves q1 q'" "ide_sorted q'" "ide_worklist q' = []" by simp_all
  with q1 show ?thesis by (simp add: ide_moves_def)
qed

section \<open>Runs keep the queue typed\<close>

lemma net_moves_typed:
  assumes "net_moves q q'" "network_worklist q' = []" "queue_typed q"
  shows "queue_typed q' \<and> settings q' = settings q \<and> confirmed q' = confirmed q \<and> counter q \<le> counter q'"
proof -
  have q: "settings q' = settings q" "confirmed q' = confirmed q" "counter q \<le> counter q'"
    "net_sorted q'" "peer q' = peer q" "ide_worklist q' = []" "tag_identities q' = tag_identities q"
    using assms by (simp_all add: net_moves_def queue_typed_def settings_def)
  moreover have "ide_sorted q'"
    by (rule ide_sorted_kept [of q]) (use assms in \<open>simp_all add: net_moves_def queue_typed_def\<close>)
  moreover have "identities_of (peer q) (counter q') (tag_identities q)"
    using assms(3) identities_of_mono [OF _ q(3)] by (simp add: queue_typed_def)
  ultimately show ?thesis using assms(2) by (simp add: queue_typed_def)
qed

lemma queue_call_cases:
  assumes "queue_call q q'" "queue_typed q"
  shows "queue_typed q' \<and> settings q' = settings q \<and>
    (confirmed q' = confirmed q \<and> counter q \<le> counter q' \<or>
     confirmed q' = confirmed q @ [(counter q', peer q)] \<and> counter q < counter q')"
  using assms
proof cases
  case (ide_adds op)
  have "ide_sorted q" using assms(2) by (simp add: queue_typed_def)
  note k = add_ide_keeps [OF ide_adds(2) this] word_succ_less [OF ide_adds(1)]
  then have less: "counter q < counter q'" by simp
  have "peer q' = peer q" using k by (simp add: settings_def)
  moreover have "identities_of (peer q) (counter q') (tag_identities q)"
    using assms(2) identities_of_mono [OF _ less_imp_le [OF less]] by (simp add: queue_typed_def)
  then have "identities_of (peer q) (counter q') (tag_identities q')"
    using identities_of_upd k by simp
  ultimately have "queue_typed q'" using k assms(2) by (simp add: queue_typed_def net_sorted_def)
  with k less show ?thesis by simp
next
  case (ide_removes r)
  have "network_worklist q' = network_worklist q"
    using ide_removes remove_operation_pending
    by (fastforce simp: remove_ide_operation_def fire_Some split: option.splits)
  then show ?thesis
    using net_moves_typed [OF remove_ide_moves [OF ide_removes]] assms(2) by (simp add: queue_typed_def)
next
  case (network_adds a)
  have "network_worklist q = []" using assms(2) by (simp add: queue_typed_def)
  from add_network_moves [OF network_adds this] show ?thesis using net_moves_typed assms(2) by blast
next
  case (network_removes r)
  have "network_worklist q' = network_worklist q"
    using network_removes remove_operation_pending
    by (fastforce simp: remove_network_operation_def Let_def fire_Some split: option.splits)
  then show ?thesis
    using net_moves_typed [OF remove_network_moves [OF network_removes]] assms(2)
    by (simp add: queue_typed_def)
qed

lemma queue_run_keeps:
  "queue_run q q' \<Longrightarrow> queue_typed q \<Longrightarrow> queue_typed q' \<and> settings q' = settings q"
proof (induction rule: queue_run.induct)
  case (run_more q q1 q2)
  then show ?case using queue_call_cases [OF run_more.hyps(2)] by simp
qed simp

lemma queue_of_typed: "queue_typed (queue_of d c p)"
  by (simp add: queue_typed_def net_sorted_def ide_sorted_def queue_of_def bl.sorted_by_def bl_get_def
      identities_of_def)

text \<open>The identities of a run, each above all before it.\<close>

lemma queue_run_confirms:
  assumes "queue_run q q'" "queue_typed q"
  shows "\<exists>ks. confirmed q' = confirmed q @ ks \<and> sorted_wrt (<) (map fst ks) \<and> counter q \<le> counter q' \<and>
    (\<forall>k \<in> set ks. snd k = peer q \<and> counter q < fst k \<and> fst k \<le> counter q')"
  using assms
proof (induction rule: queue_run.induct)
  case (run_none q)
  then show ?case by (intro exI [of _ "[]"]) simp
next
  case (run_more q q1 q2)
  then obtain ks where ks: "confirmed q1 = confirmed q @ ks" "sorted_wrt (<) (map fst ks)"
    "counter q \<le> counter q1" "\<forall>k \<in> set ks. snd k = peer q \<and> counter q < fst k \<and> fst k \<le> counter q1"
    by blast
  have t: "queue_typed q1" "peer q1 = peer q"
    using queue_run_keeps [OF run_more.hyps(1) run_more.prems] by (simp_all add: settings_def)
  from queue_call_cases [OF run_more.hyps(2) t(1)] consider
      (same) "confirmed q2 = confirmed q1" "counter q1 \<le> counter q2"
    | (new) "confirmed q2 = confirmed q1 @ [(counter q2, peer q1)]" "counter q1 < counter q2" by blast
  then show ?case
  proof cases
    case same
    then show ?thesis using ks by (intro exI [of _ ks]) (auto intro: order.trans)
  next
    case new
    then have "\<forall>k \<in> set ks. fst k < counter q2" using ks(4) by (auto intro: le_less_trans)
    then show ?thesis
      using ks new t(2)
      by (intro exI [of _ "ks @ [(counter q2, peer q1)]"])
        (auto simp: sorted_wrt_append intro: le_less_trans less_imp_le)
  qed
qed

section \<open>Properties\<close>

lemma sample_types: "\<exists>q. queue_run sample_queue q \<and> confirmed q = [(5, 1)]"
proof -
  have c: "counter sample_queue = 4" "peer sample_queue = 1" "confirmed sample_queue = []"
    by (simp_all add: sample_queue_def queue_of_def confirmed_def)
  obtain q where q: "add_ide_operation type_z sample_queue = Some q"
    using add_ide_typed [of sample_queue type_z "[''t'']" sample_file "(4, 0)" 3]
      sample_dir_inv sample_counted sample_quiet
    by (auto simp: sample_queue_simps type_z_simps sample_dir_lookup flat_def)
  have typed: "queue_typed sample_queue" unfolding sample_queue_def by (rule queue_of_typed)
  then have "ide_sorted sample_queue" by (simp add: queue_typed_def)
  with add_ide_keeps [OF q] have "confirmed q = [(5, 1)]" by (simp add: c)
  moreover have "queue_run sample_queue q"
    by (rule run_more [OF run_none ide_adds [OF _ q]]) (simp add: c)
  ultimately show ?thesis by blast
qed

text \<open>
  C14. Every run of calls that return, each insertion of the IDE with an id left, keeps the queue
  typed. A message that waits for a character is filed under the identity it needs; an insertion of
  the IDE that waits for a character under the parent it names, the identity or one that the IDE was
  told for the tag; what waits for a tag is filed under that tag and the tag has no identity yet. Every
  insertion of the IDE that waits has an identity of this peer, so that the \<open>expect\<close> of its lookup
  never fires; both worklists are empty between two operations, and the peer, the root and the
  callbacks are those of the start.
\<close>

theorem queue_runs_typed:
  assumes "queue_run q q'" "queue_typed q"
  shows "queue_typed q' \<and> settings q' = settings q"
  using assms by (rule queue_run_keeps)

theorem queue_runs_typed_witness:
  "\<exists>q. queue_run sample_queue q \<and> confirmed q = [(5, 1)] \<and> queue_typed q \<and>
     settings q = settings sample_queue"
proof -
  obtain q where q: "queue_run sample_queue q" "confirmed q = [(5, 1)]" using sample_types by blast
  have "queue_typed sample_queue" unfolding sample_queue_def by (rule queue_of_typed)
  from queue_runs_typed [OF q(1) this] q show ?thesis by blast
qed

text \<open>
  C15. No identity is given twice. In every run of a freshly opened queue, whatever the
  network delivers in between, the identities confirmed to the IDE are those of this peer with ids
  that increase, start above the counter at the opening and never exceed the counter, so that none
  is the identity of a character that was there at the opening.
\<close>

theorem identities_fresh:
  assumes "queue_run (queue_of d c p) q" "\<forall>x \<in> nodes d. fst (snd x) \<le> c"
  shows "sorted_wrt (<) (map fst (confirmed q)) \<and>
    (\<forall>k \<in> set (confirmed q). snd k = p \<and> fst k \<le> counter q \<and> k \<notin> snd ` nodes d)"
proof -
  have "peer (queue_of d c p) = p" "counter (queue_of d c p) = c" "confirmed (queue_of d c p) = []"
    by (simp_all add: queue_of_def confirmed_def)
  with queue_run_confirms [OF assms(1) queue_of_typed] have
    "sorted_wrt (<) (map fst (confirmed q))"
    "\<forall>k \<in> set (confirmed q). snd k = p \<and> c < fst k \<and> fst k \<le> counter q" by auto
  with assms(2) show ?thesis by (fastforce simp: not_le)
qed

theorem identities_fresh_witness:
  "\<exists>q. queue_run sample_queue q \<and> confirmed q = [(5, 1)] \<and> (5, 1) \<notin> snd ` nodes sample_dir \<and>
     5 \<le> counter q"
proof -
  obtain q where q: "queue_run sample_queue q" "confirmed q = [(5, 1)]" using sample_types by blast
  with identities_fresh [of sample_dir 4 1 q] sample_ids show ?thesis
    by (auto simp: sample_queue_def)
qed

end
