(* ===== verification/Anomalies.thy ===== *)
theory Anomalies
  imports Samples
begin

text \<open>
  What the file operations do where the documentation says otherwise: replicas that received the same
  operations and differ, line breaks in the wrong row below a tombstone, a removal that panics, a
  sentinel that is no longer the first element. They mark the limits of the theorems of
  \<open>FileProperties\<close>.
\<close>

text \<open>A file of one character \<open>P\<close>.\<close>

definition one_char :: shar_file where
  "one_char =
     \<lparr>file_path = [''/'', ''t''],
      characters = [root \<mapsto> CrdtRelation_new 0 0 0, (1, 0) \<mapsto> CrdtRelation_new 80 0 0],
      projection = [[root, (1, 0)]]\<rparr>"

text \<open>The definitions that a concrete run evaluates.\<close>

lemmas run_simps = one_char_def add_step_def remove_step_def add_crdt_def remove_crdt_def
  remove_line_def place_crdt_def add_line_to_projection_def find_crdt_def find_tombstone.simps
  tombstone_slot_def scan_range_def vec_get_def vec_insert_def vec_remove_def is_line_break_def
  Let_def upt_rec ring_search.simps check_up_def check_down_def

section \<open>Divergence\<close>

text \<open>
  The loop of \<open>add_crdt\<close> stops at the first element with another parent, so a sibling hides behind
  its own children: \<open>x\<close> of peer 2 belongs behind \<open>a\<close> of peer 1, and lands before \<open>b\<close>, typed after
  \<open>a\<close>, or behind it, depending on which arrived first.
\<close>

lemma subtree_orders:
  "map_option projection (run_ops add_step
     [(0, CRDT_new 2 1 (CrdtRelation_new 97 1 0)), (0, CRDT_new 3 1 (CrdtRelation_new 98 2 1)),
      (0, CRDT_new 2 2 (CrdtRelation_new 120 1 0))] one_char) =
     Some [[root, (1, 0), (2, 1), (2, 2), (3, 1)]]"
  "map_option projection (run_ops add_step
     [(0, CRDT_new 2 2 (CrdtRelation_new 120 1 0)), (0, CRDT_new 2 1 (CrdtRelation_new 97 1 0)),
      (0, CRDT_new 3 1 (CrdtRelation_new 98 2 1))] one_char) =
     Some [[root, (1, 0), (2, 1), (3, 1), (2, 2)]]"
  by (simp_all add: run_simps)

text \<open>Two line breaks below one parent: the later arrival is the earlier line.\<close>

lemma break_orders:
  "map_option projection (run_ops add_step
     [(0, CRDT_new 2 1 (CrdtRelation_new 10 1 0)), (0, CRDT_new 2 2 (CrdtRelation_new 10 1 0))] one_char) =
     Some [[root, (1, 0)], [(2, 2)], [(2, 1)]]"
  "map_option projection (run_ops add_step
     [(0, CRDT_new 2 2 (CrdtRelation_new 10 1 0)), (0, CRDT_new 2 1 (CrdtRelation_new 10 1 0))] one_char) =
     Some [[root, (1, 0)], [(2, 1)], [(2, 2)]]"
  by (simp_all add: run_simps)

section \<open>What follows for the replicas\<close>

lemma diverge:
  assumes "map_option projection x = Some p" "map_option projection y = Some q" "p \<noteq> q"
  shows "\<exists>g h. x = Some g \<and> y = Some h \<and> projection g = p \<and> projection h = q \<and> \<not> shar_file_eq g h"
  using assms by (auto simp: shar_file_eq_def)

text \<open>
  Replicas can diverge on ordinary characters: \<open>a\<close> of peer 1 and \<open>x\<close> of peer 2 below one parent,
  with equal ids, and \<open>b\<close> below \<open>a\<close>. Both orders deliver every parent before its child, both run to
  the end, and the files differ: the text reads \<open>P a x b\<close> on one replica, \<open>P a b x\<close> on the other.
\<close>

theorem replicas_diverge:
  "\<exists>g h. run_ops add_step
       [(0, CRDT_new 2 1 (CrdtRelation_new 97 1 0)), (0, CRDT_new 3 1 (CrdtRelation_new 98 2 1)),
        (0, CRDT_new 2 2 (CrdtRelation_new 120 1 0))] one_char = Some g \<and>
     run_ops add_step
       [(0, CRDT_new 2 2 (CrdtRelation_new 120 1 0)), (0, CRDT_new 2 1 (CrdtRelation_new 97 1 0)),
        (0, CRDT_new 3 1 (CrdtRelation_new 98 2 1))] one_char = Some h \<and>
     projection g = [[root, (1, 0), (2, 1), (2, 2), (3, 1)]] \<and>
     projection h = [[root, (1, 0), (2, 1), (3, 1), (2, 2)]] \<and> \<not> shar_file_eq g h"
  by (rule diverge [OF subtree_orders]) simp

text \<open>Insertions with growing ids.\<close>

lemma newest_step:
  assumes f: "wf_file f" "newest f c" "flat f = us @ parent_key (crdt_relation c) # vs"
    and c: "characters f (crdt_key c) = None" "\<not> cr_deleted (crdt_relation c)"
  obtains g where "\<And>n. add_step (n, c) f = Some g" "wf_file g" "file_path g = file_path f"
    "characters g = (characters f)(crdt_key c \<mapsto> crdt_relation c)"
    "flat g = us @ parent_key (crdt_relation c) # crdt_key c # vs"
    "\<And>d. crdt_id c < crdt_id d \<Longrightarrow> newest g d"
proof -
  have "parent_key (crdt_relation c) \<in> live_keys (characters f)"
    using wf_fileD(4) [OF f(1)] f(3) by auto
  then have "insertable f c" using c by (simp add: insertable_def)
  from add_step_new [OF f(1) this] obtain g where g: "\<And>n. add_step (n, c) f = Some g" "wf_file g"
    "file_path g = file_path f" "characters g = (characters f)(crdt_key c \<mapsto> crdt_relation c)"
    "flat g = insert_order (characters f) (crdt_key c) (crdt_relation c) (flat f)" by blast
  moreover have "newest g d" if "crdt_id c < crdt_id d" for d
    unfolding newest_def
  proof
    fix k assume "k \<in> live_keys (characters g)"
    then have "k = crdt_key c \<or> k \<in> live_keys (characters f)" by (auto simp: g(4) live_keys_def split: if_splits)
    with f(2) that show "fst k < crdt_id d"
      by (auto simp: newest_def crdt_key_def intro: less_trans)
  qed
  ultimately show ?thesis using that insert_order_newest [OF f(1-3) refl] by simp
qed

text \<open>
  C36. One author is enough. A user types two characters \<open>a\<close> and then \<open>b\<close> behind the same character
  \<open>P\<close> of a well-formed file, and \<open>c\<close> behind \<open>b\<close>, so that the ids grow and are above those of the file;
  \<open>a\<close> and \<open>b\<close> are no line breaks. The user reads \<open>P b c a\<close>. A replica that receives the message of \<open>a\<close>
  last has every parent in time and no concurrent edit, whatever the line hints, and reads \<open>P b a c\<close>:
  both have the same characters, and the files differ. What replicas show depends on the order of
  delivery, which gossip does not promise.
\<close>

theorem late_message_diverges:
  assumes f: "wf_file f" "flat f = us @ P # vs" and new: "newest f a" "crdt_id a < crdt_id b" "crdt_id b < crdt_id c"
    and fresh: "\<forall>x \<in> {a, b, c}. characters f (crdt_key x) = None \<and> \<not> cr_deleted (crdt_relation x)"
    and parents: "parent_key (crdt_relation a) = P" "parent_key (crdt_relation b) = P"
      "parent_key (crdt_relation c) = crdt_key b"
    and chars: "\<not> is_line_break (cr_value (crdt_relation a))" "\<not> is_line_break (cr_value (crdt_relation b))"
  shows "\<exists>g h. run_ops add_step [(i, a), (j, b), (k, c)] f = Some g \<and>
    run_ops add_step [(j, b), (k, c), (i, a)] f = Some h \<and>
    flat g = us @ P # crdt_key b # crdt_key c # crdt_key a # vs \<and>
    flat h = us @ P # crdt_key b # crdt_key a # crdt_key c # vs \<and>
    characters g = characters h \<and> \<not> shar_file_eq g h"
proof -
  let ?a = "crdt_key a" and ?b = "crdt_key b" and ?c = "crdt_key c"
  have keys: "?a \<noteq> ?b" "?b \<noteq> ?c" "?a \<noteq> ?c" using new(2,3) by (auto simp: crdt_key_def)
  have P: "P \<in> live_keys (characters f)" using wf_fileD(4) [OF f(1)] f(2) by auto
  have none: "characters f ?a = None" "characters f ?b = None" "characters f ?c = None"
    and live: "\<not> cr_deleted (crdt_relation a)" "\<not> cr_deleted (crdt_relation b)" "\<not> cr_deleted (crdt_relation c)"
    using fresh by simp_all
  have Pb: "P \<noteq> ?b" "P \<noteq> ?c" using P none by (auto simp: live_keys_def)
  have "newest f b" using new(1,2) by (auto simp: newest_def intro: less_trans)
  obtain g1 where g1: "\<And>n. add_step (n, a) f = Some g1" "wf_file g1" "file_path g1 = file_path f"
    "characters g1 = (characters f)(?a \<mapsto> crdt_relation a)" "flat g1 = us @ P # ?a # vs" "newest g1 b"
    by (rule newest_step [OF f(1) new(1), of us vs]) (use f(2) parents(1) none live new(2) in auto)
  obtain g2 where g2: "\<And>n. add_step (n, b) g1 = Some g2" "wf_file g2" "file_path g2 = file_path g1"
    "characters g2 = (characters g1)(?b \<mapsto> crdt_relation b)" "flat g2 = us @ P # ?b # ?a # vs" "newest g2 c"
    by (rule newest_step [OF g1(2,6), of us "?a # vs"]) (use g1(4,5) parents(2) none live keys new(3) in auto)
  obtain g where g: "\<And>n. add_step (n, c) g2 = Some g" "wf_file g" "file_path g = file_path g2"
    "characters g = (characters g2)(?c \<mapsto> crdt_relation c)" "flat g = (us @ [P]) @ ?b # ?c # ?a # vs"
    by (rule newest_step [OF g2(2,6), of "us @ [P]" "?a # vs"]) (use g2(4,5) g1(4) parents(3) none live keys in auto)
  obtain h1 where h1: "\<And>n. add_step (n, b) f = Some h1" "wf_file h1" "file_path h1 = file_path f"
    "characters h1 = (characters f)(?b \<mapsto> crdt_relation b)" "flat h1 = us @ P # ?b # vs" "newest h1 c"
    by (rule newest_step [OF f(1) \<open>newest f b\<close>, of us vs]) (use f(2) parents(2) none live new(3) in auto)
  obtain h2 where h2: "\<And>n. add_step (n, c) h1 = Some h2" "wf_file h2" "file_path h2 = file_path h1"
    "characters h2 = (characters h1)(?c \<mapsto> crdt_relation c)" "flat h2 = (us @ [P]) @ ?b # ?c # vs"
    by (rule newest_step [OF h1(2,6), of "us @ [P]" vs]) (use h1(4,5) parents(3) none live keys in auto)
  have chars2: "characters h2 = (characters f)(?b \<mapsto> crdt_relation b, ?c \<mapsto> crdt_relation c)"
    by (simp add: h2(4) h1(4))
  have "insertable h2 a" using P none live keys Pb by (auto simp: insertable_def chars2 parents live_keys_def)
  from add_step_new [OF h2(2) this] obtain h where h: "\<And>n. add_step (n, a) h2 = Some h" "wf_file h"
    "file_path h = file_path h2" "characters h = (characters h2)(?a \<mapsto> crdt_relation a)"
    "flat h = insert_order (characters h2) ?a (crdt_relation a) (flat h2)" by blast
  have "passes (characters h2) P ?a ?b" "\<not> passes (characters h2) P ?a ?c"
    using chars(2) parents keys new(2) Pb by (simp_all add: passes_def chars2 rank_of_less crdt_key_def)
  moreover have "P \<notin> set us" using wf_fileD(3) [OF f(1)] f(2) by simp
  ultimately have flat_h: "flat h = us @ P # ?b # ?a # ?c # vs"
    using chars(1) parents(1) by (simp add: h(5) h2(5) insert_order_split)
  have "characters g = characters h"
    using keys by (auto simp: g(4) g2(4) g1(4) h(4) chars2)
  moreover have "flat g \<noteq> flat h" unfolding g(5) flat_h using keys by simp
  then have "\<not> shar_file_eq g h" by (auto simp: shar_file_eq_def flat_def)
  ultimately show ?thesis
    using g1(1) g2(1) g(1,5) h1(1) h2(1) h(1) flat_h by simp
qed

theorem late_message_diverges_witness:
  "\<exists>g h. run_ops add_step
       [(0, CRDT_new 5 1 (CrdtRelation_new 97 1 0)), (7, CRDT_new 6 1 (CrdtRelation_new 98 1 0)),
        (0, CRDT_new 7 1 (CrdtRelation_new 99 6 1))] sample_file = Some g \<and>
     run_ops add_step
       [(7, CRDT_new 6 1 (CrdtRelation_new 98 1 0)), (0, CRDT_new 7 1 (CrdtRelation_new 99 6 1)),
        (0, CRDT_new 5 1 (CrdtRelation_new 97 1 0))] sample_file = Some h \<and>
     characters g = characters h \<and> \<not> shar_file_eq g h"
proof -
  let ?a = "CRDT_new 5 1 (CrdtRelation_new 97 1 0)" and ?b = "CRDT_new 6 1 (CrdtRelation_new 98 1 0)"
    and ?c = "CRDT_new 7 1 (CrdtRelation_new 99 6 1)"
  have flat: "flat sample_file = [root] @ (1, 0) # [(3, 0), (4, 0)]" by (simp add: flat_def)
  have new: "newest sample_file ?a" "crdt_id ?a < crdt_id ?b" "crdt_id ?b < crdt_id ?c"
    by (auto simp: newest_def sample_live)
  have fresh: "\<forall>x \<in> {?a, ?b, ?c}. characters sample_file (crdt_key x) = None \<and> \<not> cr_deleted (crdt_relation x)"
    by (simp add: sample_chars_def)
  from late_message_diverges [OF sample_wf flat new fresh, of 0 7 0] show ?thesis
    by (auto simp: is_line_break_def)
qed

text \<open>
  Two line breaks typed by two peers below one character stay in order of arrival, without the
  tie-break on ids and peers: two replicas that received them in different orders differ.
\<close>

theorem line_breaks_diverge:
  "\<exists>g h. run_ops add_step [(0, CRDT_new 2 1 (CrdtRelation_new 10 1 0)),
       (0, CRDT_new 2 2 (CrdtRelation_new 10 1 0))] one_char = Some g \<and>
     run_ops add_step [(0, CRDT_new 2 2 (CrdtRelation_new 10 1 0)),
       (0, CRDT_new 2 1 (CrdtRelation_new 10 1 0))] one_char = Some h \<and>
     projection g = [[root, (1, 0)], [(2, 2)], [(2, 1)]] \<and>
     projection h = [[root, (1, 0)], [(2, 1)], [(2, 2)]] \<and> \<not> shar_file_eq g h"
  by (rule diverge [OF break_orders]) simp

section \<open>Insertions that the climb misplaces\<close>

lemma cut_row:
  assumes "vec_get (projection f) row = Some line"
  obtains A B where "projection f = A @ (take col line @ drop col line) # B" "length A = row"
proof -
  have row: "row < length (projection f)" "projection f ! row = line" using assms by (simp_all add: vec_simps)
  then have "projection f = take row (projection f) @ line # drop (Suc row) (projection f)"
    using nth_split by metis
  then show ?thesis using that row(1) by simp
qed

text \<open>\<open>add_line_to_projection\<close> without a parent on the row: the new row comes before the one it splits.\<close>

lemma place_crdt_break_before:
  assumes "projection f = A @ (xs @ ys) # B" "is_line_break (cr_value r)" "xs \<noteq> []"
  shows "place_crdt f k r (length A, length xs) False =
    Some (f\<lparr>projection := A @ (k # ys) # xs # B\<rparr>, Inr (Some (length A + 1, 0)))"
proof -
  have "vec_insert (length A) (k # ys) (A @ xs # B) = Some (A @ (k # ys) # xs # B)"
    by (rule vec_insert_append)
  then show ?thesis
    using assms by (simp add: place_crdt_def add_line_to_projection_def Let_def vec_get_def)
qed

text \<open>
  C37. A line break below a removed character breaks the rows. In a well-formed file, let a line break
  arrive whose parent is a tombstone that hangs from a live character other than the sentinel, and let
  the climb find the slot of that tombstone between \<open>front\<close> and \<open>rest\<close> of a row. The line break is
  accepted with any hint, but its new row, with \<open>rest\<close>, is put before \<open>front\<close>, so that it is read before
  every character of the row that it follows; the position that is reported is the one of \<open>front\<close>. If
  the row is the first one, the file is no longer well-formed, and removing the line break panics.
\<close>

theorem break_below_tombstone_panics:
  assumes f: "wf_file f" and new: "characters f (crdt_key c) = None" "\<not> cr_deleted (crdt_relation c)"
    and dead: "characters f (parent_key (crdt_relation c)) = Some p" "cr_deleted p"
    and a: "hangs_from (characters f) (parent_key (crdt_relation c)) a" "a \<noteq> root"
    and brk: "is_line_break (cr_value (crdt_relation c))"
  shows "\<exists>f' A front rest B. projection f = A @ (front @ rest) # B \<and> a \<in> set front \<and>
    climbs (characters f) (flat f) (parent_key (crdt_relation c)) (concat A @ front, rest @ concat B) \<and>
    (\<forall>n. add_crdt f n c = Some (f', Inr (Some (Suc (length A), 0)))) \<and>
    projection f' = A @ (crdt_key c # rest) # front # B \<and>
    (A = [] \<longrightarrow> \<not> wf_file f' \<and> (\<forall>n. remove_crdt f' n (crdt_key c) = None))"
proof -
  let ?k = "crdt_key c" and ?par = "parent_key (crdt_relation c)"
  obtain row col line where find: "\<And>n. find_tombstone f n ?par = Some (Inr (row, col))"
    and line: "vec_get (projection f) row = Some line" "col \<le> length line" "a \<in> set (take col line)"
    "climbs (characters f) (flat f) ?par (cut_at f row col)"
    using find_tombstone_slot [OF f a(1)] unfolding slot_behind_def if_not_P [OF a(2)] by blast
  obtain A B where proj: "projection f = A @ (take col line @ drop col line) # B" "length A = row"
    by (rule cut_row [OF line(1)])
  define f' where "f' = f\<lparr>characters := (characters f)(?k \<mapsto> crdt_relation c),
    projection := A @ (?k # drop col line) # take col line # B\<rparr>"
  have len: "length (take col line) = col" "take col line \<noteq> []" using line(2,3) by (cases col; auto)+
  have "place_crdt (f\<lparr>characters := (characters f)(?k \<mapsto> crdt_relation c)\<rparr>) ?k (crdt_relation c) (row, col) False =
      Some (f', Inr (Some (Suc row, 0)))"
    using place_crdt_break_before [of "f\<lparr>characters := (characters f)(?k \<mapsto> crdt_relation c)\<rparr>" A
        "take col line" "drop col line" B "crdt_relation c" ?k] proj len brk by (simp add: f'_def)
  then have add: "add_crdt f n c = Some (f', Inr (Some (Suc row, 0)))" for n
    using find dead new(1) by (simp add: add_crdt_def Let_def)
  have "cut_at f row col = (concat A @ take col line, drop col line @ concat B)"
    using cut_at_split [OF proj(1)] proj(2) len(1) by simp
  then have climb: "climbs (characters f) (flat f) ?par (concat A @ take col line, drop col line @ concat B)"
    using line(4) by simp
  have rootless: "?k \<noteq> root" using new(1) wf_chars_root [OF wf_fileD(1) [OF f]] by auto
  have bad: "\<not> wf_file f' \<and> (\<forall>n. remove_crdt f' n ?k = None)" if A: "A = []"
  proof (intro conjI allI)
    show "\<not> wf_file f'" using rootless A by (auto simp: wf_file_def wf_proj_def f'_def)
    fix n
    let ?g = "f'\<lparr>characters := (characters f')(?k \<mapsto> (crdt_relation c)\<lparr>cr_deleted := True\<rparr>)\<rparr>"
    have "flat f = concat A @ line @ concat B" using proj(1) by (simp add: flat_def)
    then have "distinct (line @ concat B)" "?k \<notin> set (line @ concat B)"
      using wf_fileD(3,4) [OF f] new(1) A by (auto simp: live_keys_def)
    then have "distinct (concat (projection ?g))"
      unfolding f'_def using A distinct_append [of "take col line" "drop col line"]
      by (auto simp del: set_concat dest: in_set_takeD in_set_dropD)
    then have "find_crdt ?g n ?k = Some (Inr (0, 0))"
      by (rule find_crdt_at) (use A rootless in \<open>simp_all add: f'_def\<close>)
    then show "remove_crdt f' n ?k = None"
      using new(2) brk A by (simp add: remove_crdt_def remove_line_def Let_def f'_def vec_get_def vec_remove_def)
  qed
  show ?thesis
    by (intro exI [of _ f'] exI [of _ A] exI [of _ "take col line"] exI [of _ "drop col line"] exI [of _ B] conjI)
      (use proj line(3) climb add bad in \<open>simp_all add: f'_def\<close>)
qed

theorem break_below_tombstone_panics_witness:
  "\<exists>f'. add_crdt sample_file 0 (CRDT_new 9 3 (CrdtRelation_new 10 2 0)) = Some (f', Inr (Some (1, 0))) \<and>
     \<not> wf_file f' \<and> remove_crdt f' 4 (9, 3) = None"
proof -
  let ?c = "CRDT_new 9 3 (CrdtRelation_new 10 2 0)"
  have new: "characters sample_file (crdt_key ?c) = None" "\<not> cr_deleted (crdt_relation ?c)"
    by (simp_all add: sample_chars_def)
  have dead: "characters sample_file (parent_key (crdt_relation ?c)) = Some ((CrdtRelation_new 98 1 0)\<lparr>cr_deleted := True\<rparr>)"
    "cr_deleted ((CrdtRelation_new 98 1 0)\<lparr>cr_deleted := True\<rparr>)" by simp_all
  have hangs: "hangs_from (characters sample_file) (parent_key (crdt_relation ?c)) (1, 0)" "(1, 0) \<noteq> root"
    using sample_hangs by simp_all
  have "is_line_break (cr_value (crdt_relation ?c))" by (simp add: is_line_break_def)
  from break_below_tombstone_panics [OF sample_wf new dead hangs this] obtain f' A front rest B where
    f': "projection sample_file = A @ (front @ rest) # B" "(1, 0) \<in> set front"
      "\<forall>n. add_crdt sample_file n ?c = Some (f', Inr (Some (Suc (length A), 0)))"
      "A = [] \<longrightarrow> \<not> wf_file f' \<and> (\<forall>n. remove_crdt f' n (crdt_key ?c) = None)"
    by (elim exE conjE) (rule that)
  have "A = []" using f'(1,2) by (cases A; cases "tl A") (auto simp: append_eq_Cons_conv Cons_eq_append_conv)
  with f'(3,4) show ?thesis by simp
qed

text \<open>When no ancestor but the sentinel is live, the climb ends before the sentinel.\<close>

lemma climbs_before_sentinel:
  assumes "climbs chars (root # zs) k s" "hangs_from chars k root"
    and "chars root = Some (CrdtRelation_new 0 0 0)" "\<forall>x \<in> dom chars. x \<noteq> root \<longrightarrow> fst x \<noteq> 0" "k \<noteq> root"
  shows "s = ([], root # zs)"
proof -
  have stays: "go_past (passes chars par x) ([], root # zs) = ([], root # zs)"
    if "par \<noteq> root \<or> fst x \<noteq> 0" for par x
    using that assms(3) by (auto simp: passes_def rank_of_less word_neq_0_conv)
  show ?thesis using assms(1,2,5)
  proof (induction rule: climbs.induct)
    case (climbs_first k r p)
    then have "fst k \<noteq> 0" using assms(4) by auto
    then show ?case by (intro stays) simp
  next
    case (climbs_live k r p us vs)
    then have "hangs_from chars k (parent_key r)" by (blast intro: hangs_from.hangs_live)
    then show ?case using hangs_from_unique climbs_live.prems(1) climbs_live.hyps(4) by blast
  next
    case (climbs_tomb k r p s)
    from climbs_tomb.prems(1) climbs_tomb.hyps(1-3) have up: "hangs_from chars (parent_key r) root"
      by (cases rule: hangs_from_elim) auto
    have "parent_key r \<noteq> root" using climbs_tomb.hyps(2,3) assms(3) by auto
    then show ?case using climbs_tomb.IH [OF up] stays by simp
  qed
qed

text \<open>
  C38. The sentinel is displaced. In a well-formed file whose ids are positive, let an ordinary character
  \<open>c\<close> arrive whose parent is a tombstone with no live ancestor but the sentinel: it was typed behind a
  first character that was removed here. With any hint it is put before the sentinel, the first element of
  the first row, so that the file is no longer well-formed; and an ordinary character \<open>x\<close> that
  is then typed at the very start of the file lands behind it.
\<close>

theorem sentinel_displaced:
  assumes f: "wf_file f" "projection f = row # rows" "\<forall>k \<in> dom (characters f). k \<noteq> root \<longrightarrow> fst k \<noteq> 0"
    and dead: "characters f (parent_key (crdt_relation c)) = Some p" "cr_deleted p"
      "hangs_from (characters f) (parent_key (crdt_relation c)) root"
    and new: "characters f (crdt_key c) = None" "\<not> is_line_break (cr_value (crdt_relation c))"
    and x: "characters f (crdt_key x) = None" "crdt_key x \<noteq> crdt_key c" "crdt_id x \<noteq> 0"
      "parent_key (crdt_relation x) = root" "\<not> is_line_break (cr_value (crdt_relation x))"
  shows "\<exists>f' g. (\<forall>n. add_crdt f n c = Some (f', Inr (Some (0, 0)))) \<and>
    projection f' = (crdt_key c # row) # rows \<and> \<not> wf_file f' \<and>
    (\<forall>n. add_crdt f' n x = Some (g, Inr (Some (0, 1)))) \<and>
    projection g = (crdt_key c # crdt_key x # row) # rows"
proof -
  let ?k = "crdt_key c" and ?par = "parent_key (crdt_relation c)"
  note rt = wf_chars_root [OF wf_fileD(1) [OF f(1)]]
  have par: "?par \<noteq> root" using dead(1,2) rt by auto
  obtain zs where row: "row = root # zs" using f(1,2) by (auto simp: wf_file_def wf_proj_def)
  obtain col where find: "\<And>n. find_tombstone f n ?par = Some (Inr (0, col))" and
    col: "col \<le> length row" "climbs (characters f) (flat f) ?par (cut_at f 0 col)"
    using find_tombstone_slot [OF f(1) dead(3)] f(2) by (auto simp: slot_behind_def vec_get_def)
  have "flat f = root # (zs @ concat rows)" by (simp add: flat_def f(2) row)
  from climbs_before_sentinel [OF col(2) [unfolded this] dead(3) rt f(3) par] have "take col row = []"
    by (simp add: cut_at_def f(2))
  then have "col = 0" using row by auto
  with find have find: "find_tombstone f n ?par = Some (Inr (0, 0))" for n by simp
  let ?f1 = "f\<lparr>characters := (characters f)(?k \<mapsto> crdt_relation c)\<rparr>"
  define f' where "f' = ?f1\<lparr>projection := (?k # row) # rows\<rparr>"
  have rootless: "?k \<noteq> root" using new(1) rt by auto
  have "scan_range row 0 0 = 0 # [1 ..< Suc (length row)]"
    by (simp add: scan_range_def upt_conv_Cons del: upt_Suc)
  then have "scan_siblings (characters ?f1) row ?k ?par 0 (scan_range row 0 0) = Some (Slot_at 0)"
    using rt rootless par by (simp add: row vec_get_def)
  then have "place_crdt ?f1 ?k (crdt_relation c) (0, 0) False = Some (f', Inr (Some (0, 0)))"
    using new(2) by (simp add: place_crdt_def Let_def f(2) vec_get_def vec_insert_def f'_def)
  then have add: "add_crdt f n c = Some (f', Inr (Some (0, 0)))" for n
    using find dead(1,2) new(1) by (simp add: add_crdt_def Let_def)
  have bad: "\<not> wf_file f'" using rootless by (auto simp: wf_file_def wf_proj_def f'_def)
  let ?g1 = "f'\<lparr>characters := (characters f')(crdt_key x \<mapsto> crdt_relation x)\<rparr>"
  define g where "g = ?g1\<lparr>projection := (?k # crdt_key x # row) # rows\<rparr>"
  have x': "characters f' (crdt_key x) = None" "characters f' root = Some (CrdtRelation_new 0 0 0)"
    "crdt_key x \<noteq> root" using x(1,2) rt rootless by (auto simp: f'_def)
  have less: "0 < fst (crdt_key x)" using x(3) by (simp add: crdt_key_def word_neq_0_conv)
  have "scan_range (?k # row) 1 0 = 0 # [1 ..< Suc (length row)]"
    by (simp add: scan_range_def upt_conv_Cons del: upt_Suc)
  then have "scan_siblings (characters ?g1) (?k # row) (crdt_key x) root 1 (scan_range (?k # row) 1 0) = Some (Slot_at 1)"
    using x'(2,3) less by (simp add: row vec_get_def)
  then have "place_crdt ?g1 (crdt_key x) (crdt_relation x) (0, 0) True = Some (g, Inr (Some (0, 1)))"
    using x(4,5) by (simp add: place_crdt_def Let_def vec_get_def vec_insert_def g_def f'_def)
  then have "add_crdt f' n x = Some (g, Inr (Some (0, 1)))" for n
    using x' x(4) by (simp add: add_crdt_def Let_def)
  with add bad show ?thesis by (intro exI [of _ f'] exI [of _ g]) (simp add: f'_def g_def)
qed

lemma one_char_wf: "wf_file one_char"
proof -
  have chars: "characters one_char = [root \<mapsto> CrdtRelation_new 0 0 0, (1, 0) \<mapsto> CrdtRelation_new 80 0 0]"
    "projection one_char = [[root, (1, 0)]]" by (simp_all add: one_char_def)
  have rt: "anchored (characters one_char) root" by (rule anchored_root) (simp add: chars)
  then have "anchored (characters one_char) (parent_key (CrdtRelation_new 80 0 0))" by simp
  then have "anchored (characters one_char) (1, 0)" by (rule anchored_step [rotated]) (simp add: chars)
  moreover have "dom (characters one_char) = {root, (1, 0)}" by (auto simp: chars)
  moreover have "root_ok (characters one_char)" by (simp add: root_ok_def chars)
  ultimately have "wf_chars (characters one_char)"
    using rt unfolding wf_chars_def by simp
  moreover have "live_keys (characters one_char) = {root, (1, 0)}"
    by (auto simp: chars live_keys_def CrdtRelation_new_def split: if_splits)
  ultimately show ?thesis
    by (simp add: wf_file_def wf_proj_def) (simp add: chars plain_row_def is_break_def is_line_break_def)
qed

text \<open>The text \<open>P\<close>, removed while another peer types \<open>a\<close> behind it; then \<open>x\<close> is typed first.\<close>

theorem sentinel_displaced_witness:
  "\<exists>f f' g. remove_step (0, (1, 0)) one_char = Some f \<and> wf_file f \<and>
     add_crdt f 0 (CRDT_new 2 1 (CrdtRelation_new 97 1 0)) = Some (f', Inr (Some (0, 0))) \<and> \<not> wf_file f' \<and>
     add_crdt f' 0 (CRDT_new 3 2 (CrdtRelation_new 120 0 0)) = Some (g, Inr (Some (0, 1))) \<and>
     projection g = [[(2, 1), (3, 2), root]]"
proof -
  let ?c = "CRDT_new 2 1 (CrdtRelation_new 97 1 0)" and ?x = "CRDT_new 3 2 (CrdtRelation_new 120 0 0)"
  let ?dead = "(CrdtRelation_new 80 0 0)\<lparr>cr_deleted := True\<rparr>"
  define f where "f = one_char\<lparr>characters := [root \<mapsto> CrdtRelation_new 0 0 0, (1, 0) \<mapsto> ?dead], projection := [[root]]\<rparr>"
  have f: "remove_step (0, (1, 0)) one_char = Some f"
    by (simp add: run_simps f_def)
  have "(1, 0) \<in> live_keys (characters one_char)" by (simp add: live_keys_def one_char_def)
  from remove_crdt_live [OF one_char_wf this] f have wf: "wf_file f"
    by (auto simp: remove_step_def removed_def)
  have chars: "characters f = [root \<mapsto> CrdtRelation_new 0 0 0, (1, 0) \<mapsto> ?dead]" "projection f = [root] # []"
    by (simp_all add: f_def)
  have ids: "\<forall>k \<in> dom (characters f). k \<noteq> root \<longrightarrow> fst k \<noteq> 0" by (simp add: chars)
  have "hangs_from (characters f) (1, 0) (parent_key ?dead)"
    by (rule hangs_live [of _ _ _ "CrdtRelation_new 0 0 0"]) (simp_all add: chars)
  then have hangs: "hangs_from (characters f) (parent_key (crdt_relation ?c)) root" by simp
  from sentinel_displaced [OF wf chars(2) ids _ _ hangs, of ?dead ?x] show ?thesis
    using f wf by (simp add: chars is_line_break_def) blast
qed

end
