(* ===== verification/QueueAnomalies.thy ===== *)
theory QueueAnomalies
  imports QueueProperties Anomalies
begin

text \<open>
  Runs of the queue that end where the comments of the source say they cannot: a peer that asked for
  the state and gets another text, and two documents that mix; and the run in which an insertion waits
  for the tag of its parent and is deleted meanwhile, for \<open>LostDeletion\<close>.
\<close>

text \<open>What the concrete runs evaluate.\<close>

lemmas queue_simps = sample_queue_def sample_dir_def queue_of_def add_ide_operation_def
  assign_identity_def queue_tag_dependants_def add_ide_operation_inner_def ide_insert_def
  ide_parent_def ide_announce_def ide_item_def queue_ide_dependants_def clear_ide_backlog_def
  drain_ide_worklist.simps fire_def IdeAdd_new_def IdeAddConfirmed_new_def Remove_new_def
  NetworkAdd_new_def remove_ide_operation_def remove_operation_def rm_key_def bl_get_def
  bl_remove_def dir_add_crdt_def dir_remove_crdt_def dir_predecessor_identity_def on_file_def
  find_file.simps file_name_def ends_with_def to_relative_path_def tree_root_def

definition op_b :: ide_add where
  "op_b = IdeAdd_new [''/'', ''p'', ''t''] None None (Some 7) 98 8 0"

definition op_a :: ide_add where
  "op_a = IdeAdd_new [''/'', ''p'', ''t''] (Some 4) (Some 0) None 97 7 0"

definition delete_b :: remove where
  "delete_b = Remove_new [''/'', ''p'', ''t''] 5 1 0"

lemma step1:
  "add_ide_operation op_b sample_queue =
     Some (sample_queue\<lparr>ide_tag_backlog := [(7, [op_b])], tag_identities := [8 \<mapsto> (5, 1)], counter := 5,
       events := [Ide_add_confirmed (IdeAddConfirmed_new 8 5 1)]\<rparr>)"
  by (simp add: queue_simps op_b_def)

lemma step2:
  "remove_ide_operation delete_b
     (sample_queue\<lparr>ide_tag_backlog := [(7, [op_b])], tag_identities := [8 \<mapsto> (5, 1)], counter := 5,
       events := [Ide_add_confirmed (IdeAddConfirmed_new 8 5 1)]\<rparr>) =
     Some (sample_queue\<lparr>ide_tag_backlog := [(7, [op_b])], tag_identities := [8 \<mapsto> (5, 1)], counter := 5,
       events := [Ide_add_confirmed (IdeAddConfirmed_new 8 5 1)],
       network_backlog := [((5, 1), [REMOVE delete_b])]\<rparr>)"
proof -
  have "remove_crdt sample_file 0 (5, 1) = Some (sample_file, Inl (Generic ''crdt cannot be found''))"
    by (rule remove_crdt_unknown) (simp add: sample_chars_def)
  then show ?thesis by (simp add: queue_simps delete_b_def vec_get_def)
qed

lemma step3:
  "map_option (\<lambda>q. (map projection (sub_files (tree q)), map (\<lambda>f. characters f (5, 1)) (sub_files (tree q)),
       network_backlog q, ide_worklist q, ide_tag_backlog q))
     (add_ide_operation op_a
       (sample_queue\<lparr>ide_tag_backlog := [(7, [op_b])], tag_identities := [8 \<mapsto> (5, 1)], counter := 5,
       events := [Ide_add_confirmed (IdeAddConfirmed_new 8 5 1)],
       network_backlog := [((5, 1), [REMOVE delete_b])]\<rparr>)) =
   Some ([[[root, (1, 0)], [(3, 0), (4, 0), (6, 1), (5, 1)]]], [Some (CrdtRelation_new 98 6 1)],
     [((5, 1), [REMOVE delete_b])], [], [])"
  by (simp add: queue_simps op_a_def op_b_def run_simps sample_chars_def sample_file_def
    predecessor_identity_def)

section \<open>Hydration\<close>

text \<open>A peer that opens the same shar elsewhere, with the file still empty.\<close>

definition fresh_queue :: shar_queue where
  "fresh_queue = queue_of (SharDirectory [''/'', ''q''] [] [empty_file [''/'', ''q'', ''t'']]) 0 2"

definition sample_listing :: state_listing where
  "sample_listing =
     [([''t''], [((1, 0), CrdtRelation_new 97 0 0),
        ((2, 0), (CrdtRelation_new 98 1 0)\<lparr>cr_deleted := True\<rparr>),
        ((3, 0), CrdtRelation_new 10 2 0), ((4, 0), CrdtRelation_new 99 3 0)])]"

lemma sample_listing_ok: "lists_state sample_listing (queue_full_state sample_queue)"
  by (auto simp: lists_state_def sample_listing_def queue_full_state_def sample_queue_def queue_of_def
      sample_dir_def to_relative_path_def tree_root_def full_state_def sample_chars_def fun_eq_iff)

lemma CRDT_relation_live: "(CrdtRelation_new v i p)\<lparr>cr_deleted := False\<rparr> = CrdtRelation_new v i p"
  "(CrdtRelation_new v i p)\<lparr>cr_deleted := True, cr_deleted := False\<rparr> = CrdtRelation_new v i p"
  by (simp_all add: CrdtRelation_new_def)

lemma hydration_run:
  "map_option (\<lambda>q. map projection (sub_files (tree q))) (replay (to_network_ops sample_listing) fresh_queue) =
     Some [[[(3, 0), (4, 0)], [root, (1, 0)]]]"
  by (simp add: to_network_ops_def char_ops_def sample_listing_def CRDT_relation_live fresh_queue_def
      empty_file_def queue_simps run_simps add_network_operation_def network_insert_def
      clear_network_backlog_def remove_network_operation_def to_local_path_def join_def
      is_absolute_code predecessor_identity_def)

text \<open>
  Catching up can change the text: the sample file reads \<open>a\<close>, a line break, \<open>c\<close>, with a removed \<open>b\<close>
  above the line break. Its full state, in the order of the ids, sent to a peer whose file is still
  empty, ends with the row of the line break before the row of \<open>a\<close>, since the replay inserts the
  line break below a tombstone.
\<close>

theorem hydration_changes_text:
  "\<exists>l q. lists_state l (queue_full_state sample_queue) \<and> replay (to_network_ops l) fresh_queue = Some q \<and>
     map projection (sub_files (tree sample_queue)) = [[[root, (1, 0)], [(3, 0), (4, 0)]]] \<and>
     map projection (sub_files (tree q)) = [[[(3, 0), (4, 0)], [root, (1, 0)]]]"
proof -
  have "map projection (sub_files (tree sample_queue)) = [[[root, (1, 0)], [(3, 0), (4, 0)]]]"
    by (simp add: sample_queue_def queue_of_def sample_dir_def)
  moreover obtain q where "replay (to_network_ops sample_listing) fresh_queue = Some q"
    "map projection (sub_files (tree q)) = [[[(3, 0), (4, 0)], [root, (1, 0)]]]"
    using hydration_run unfolding map_option_eq_Some by (elim exE conjE) (rule that)
  ultimately show ?thesis using sample_listing_ok
    by (intro exI [of _ sample_listing] exI [of _ q] conjI)
qed

section \<open>Two documents\<close>

text \<open>
  Two peers whose directories hold different texts for one file, \<open>Hello\<close> and \<open>Hi\<close>, as
  \<open>info/KNOWN_ISSUES.md\<close> has it: every instance numbers what it finds from 1 for peer 0.
\<close>

definition hello_shar :: fs_dir where
  "hello_shar = Listing [File_entry ''t'' (Inr [72, 101, 108, 108, 111])]"

definition hi_shar :: fs_dir where
  "hi_shar = Listing [File_entry ''t'' (Inr [72, 105])]"

definition hello_file :: shar_file where
  "hello_file =
     \<lparr>file_path = [''/'', ''p'', ''t''],
      characters = [root \<mapsto> CrdtRelation_new 0 0 0, (1, 0) \<mapsto> CrdtRelation_new 72 0 0,
        (2, 0) \<mapsto> CrdtRelation_new 101 1 0, (3, 0) \<mapsto> CrdtRelation_new 108 2 0,
        (4, 0) \<mapsto> CrdtRelation_new 108 3 0, (5, 0) \<mapsto> CrdtRelation_new 111 4 0],
      projection = [[root, (1, 0), (2, 0), (3, 0), (4, 0), (5, 0)]]\<rparr>"

definition hi_file :: shar_file where
  "hi_file =
     \<lparr>file_path = [''/'', ''q'', ''t''],
      characters = [root \<mapsto> CrdtRelation_new 0 0 0, (1, 0) \<mapsto> CrdtRelation_new 72 0 0,
        (2, 0) \<mapsto> CrdtRelation_new 105 1 0],
      projection = [[root, (1, 0), (2, 0)]]\<rparr>"

definition hello_queue :: shar_queue where
  "hello_queue = queue_of (SharDirectory [''/'', ''p''] [] [hello_file]) 5 1"

definition hi_queue :: shar_queue where
  "hi_queue = queue_of (SharDirectory [''/'', ''q''] [] [hi_file]) 2 2"

lemma both_open:
  "SharQueue_new [''/'', ''p''] hello_shar 1 = Some (Inr hello_queue)"
  "SharQueue_new [''/'', ''q''] hi_shar 2 = Some (Inr hi_queue)"
  by (simp_all add: hello_shar_def hi_shar_def hello_queue_def hi_queue_def hello_file_def hi_file_def
      SharQueue_new_def SharFile_new_def add_file_def run_simps)

definition hello_listing :: state_listing where
  "hello_listing =
     [([''t''], [((1, 0), CrdtRelation_new 72 0 0), ((2, 0), CrdtRelation_new 101 1 0),
        ((3, 0), CrdtRelation_new 108 2 0),
        ((4, 0), CrdtRelation_new 108 3 0), ((5, 0), CrdtRelation_new 111 4 0)])]"

lemma hello_listed: "lists_state hello_listing (queue_full_state hello_queue)"
  by (auto simp: lists_state_def hello_listing_def queue_full_state_def hello_queue_def queue_of_def
      to_relative_path_def tree_root_def full_state_def hello_file_def fun_eq_iff)

lemma hi_catches_up:
  "map_option (\<lambda>q. map text_of (sub_files (tree q))) (replay (to_network_ops hello_listing) hi_queue) =
     Some [[72, 105, 108, 108, 111]]"
  by (simp add: to_network_ops_def char_ops_def hello_listing_def CRDT_relation_live hi_queue_def
      hi_file_def queue_simps run_simps add_network_operation_def network_insert_def
      clear_network_backlog_def to_local_path_def join_def
      is_absolute_code predecessor_identity_def text_of_def flat_def char_at_def)
text \<open>
  Different documents mix. A peer that opens a directory with \<open>Hi\<close> and takes over the
  state of one with \<open>Hello\<close> shows \<open>Hillo\<close>: the first two characters are taken for its own ones, the
  others hang below them.
\<close>

theorem documents_mix:
  "\<exists>a b l b'. SharQueue_new [''/'', ''p''] hello_shar 1 = Some (Inr a) \<and>
     SharQueue_new [''/'', ''q''] hi_shar 2 = Some (Inr b) \<and>
     lists_state l (queue_full_state a) \<and> replay (to_network_ops l) b = Some b' \<and>
     map text_of (sub_files (tree a)) = [[72, 101, 108, 108, 111]] \<and>
     map text_of (sub_files (tree b)) = [[72, 105]] \<and>
     map text_of (sub_files (tree b')) = [[72, 105, 108, 108, 111]]"
proof -
  have "map text_of (sub_files (tree hello_queue)) = [[72, 101, 108, 108, 111]]"
    "map text_of (sub_files (tree hi_queue)) = [[72, 105]]"
    by (simp_all add: hello_queue_def hi_queue_def hello_file_def hi_file_def queue_of_def text_of_def
        flat_def char_at_def)
  moreover obtain b' where "replay (to_network_ops hello_listing) hi_queue = Some b'"
    "map text_of (sub_files (tree b')) = [[72, 105, 108, 108, 111]]"
    using hi_catches_up unfolding map_option_eq_Some by (elim exE conjE) (rule that)
  ultimately show ?thesis using both_open hello_listed
    by (intro exI [of _ hello_queue] exI [of _ hi_queue] exI [of _ hello_listing] exI [of _ b'] conjI)
qed

end
