(* ===== verification/LostDeletion.thy ===== *)
theory LostDeletion
  imports QueueRuns QueueAnomalies
begin

text \<open>
  A deletion by the IDE of a character that waits for the tag of its parent: it is filed in the backlog
  of the network, which insertions of the IDE never read, so that nothing ever carries it out.
\<close>

section \<open>What keeps an identity alive\<close>

definition alive :: "key \<Rightarrow> shar_directory \<Rightarrow> bool" where
  "alive k d \<longleftrightarrow> (\<forall>f \<in> set (all_files d). \<forall>x. characters f k = Some x \<longrightarrow> \<not> cr_deleted x)"

lemma alive_on_file:
  assumes "on_file d p call = Some (d', res)" "alive k d"
    and "\<And>f f' r x. call f = Some (f', r) \<Longrightarrow> \<forall>x. characters f k = Some x \<longrightarrow> \<not> cr_deleted x \<Longrightarrow>
      characters f' k = Some x \<Longrightarrow> \<not> cr_deleted x"
  shows "alive k d'"
proof (cases "find_file d p")
  case None
  then show ?thesis using assms(1,2) by (simp add: on_file_def)
next
  case (Some loc)
  obtain "is" j where loc: "loc = (is, j)" by fastforce
  obtain f f' where f: "file_at d is j = Some f" "call f = Some (f', res)" "d' = put_file d is j f'"
    using assms(1) Some loc by (auto simp: on_file_def split: option.splits)
  obtain us vs where split: "all_files d = us @ f # vs" "all_files d' = us @ f' # vs"
    using file_at_split [OF f(1)] f(3) by blast
  have "\<forall>x. characters f k = Some x \<longrightarrow> \<not> cr_deleted x" using assms(2) split(1) by (simp add: alive_def)
  then have "\<forall>x. characters f' k = Some x \<longrightarrow> \<not> cr_deleted x" using assms(3) [OF f(2)] by blast
  then show ?thesis using assms(2) unfolding alive_def split by simp
qed

lemma alive_add:
  assumes "dir_add_crdt d p n c = Some (d', res)" "alive k d"
    and "crdt_key c \<noteq> k \<or> \<not> cr_deleted (crdt_relation c)"
  shows "alive k d'"
  using assms(1,2) unfolding dir_add_crdt_def
  by (rule alive_on_file)
    (use assms(3) in \<open>auto dest!: add_crdt_characters split: sum.splits option.splits if_splits\<close>)

lemma alive_remove:
  assumes "dir_remove_crdt d p n j = Some (d', res)" "alive k d" "j \<noteq> k"
  shows "alive k d'"
  using assms(1,2) unfolding dir_remove_crdt_def
  by (rule alive_on_file)
    (use assms(3) in \<open>auto dest!: remove_crdt_characters simp: mark_deleted_def\<close>)

section \<open>A removal that waits\<close>

fun op_key :: "network_op \<Rightarrow> key" where
  "op_key (ADD a) = crdt_key (na_crdt a)"
| "op_key (REMOVE r) = rm_key r"

text \<open>
  The removal \<open>m\<close> waits for \<open>k\<close>, no operation that waits for something else is about \<open>k\<close>, and \<open>k\<close> is
  alive where it is known.
\<close>

definition parked :: "key \<Rightarrow> network_op \<Rightarrow> shar_queue \<Rightarrow> bool" where
  "parked k m q \<longleftrightarrow> m \<in> set (bl_get (network_backlog q) k) \<and>
     bl.sorted_by (\<lambda>j x. j \<noteq> k \<longrightarrow> op_key x \<noteq> k) (network_backlog q) \<and>
     (\<forall>x \<in> set (network_worklist q). op_key x \<noteq> k) \<and> alive k (tree q)"

lemma parked_tree: "parked k m q \<Longrightarrow> alive k t \<Longrightarrow> parked k m (q\<lparr>tree := t\<rparr>)"
  by (simp add: parked_def)

lemma parked_push:
  assumes "parked k m q" "j \<noteq> k \<longrightarrow> op_key x \<noteq> k"
  shows "parked k m (q\<lparr>network_backlog := bl_push j x (network_backlog q)\<rparr>)"
proof -
  have "bl.sorted_by (\<lambda>j x. j \<noteq> k \<longrightarrow> op_key x \<noteq> k) (bl_push j x (network_backlog q))"
    by (rule bl.sorted_by_push) (use assms in \<open>simp_all add: parked_def\<close>)
  then show ?thesis using assms(1) by (auto simp: parked_def bl.get_push)
qed

lemma parked_dependants: "parked k m q \<Longrightarrow> j \<noteq> k \<Longrightarrow> parked k m (queue_dependants j q)"
  by (auto simp: parked_def queue_dependants_def bl_get_remove intro: bl.sorted_by_take_out
      dest: bl.sorted_by_got)

lemma parked_remove_operation:
  assumes "remove_operation r q = Some (q', res)" "parked k m q" "rm_key r \<noteq> k"
  shows "parked k m q'"
proof (cases "rm_key r = root")
  case False
  then obtain t out where t: "dir_remove_crdt (tree q) (rm_file_path r) (rm_row r) (rm_key r) = Some (t, out)"
    "q' = q\<lparr>tree := t\<rparr> \<or>
     q' = q\<lparr>tree := t, network_backlog := bl_push (rm_key r) (REMOVE r) (network_backlog q)\<rparr>"
    using assms(1) by (auto simp: remove_operation_def split: option.splits sum.splits)
  have "alive k t" by (rule alive_remove [OF t(1) _ assms(3)]) (use assms(2) in \<open>simp add: parked_def\<close>)
  note q1 = parked_tree [OF assms(2) this]
  from parked_push [OF q1, of "rm_key r" "REMOVE r"] q1 assms(3) t(2) show ?thesis by auto
qed (use assms in \<open>simp add: remove_operation_def\<close>)

lemma parked_log [simp]: "parked k m (q\<lparr>events := es\<rparr>) = parked k m q"
  by (simp add: parked_def)

lemma parked_remove:
  "remove_network_operation r q = Some q' \<Longrightarrow> parked k m q \<Longrightarrow> rm_key r \<noteq> k \<Longrightarrow> parked k m q'"
  "remove_ide_operation r q = Some q' \<Longrightarrow> parked k m q \<Longrightarrow> rm_key r \<noteq> k \<Longrightarrow> parked k m q'"
proof -
  let ?r = "r\<lparr>rm_file_path := to_local_path q (rm_file_path r)\<rparr>"
  have key: "rm_key ?r = rm_key r" by (simp add: rm_key_def)
  assume q: "parked k m q" "rm_key r \<noteq> k"
  show "parked k m q'" if run: "remove_network_operation r q = Some q'"
  proof -
    obtain q1 res where q1: "remove_operation ?r q = Some (q1, res)" "parked k m q' = parked k m q1"
      using run by (auto simp: remove_network_operation_def Let_def fire_Some split: option.splits)
    have "parked k m q1" by (rule parked_remove_operation [OF q1(1) q(1)]) (use q(2) key in simp)
    with q1(2) show ?thesis by simp
  qed
  show "parked k m q'" if run: "remove_ide_operation r q = Some q'"
  proof -
    obtain q1 res where q1: "remove_operation r q = Some (q1, res)" "parked k m q' = parked k m q1"
      using run by (auto simp: remove_ide_operation_def fire_Some split: option.splits)
    from parked_remove_operation [OF q1(1) q] q1(2) show ?thesis by simp
  qed
qed

lemma parked_insert:
  assumes "network_insert a q = Some (q', res)" "parked k m q" "crdt_key (na_crdt a) \<noteq> k"
  shows "parked k m q' \<and> (\<forall>j. res = Some j \<longrightarrow> j \<noteq> k)"
proof -
  let ?c = "na_crdt a" and ?p = "to_local_path q (na_file_path a)"
  let ?q = "q\<lparr>counter := max (counter q) (crdt_id ?c)\<rparr>"
  have q0: "parked k m ?q" using assms(2) by (simp add: parked_def)
  show ?thesis
  proof (cases "crdt_key ?c = root")
    case True
    then show ?thesis using assms(1) q0 by (simp add: network_insert_def Let_def)
  next
    case False
    then obtain t out where t: "dir_add_crdt (tree q) ?p (na_row a) ?c = Some (t, out)"
      using assms(1) by (auto simp: network_insert_def Let_def split: option.splits)
    have "alive k t" by (rule alive_add [OF t]) (use assms(2,3) in \<open>simp_all add: parked_def\<close>)
    note q1 = parked_tree [OF q0 this]
    have "parked k m q' = parked k m (?q\<lparr>tree := t\<rparr>) \<and> (\<forall>j. res = Some j \<longrightarrow> j = crdt_key ?c) \<or>
        q' = ?q\<lparr>tree := t, network_backlog := bl_push (parent_key (crdt_relation ?c))
          (ADD (a\<lparr>na_file_path := ?p\<rparr>)) (network_backlog q)\<rparr> \<and> res = None"
      using assms(1) False t
      by (auto simp: network_insert_def Let_def fire_Some split: sum.splits option.splits)
    then show ?thesis
      using q1 parked_push [OF q1, of "parent_key (crdt_relation ?c)" "ADD (a\<lparr>na_file_path := ?p\<rparr>)"]
        assms(3) by auto
  qed
qed

lemma parked_item:
  assumes "network_item x q = Some q'" "parked k m q" "op_key x \<noteq> k"
  shows "parked k m q'"
proof (cases x)
  case (REMOVE r)
  then show ?thesis using assms parked_remove(1) by (simp add: network_item_def)
next
  case (ADD a)
  then obtain q1 res where q1: "network_insert a q = Some (q1, res)"
    "res = None \<and> q' = q1 \<or> (\<exists>j. res = Some j \<and> q' = queue_dependants j q1)"
    using assms(1) by (auto simp: network_item_def split: option.splits)
  have "crdt_key (na_crdt a) \<noteq> k" using assms(3) ADD by simp
  from parked_insert [OF q1(1) assms(2) this] q1(2) parked_dependants show ?thesis by blast
qed

lemma parked_drain:
  assumes "drain_network_worklist q = Some q'" "parked k m q"
  shows "parked k m q'"
proof -
  have "parked k m q' \<and> network_worklist q' = []"
  proof (rule net_loop.drain_invariant [where P = "parked k m"])
    fix s i "is" s'
    assume s: "parked k m s" "network_worklist s = i # is"
      "network_item i (s\<lparr>network_worklist := tl (network_worklist s)\<rparr>) = Some s'"
    have "parked k m (s\<lparr>network_worklist := tl (network_worklist s)\<rparr>)" "op_key i \<noteq> k"
      using s(1,2) by (auto simp: parked_def)
    with s(3) show "parked k m s'" by (rule parked_item)
  qed (use assms in simp_all)
  then show ?thesis ..
qed

lemma parked_add_network:
  assumes "add_network_operation a q = Some q'" "parked k m q" "crdt_key (na_crdt a) \<noteq> k"
  shows "parked k m q'"
proof -
  from assms(1) obtain q1 res where q1: "network_insert a q = Some (q1, res)"
    "res = None \<and> q' = q1 \<or> (\<exists>j. res = Some j \<and> clear_network_backlog j q1 = Some q')"
    by (auto simp: add_network_operation_def split: option.splits)
  note in_q1 = parked_insert [OF q1(1) assms(2,3)]
  from q1(2) show ?thesis
  proof (elim disjE exE conjE)
    fix j assume j: "res = Some j" "clear_network_backlog j q1 = Some q'"
    then have "q' = q1 \<or> drain_network_worklist (queue_dependants j q1) = Some q'"
      by (auto simp: clear_network_backlog_def split: option.splits)
    moreover have "parked k m q1" "j \<noteq> k" using in_q1 j(1) by blast+
    ultimately show ?thesis using parked_drain parked_dependants by blast
  qed (use in_q1 in simp)
qed

text \<open>Insertions of the IDE leave the backlog of the network alone, and insert nothing removed.\<close>

definition spares :: "key \<Rightarrow> shar_queue \<Rightarrow> shar_queue \<Rightarrow> bool" where
  "spares k q q' \<longleftrightarrow> network_backlog q' = network_backlog q \<and> network_worklist q' = network_worklist q \<and>
     (alive k (tree q) \<longrightarrow> alive k (tree q'))"

interpretation sparing: ide_relation "spares k" for k
proof
  show "ide_insert op q = Some (q', r) \<Longrightarrow> spares k q q'" for op q q' r
    by (auto simp: ide_insert_def spares_def Let_def intro: alive_add
        split: if_splits option.splits sum.splits prod.splits)
  show "ide_announce op c p q = Some q' \<Longrightarrow> spares k q q'" for op c p q q'
    by (auto simp: ide_announce_def spares_def Let_def fire_Some split: option.splits)
qed (auto simp: spares_def queue_ide_dependants_def)

lemma parked_add_ide:
  assumes "add_ide_operation op q = Some q'" "parked k m q"
  shows "parked k m q'"
proof -
  obtain q1 q2 where q: "assign_identity op q = Some q1"
    "add_ide_operation_inner op (queue_tag_dependants (ia_tag op) q1) = Some q2"
    "drain_ide_worklist q2 = Some q'" by (rule add_ide_stages [OF assms(1)])
  have "spares k q (queue_tag_dependants (ia_tag op) q1)"
    using q(1) by (auto simp: assign_identity_def Let_def fire_Some spares_def queue_tag_dependants_def)
  with sparing.related_inner [OF q(2)] sparing.related_drain [OF q(3)] have "spares k q q'"
    using sparing.related_trans by blast
  then show ?thesis using assms(2) by (simp add: spares_def parked_def)
qed

section \<open>The deletion is lost\<close>

text \<open>
  Calls that return, in any number and order, of which no message inserts \<open>k\<close> and no other call
  removes it.
\<close>

inductive undisturbed :: "key \<Rightarrow> shar_queue \<Rightarrow> shar_queue \<Rightarrow> bool" for k where
  no_call: "undisturbed k q q"
| call_ide_add: "undisturbed k q q1 \<Longrightarrow> add_ide_operation op q1 = Some q2 \<Longrightarrow> undisturbed k q q2"
| call_ide_remove: "undisturbed k q q1 \<Longrightarrow> remove_ide_operation r q1 = Some q2 \<Longrightarrow> rm_key r \<noteq> k \<Longrightarrow>
    undisturbed k q q2"
| call_net_add: "undisturbed k q q1 \<Longrightarrow> add_network_operation a q1 = Some q2 \<Longrightarrow>
    crdt_key (na_crdt a) \<noteq> k \<Longrightarrow> undisturbed k q q2"
| call_net_remove: "undisturbed k q q1 \<Longrightarrow> remove_network_operation r q1 = Some q2 \<Longrightarrow> rm_key r \<noteq> k \<Longrightarrow>
    undisturbed k q q2"

lemma undisturbed_parked: "undisturbed k q q' \<Longrightarrow> parked k m q \<Longrightarrow> parked k m q'"
  by (induction rule: undisturbed.induct)
    (auto dest: parked_add_ide parked_remove parked_add_network)

lemma fresh_alive:
  assumes "tree_inv (tree q)" "ids_counted q" "counter q < fst k"
  shows "(p, k) \<notin> nodes (tree q)" "alive k (tree q)"
proof -
  show free: "(p, k) \<notin> nodes (tree q)" for p
    using assms(2,3) by (fastforce simp: ids_counted_def)
  have "characters f k = None" if f: "f \<in> set (all_files (tree q))" for f
  proof -
    have "lookup_file (tree q) (file_path f) = Some f"
      using assms(1) f by (simp add: tree_inv_def lookup_file_iff)
    then show ?thesis using free [of "file_path f"] by (auto simp: nodes_def)
  qed
  then show "alive k (tree q)" by (simp add: alive_def)
qed

text \<open>
  C40. A deletion can be lost. An insertion names its parent by a tag that no insertion had yet; it is
  told its identity \<open>k\<close> at once and waits. The IDE then deletes \<open>k\<close>. From there on, whatever insertions
  of the IDE follow, the one with the awaited tag included, and whatever the network brings, as long as
  no message inserts \<open>k\<close>, which only this peer gives, and no second deletion of \<open>k\<close> comes: the deletion
  stays in the backlog of the network, and \<open>k\<close> is live in every file that has it.
\<close>

theorem deletion_lost:
  assumes q: "tree_inv (tree q)" "ids_counted q" "unat (counter q) + 1 < 2 ^ 32"
      "ide_add_confirm_callback q" "ide_worklist q = []" "network_worklist q = []"
    and op: "ia_parent_id op = None" "ia_parent_tag op = Some t" "tag_identities q t = None" "t \<noteq> ia_tag op"
      "bl_get (ide_tag_backlog q) (ia_tag op) = []"
    and k: "k = (counter q + 1, peer q)" "\<forall>m \<in> pending_ops q. op_key m \<noteq> k"
    and r: "rm_file_path r = tree_root q @ rel" "rm_key r = k"
  shows "\<exists>q1 q2. add_ide_operation op q = Some q1 \<and>
    Ide_add_confirmed (IdeAddConfirmed_new (ia_tag op) (fst k) (snd k)) \<in> set (events q1) \<and>
    remove_ide_operation r q1 = Some q2 \<and>
    (\<forall>q3. undisturbed k q2 q3 \<longrightarrow> REMOVE r \<in> set (bl_get (network_backlog q3) k) \<and>
       (\<forall>f \<in> set (all_files (tree q3)). \<forall>x. characters f k = Some x \<longrightarrow> \<not> cr_deleted x))"
proof -
  let ?e = "Ide_add_confirmed (IdeAddConfirmed_new (ia_tag op) (fst k) (snd k))"
  define q0 where "q0 = q\<lparr>counter := counter q + 1, tag_identities := (tag_identities q)(ia_tag op \<mapsto> k),
    events := events q @ [?e], ide_tag_backlog := bl_remove (ia_tag op) (ide_tag_backlog q)\<rparr>"
  define q1 where "q1 = q0\<lparr>ide_tag_backlog := bl_push t op (ide_tag_backlog q0)\<rparr>"
  define q2 where "q2 = q1\<lparr>network_backlog := bl_push k (REMOVE r) (network_backlog q)\<rparr>"
  have "assign_identity op q = Some (q0\<lparr>ide_tag_backlog := ide_tag_backlog q\<rparr>)"
    using q(4) by (simp add: assign_identity_def fire_def Let_def q0_def k(1))
  moreover have "queue_tag_dependants (ia_tag op) (q0\<lparr>ide_tag_backlog := ide_tag_backlog q\<rparr>) = q0"
    using q(5) op(5) by (simp add: queue_tag_dependants_def q0_def)
  moreover have "ide_insert op q0 = Some (q1, None)"
    using op(1-4) by (simp add: ide_insert_def ide_parent_def q0_def q1_def)
  moreover have "ide_worklist q1 = []" using q(5) by (simp add: q0_def q1_def)
  ultimately have add: "add_ide_operation op q = Some q1"
    by (simp add: add_ide_operation_def add_ide_operation_inner_def)
  have less: "counter q < fst k" using word_succ_less [OF q(3)] k(1) by simp
  note fresh = fresh_alive [OF q(1,2) less]
  have root: "k \<noteq> root" using less by auto
  have tree1: "tree q1 = tree q" "network_backlog q1 = network_backlog q" by (simp_all add: q0_def q1_def)
  obtain e where "dir_remove_crdt (tree q) (tree_root q @ rel) (rm_row r) k = Some (tree q, Inl e)"
    using store.remove_unknown [OF q(1) fresh(1), of rel "rm_row r"] by (auto simp: tree_root_def)
  then have "remove_operation r q1 = Some (q2, None)"
    using r root tree1 by (simp add: remove_operation_def q2_def)
  then have remove: "remove_ide_operation r q1 = Some q2" by (simp add: remove_ide_operation_def)
  have "bl.sorted_by (\<lambda>j x. j \<noteq> k \<longrightarrow> op_key x \<noteq> k) (bl_push k (REMOVE r) (network_backlog q))"
    using k(2) by (intro bl.sorted_by_push) (auto simp: bl.sorted_by_def pending_ops_def bl.waiting_def)
  then have "parked k (REMOVE r) q2"
    using fresh(2) q(6) tree1 by (auto simp: parked_def q2_def q1_def q0_def bl.get_push)
  then have "REMOVE r \<in> set (bl_get (network_backlog q3) k) \<and> alive k (tree q3)" if "undisturbed k q2 q3" for q3
    using undisturbed_parked [OF that] unfolding parked_def by blast
  moreover have "?e \<in> set (events q1)" by (simp add: q1_def q0_def)
  ultimately show ?thesis using add remove unfolding alive_def by blast
qed

text \<open>The parent comes, both characters are shown, and the deletion still waits.\<close>

theorem deletion_lost_witness:
  "\<exists>q1 q2 q3. add_ide_operation op_b sample_queue = Some q1 \<and> remove_ide_operation delete_b q1 = Some q2 \<and>
     add_ide_operation op_a q2 = Some q3 \<and>
     map projection (sub_files (tree q3)) = [[[root, (1, 0)], [(3, 0), (4, 0), (6, 1), (5, 1)]]] \<and>
     REMOVE delete_b \<in> set (bl_get (network_backlog q3) (5, 1))"
proof -
  have simps: "counter sample_queue = 4" "peer sample_queue = 1" "tag_identities sample_queue = Map.empty"
    "ide_tag_backlog sample_queue = []" "network_backlog sample_queue = []" "network_worklist sample_queue = []"
    "ide_worklist sample_queue = []" "ide_add_confirm_callback sample_queue" "tree_root sample_queue = [''/'', ''p'']"
    by (simp_all add: sample_queue_def queue_of_def tree_root_def sample_dir_def)
  have op: "ia_parent_id op_b = None" "ia_parent_tag op_b = Some 7" "ia_tag op_b = 8"
    by (simp_all add: op_b_def IdeAdd_new_def)
  have r: "rm_file_path delete_b = tree_root sample_queue @ [''t'']" "rm_key delete_b = (5, 1)"
    by (simp_all add: delete_b_def Remove_new_def rm_key_def simps)
  have inv: "tree_inv (tree sample_queue)" by (simp add: sample_queue_simps sample_dir_inv)
  have none: "pending_ops sample_queue = {}" by (simp add: pending_ops_def bl.waiting_def simps bl_get_def)
  obtain q1 q2 where q: "add_ide_operation op_b sample_queue = Some q1" "remove_ide_operation delete_b q1 = Some q2"
    "\<forall>q3. undisturbed (5, 1) q2 q3 \<longrightarrow> REMOVE delete_b \<in> set (bl_get (network_backlog q3) (5, 1)) \<and>
       (\<forall>f \<in> set (all_files (tree q3)). \<forall>x. characters f (5, 1) = Some x \<longrightarrow> \<not> cr_deleted x)"
    using deletion_lost [OF inv sample_counted, of op_b 7 "(5, 1)" delete_b "[''t'']"]
    by (auto simp: simps op r none bl_get_def)
  obtain q3 where q3: "add_ide_operation op_a q2 = Some q3"
    "map projection (sub_files (tree q3)) = [[[root, (1, 0)], [(3, 0), (4, 0), (6, 1), (5, 1)]]]"
    using step1 step2 step3 q(1,2) by auto
  have "undisturbed (5, 1) q2 q3" by (rule call_ide_add [OF no_call q3(1)])
  then have waits: "REMOVE delete_b \<in> set (bl_get (network_backlog q3) (5, 1))" using q(3) by blast
  show ?thesis
    by (rule exI [of _ q1], rule exI [of _ q2], rule exI [of _ q3]) (intro conjI q(1,2) q3 waits)
qed

end
