(* ===== verification/WrapRace.thy ===== *)
theory WrapRace
  imports QueueProperties
begin

text \<open>
  \<open>src/queue_wrap.rs\<close> with its tasks interleaved: one task opens the directory (\<open>new\<close>), and each of
  any number of others delivers one message of the network. A step is what a task does between two
  awaits: the load of the flag, a critical section on the queue, a push to the buffer, the read of
  the buffer. The opening task keeps the buffer locked for reading while it replays.
\<close>

section \<open>The tasks\<close>

datatype net_pc = N_start network_op | N_push network_op | N_lock network_op | N_done

datatype join_pc = J_start | J_read | J_replay "network_op list" | J_done

record wrap_state =
  ws_wrap :: queue_wrap
  ws_net :: "net_pc list"
  ws_join :: join_pc

text \<open>\<open>real\<close> is the queue that \<open>SharQueue::new\<close> made of the directory.\<close>

inductive wrap_step :: "shar_queue \<Rightarrow> wrap_state \<Rightarrow> wrap_state \<Rightarrow> bool" for real where
  load_open:
    "i < length ns \<Longrightarrow> ns ! i = N_start m \<Longrightarrow> queue_initialized w \<Longrightarrow>
     wrap_step real \<lparr>ws_wrap = w, ws_net = ns, ws_join = j\<rparr>
       \<lparr>ws_wrap = w, ws_net = ns[i := N_lock m], ws_join = j\<rparr>"
| load_closed:
    "i < length ns \<Longrightarrow> ns ! i = N_start m \<Longrightarrow> \<not> queue_initialized w \<Longrightarrow>
     wrap_step real \<lparr>ws_wrap = w, ws_net = ns, ws_join = j\<rparr>
       \<lparr>ws_wrap = w, ws_net = ns[i := N_push m], ws_join = j\<rparr>"
| push:
    "i < length ns \<Longrightarrow> ns ! i = N_push m \<Longrightarrow> (\<forall>rs. j \<noteq> J_replay rs) \<Longrightarrow>
     wrap_step real \<lparr>ws_wrap = w, ws_net = ns, ws_join = j\<rparr>
       \<lparr>ws_wrap = w\<lparr>buffer := buffer w @ [m]\<rparr>, ws_net = ns[i := N_done], ws_join = j\<rparr>"
| carry_out:
    "i < length ns \<Longrightarrow> ns ! i = N_lock m \<Longrightarrow> receive m (queue w) = Some q \<Longrightarrow>
     wrap_step real \<lparr>ws_wrap = w, ws_net = ns, ws_join = j\<rparr>
       \<lparr>ws_wrap = w\<lparr>queue := q\<rparr>, ws_net = ns[i := N_done], ws_join = j\<rparr>"
| open_first:
    "\<not> network_add_callback (queue w) \<Longrightarrow>
     wrap_step real \<lparr>ws_wrap = w, ws_net = ns, ws_join = J_start\<rparr>
       \<lparr>ws_wrap = w\<lparr>queue := real, queue_initialized := True\<rparr>, ws_net = ns, ws_join = J_read\<rparr>"
| open_again:
    "network_add_callback (queue w) \<Longrightarrow>
     wrap_step real \<lparr>ws_wrap = w, ws_net = ns, ws_join = J_start\<rparr>
       \<lparr>ws_wrap = w, ws_net = ns, ws_join = J_done\<rparr>"
| read_buffer:
    "wrap_step real \<lparr>ws_wrap = w, ws_net = ns, ws_join = J_read\<rparr>
       \<lparr>ws_wrap = w, ws_net = ns, ws_join = J_replay (buffer w)\<rparr>"
| replay_one:
    "receive m (queue w) = Some q \<Longrightarrow>
     wrap_step real \<lparr>ws_wrap = w, ws_net = ns, ws_join = J_replay (m # ms)\<rparr>
       \<lparr>ws_wrap = w\<lparr>queue := q\<rparr>, ws_net = ns, ws_join = J_replay ms\<rparr>"
| replay_end:
    "wrap_step real \<lparr>ws_wrap = w, ws_net = ns, ws_join = J_replay []\<rparr>
       \<lparr>ws_wrap = w, ws_net = ns, ws_join = J_done\<rparr>"

inductive wrap_run :: "shar_queue \<Rightarrow> wrap_state \<Rightarrow> wrap_state \<Rightarrow> bool" for real where
  run_refl: "wrap_run real s s"
| run_step: "wrap_run real s t \<Longrightarrow> wrap_step real t u \<Longrightarrow> wrap_run real s u"

definition wrap_start :: "network_op list \<Rightarrow> wrap_state" where
  "wrap_start ms = \<lparr>ws_wrap = QueueWrap_default, ws_net = map N_start ms, ws_join = J_start\<rparr>"

section \<open>No message disappears\<close>

text \<open>The message that a task still has in hand.\<close>

fun in_hand :: "net_pc \<Rightarrow> network_op multiset" where
  "in_hand (N_start m) = {#m#}"
| "in_hand (N_push m) = {#m#}"
| "in_hand (N_lock m) = {#m#}"
| "in_hand N_done = {#}"

definition all_in_hand :: "net_pc list \<Rightarrow> network_op multiset" where
  "all_in_hand ns = sum_list (map in_hand ns)"

text \<open>The messages that the queue has received, and those in the buffer that nobody will read.\<close>

definition accounted :: "shar_queue \<Rightarrow> network_op multiset \<Rightarrow> wrap_state \<Rightarrow> bool" where
  "accounted real M s \<longleftrightarrow>
     (case ws_join s of
        J_start \<Rightarrow> \<not> queue_initialized (ws_wrap s) \<and> \<not> network_add_callback (queue (ws_wrap s)) \<and>
          (\<forall>m. N_lock m \<notin> set (ws_net s)) \<and>
          mset (buffer (ws_wrap s)) + all_in_hand (ws_net s) = M
      | J_read \<Rightarrow> queue_initialized (ws_wrap s) \<and> (\<exists>ops. receive_all ops real = Some (queue (ws_wrap s)) \<and>
          mset ops + mset (buffer (ws_wrap s)) + all_in_hand (ws_net s) = M)
      | J_replay rs \<Rightarrow> queue_initialized (ws_wrap s) \<and> (\<exists>ops. receive_all ops real = Some (queue (ws_wrap s)) \<and>
          mset ops + mset rs + all_in_hand (ws_net s) = M)
      | J_done \<Rightarrow> queue_initialized (ws_wrap s) \<and> (\<exists>ops late old. receive_all ops real = Some (queue (ws_wrap s)) \<and>
          buffer (ws_wrap s) = old @ late \<and> mset ops + mset late + all_in_hand (ws_net s) = M))"

lemma all_in_hand_update:
  "i < length ns \<Longrightarrow> all_in_hand (ns[i := x]) + in_hand (ns ! i) = all_in_hand ns + in_hand x"
proof (induction ns arbitrary: i)
  case (Cons n ns)
  then show ?case
    by (cases i) (simp_all add: all_in_hand_def add.commute add.left_commute add.assoc)
qed simp

lemma all_in_hand_same:
  "i < length ns \<Longrightarrow> in_hand x = in_hand (ns ! i) \<Longrightarrow> all_in_hand (ns[i := x]) = all_in_hand ns"
  using all_in_hand_update [of i ns x] by simp

lemma all_in_hand_done:
  "i < length ns \<Longrightarrow> in_hand (ns ! i) = {#m#} \<Longrightarrow> all_in_hand ns = add_mset m (all_in_hand (ns[i := N_done]))"
  using all_in_hand_update [of i ns N_done] by simp

lemma default_closed:
  "\<not> queue_initialized QueueWrap_default" "\<not> network_add_callback (queue QueueWrap_default)"
  by (simp_all add: QueueWrap_default_def SharQueue_default_def)

text \<open>Each step keeps the account.\<close>

lemma accounted_step:
  assumes "wrap_step real s t" "accounted real M s"
  shows "accounted real M t"
  using assms
proof cases
  case (load_open i ns m w j)
  have "all_in_hand (ns[i := N_lock m]) = all_in_hand ns" by (rule all_in_hand_same) (use load_open in auto)
  moreover have "j \<noteq> J_start" using assms(2) load_open by (auto simp: accounted_def)
  ultimately show ?thesis using assms(2) load_open by (cases j) (simp_all add: accounted_def)
next
  case (load_closed i ns m w j)
  have "all_in_hand (ns[i := N_push m]) = all_in_hand ns" by (rule all_in_hand_same) (use load_closed in auto)
  moreover have "set (ns[i := N_push m]) \<subseteq> insert (N_push m) (set ns)" by (rule set_update_subset_insert)
  ultimately show ?thesis using assms(2) load_closed by (cases j) (auto simp: accounted_def)
next
  case (push i ns m j w)
  have hand: "all_in_hand ns = add_mset m (all_in_hand (ns[i := N_done]))"
    by (rule all_in_hand_done) (use push in auto)
  have set: "set (ns[i := N_done]) \<subseteq> insert N_done (set ns)" by (rule set_update_subset_insert)
  show ?thesis
  proof (cases j)
    case J_start
    then show ?thesis using assms(2) push hand set by (auto simp: accounted_def)
  next
    case J_read
    then show ?thesis using assms(2) push hand by (auto simp: accounted_def)
  next
    case (J_replay rs)
    then show ?thesis using push by simp
  next
    case J_done
    with assms(2) push(1) obtain ops late old where "receive_all ops real = Some (queue w)"
      "buffer w = old @ late" "mset ops + mset late + all_in_hand ns = M" "queue_initialized w"
      by (auto simp: accounted_def)
    then have "receive_all ops real = Some (queue w) \<and> buffer w @ [m] = old @ (late @ [m]) \<and>
        mset ops + mset (late @ [m]) + all_in_hand (ns[i := N_done]) = M"
      using hand by simp
    then have "\<exists>ops late old. receive_all ops real = Some (queue w) \<and> buffer w @ [m] = old @ late \<and>
        mset ops + mset late + all_in_hand (ns[i := N_done]) = M" by blast
    then show ?thesis using push(2) J_done \<open>queue_initialized w\<close> by (simp add: accounted_def)
  qed
next
  case (carry_out i ns m w q j)
  have hand: "all_in_hand ns = add_mset m (all_in_hand (ns[i := N_done]))"
    by (rule all_in_hand_done) (use carry_out in auto)
  have "N_lock m \<in> set ns" using carry_out(3,4) by (metis nth_mem)
  then have "j \<noteq> J_start" using assms(2) carry_out(1) by (auto simp: accounted_def)
  then show ?thesis using assms(2) carry_out hand rx.run_snoc [OF _ carry_out(5)]
    by (cases j) (force simp: accounted_def intro: exI [of _ "_ @ [m]"])+
next
  case (open_first w ns)
  then show ?thesis using assms(2) by (auto simp: accounted_def intro: exI [of _ "[]"])
next
  case (open_again w ns)
  then show ?thesis using assms(2) by (auto simp: accounted_def)
next
  case (read_buffer w ns)
  then show ?thesis using assms(2) by (auto simp: accounted_def)
next
  case (replay_one m w q ns ms)
  then show ?thesis using assms(2) rx.run_snoc [OF _ replay_one(3)]
    by (force simp: accounted_def intro: exI [of _ "_ @ [m]"])
next
  case (replay_end w ns)
  from assms(2) replay_end(1) obtain ops where "queue_initialized w"
    "receive_all ops real = Some (queue w)" "mset ops + all_in_hand ns = M"
    by (auto simp: accounted_def)
  then have "\<exists>ops late old. receive_all ops real = Some (queue w) \<and> buffer w = old @ late \<and>
      mset ops + mset late + all_in_hand ns = M"
    by (intro exI [of _ ops] exI [of _ "[]"] exI [of _ "buffer w"]) simp
  then show ?thesis using replay_end(2) \<open>queue_initialized w\<close> by (simp add: accounted_def)
qed

lemma accounted_start: "accounted real (mset ms) (wrap_start ms)"
proof -
  have "all_in_hand (map N_start ms) = mset ms" by (induction ms) (simp_all add: all_in_hand_def)
  then show ?thesis using default_closed by (auto simp: accounted_def wrap_start_def QueueWrap_default_def)
qed

lemma accounted_run:
  assumes "wrap_run real s t" "accounted real M s"
  shows "accounted real M t"
  using assms by induction (auto intro: accounted_step)

text \<open>A run in which the flag is read before the opening and the message pushed after the replay.\<close>

lemma late_push_run:
  "wrap_run real (wrap_start [m])
     \<lparr>ws_wrap = \<lparr>queue = real, queue_initialized = True, buffer = [m]\<rparr>, ws_net = [N_done], ws_join = J_done\<rparr>"
proof -
  note step = run_step [of real "wrap_start [m]"]
  let ?w = "QueueWrap_default\<lparr>queue := real, queue_initialized := True\<rparr>"
  have "wrap_run real (wrap_start [m]) (wrap_start [m])" by (rule run_refl)
  then have "wrap_run real (wrap_start [m]) \<lparr>ws_wrap = QueueWrap_default, ws_net = [N_push m], ws_join = J_start\<rparr>"
    by (rule step) (use load_closed [of 0 "[N_start m]" m QueueWrap_default real J_start] default_closed
        in \<open>simp add: wrap_start_def\<close>)
  then have "wrap_run real (wrap_start [m]) \<lparr>ws_wrap = ?w, ws_net = [N_push m], ws_join = J_read\<rparr>"
    by (rule step) (rule open_first [OF default_closed(2)])
  then have "wrap_run real (wrap_start [m]) \<lparr>ws_wrap = ?w, ws_net = [N_push m], ws_join = J_replay []\<rparr>"
    by (rule step) (use read_buffer [of real ?w] in \<open>simp add: QueueWrap_default_def\<close>)
  then have "wrap_run real (wrap_start [m]) \<lparr>ws_wrap = ?w, ws_net = [N_push m], ws_join = J_done\<rparr>"
    by (rule step) (rule replay_end)
  then have "wrap_run real (wrap_start [m])
      \<lparr>ws_wrap = ?w\<lparr>buffer := buffer ?w @ [m]\<rparr>, ws_net = [N_done], ws_join = J_done\<rparr>"
    by (rule step) (use push [of 0 "[N_push m]" m J_done real ?w] in simp)
  then show ?thesis by (simp add: QueueWrap_default_def)
qed

section \<open>Properties\<close>

text \<open>
  C17. Every message is accounted for. However the opening of the directory and the
  deliveries of any number of messages interleave, once all of them are finished the queue is the
  freshly opened one after receiving some of the messages in some order, each once, and all others
  are at the end of the buffer, which nobody will read again.
\<close>

theorem race_accounts_for_messages:
  assumes "wrap_run real (wrap_start ms) s" "ws_join s = J_done" "\<forall>n \<in> set (ws_net s). n = N_done"
  shows "\<exists>ops late old. receive_all ops real = Some (queue (ws_wrap s)) \<and>
    mset ops + mset late = mset ms \<and> buffer (ws_wrap s) = old @ late \<and> queue_initialized (ws_wrap s)"
proof -
  have "accounted real (mset ms) s" using accounted_run [OF assms(1) accounted_start] .
  moreover have "all_in_hand ns = {#}" if "\<forall>n \<in> set ns. n = N_done" for ns
    using that by (induction ns) (simp_all add: all_in_hand_def)
  then have "all_in_hand (ws_net s) = {#}" using assms(3) by blast
  ultimately show ?thesis using assms(2) by (auto simp: accounted_def)
qed

theorem race_accounts_for_messages_witness:
  "\<exists>s ops late. wrap_run sample_queue (wrap_start [m3]) s \<and>
     receive_all ops sample_queue = Some (queue (ws_wrap s)) \<and> mset ops + mset late = {#m3#}"
proof -
  let ?s = "\<lparr>ws_wrap = \<lparr>queue = sample_queue, queue_initialized = True, buffer = [m3]\<rparr>,
    ws_net = [N_done], ws_join = J_done\<rparr>"
  have "ws_join ?s = J_done" "\<forall>n \<in> set (ws_net ?s). n = N_done" by simp_all
  from race_accounts_for_messages [OF late_push_run this] obtain ops late where
    "receive_all ops sample_queue = Some (queue (ws_wrap ?s))" "mset ops + mset late = mset [m3]" by blast
  then show ?thesis using late_push_run [of sample_queue m3]
    by (intro exI [of _ ?s] exI [of _ ops] exI [of _ late]) simp
qed

text \<open>
  C39. A message can be lost. The subscriber reads the flag before the directory is opened
  and pushes to the buffer after the replay has read it: all tasks end, the message is in the
  buffer, the queue never received it, and opening again does not read the buffer.
\<close>

theorem race_loses_message:
  "\<exists>s. wrap_run (queue_of d c p) (wrap_start [m]) s \<and> ws_join s = J_done \<and> ws_net s = [N_done] \<and>
     buffer (ws_wrap s) = [m] \<and> queue (ws_wrap s) = queue_of d c p \<and>
     QueueWrap_new x (Listing []) i (ws_wrap s) = Some (ws_wrap s, Inr ())"
  using late_push_run [of "queue_of d c p" m]
  by (intro exI [of _ "\<lparr>ws_wrap = \<lparr>queue = queue_of d c p, queue_initialized = True, buffer = [m]\<rparr>,
      ws_net = [N_done], ws_join = J_done\<rparr>"])
    (simp add: QueueWrap_new_def SharQueue_new_def queue_of_def)

end
