(* ===== verification/Bench.thy ===== *)
theory Bench
  imports IdeQueue
begin

text \<open>
  The in-process replay of \<open>src/bench.rs\<close>: an editor's mirror of one document, kept as lines of cells
  with the identities that the queue confirms, and the loop that plays an editing trace on both the
  mirror and a \<open>SharQueue\<close>. Timing, memory and output are left out; the trace is already parsed.
\<close>

section \<open>The mirror\<close>

record cell =
  cell_id :: u32
  cell_peer :: u32
  cell_value :: uchar

record line =
  anchor_id :: u32
  anchor_peer :: u32
  cells :: "cell list"

text \<open>\<open>locate\<close>: row and column of an offset; \<open>None\<close> is its panic.\<close>

fun locate_from :: "nat \<Rightarrow> nat \<Rightarrow> line list \<Rightarrow> nat \<Rightarrow> (nat \<times> nat) option" where
  "locate_from row acc [] offset = None"
| "locate_from row acc (l # ls) offset =
     (if offset \<le> acc + length (cells l) then Some (row, offset - acc)
      else locate_from (Suc row) (acc + length (cells l) + 1) ls offset)"

definition locate :: "line list \<Rightarrow> nat \<Rightarrow> (nat \<times> nat) option" where
  "locate ls offset = locate_from 0 0 ls offset"

text \<open>The texts of the lines, joined by line feeds.\<close>

fun join_lines :: "uchar list list \<Rightarrow> uchar list" where
  "join_lines [] = []"
| "join_lines [l] = l"
| "join_lines (l # m # ls) = l @ 10 # join_lines (m # ls)"

definition current_text :: "line list \<Rightarrow> uchar list" where
  "current_text ls = join_lines (map (\<lambda>l. map cell_value (cells l)) ls)"

section \<open>One character\<close>

text \<open>
  The state of a replay. The slot \<open>confirmed\<close> is filled by the confirmation callback: it holds the
  last confirmation that the queue logged since the call.
\<close>

record replica =
  rp_queue :: shar_queue
  rp_lines :: "line list"
  rp_next_tag :: u32

definition confirmed_since :: "shar_queue \<Rightarrow> shar_queue \<Rightarrow> key option" where
  "confirmed_since q q' =
     fold (\<lambda>e slot. case e of Ide_add_confirmed c \<Rightarrow> Some (ic_id c, ic_peer c) | _ \<Rightarrow> slot)
       (drop (length (events q)) (events q')) None"

definition parent_at :: "line list \<Rightarrow> nat \<Rightarrow> nat \<Rightarrow> key option" where
  "parent_at ls row col0 =
     (case vec_get ls row of
        None \<Rightarrow> None
      | Some l \<Rightarrow>
          if col0 = 0 then Some (anchor_id l, anchor_peer l)
          else map_option (\<lambda>c. (cell_id c, cell_peer c)) (vec_get (cells l) (col0 - 1)))"

definition insert_cell :: "line list \<Rightarrow> nat \<Rightarrow> nat \<Rightarrow> key \<Rightarrow> uchar \<Rightarrow> line list option" where
  "insert_cell ls row col0 k value =
     (case vec_get ls row of
        None \<Rightarrow> None
      | Some l \<Rightarrow>
          if length (cells l) < col0 then None
          else if value = 10 then
            Some (take (Suc row) (ls[row := l\<lparr>cells := take col0 (cells l)\<rparr>]) @
              \<lparr>anchor_id = fst k, anchor_peer = snd k, cells = drop col0 (cells l)\<rparr> #
              drop (Suc row) ls)
          else Some (ls[row := l\<lparr>cells := take col0 (cells l) @
              \<lparr>cell_id = fst k, cell_peer = snd k, cell_value = value\<rparr> # drop col0 (cells l)\<rparr>]))"

text \<open>\<open>insert_char\<close>. The insertion of the queue returns \<open>Ok\<close> whenever it returns.\<close>

definition insert_char :: "path \<Rightarrow> nat \<Rightarrow> uchar \<Rightarrow> replica \<Rightarrow> replica option" where
  "insert_char fp offset value r =
     Option.bind (locate (rp_lines r) offset) (\<lambda>(row, col0).
     Option.bind (parent_at (rp_lines r) row col0) (\<lambda>par.
       let tag = rp_next_tag r;
           op = IdeAdd_new fp (Some (fst par)) (Some (snd par)) None value tag row in
       Option.bind (add_ide_operation op (rp_queue r)) (\<lambda>q'.
       Option.bind (confirmed_since (rp_queue r) q') (\<lambda>k.
         map_option
           (\<lambda>ls. r\<lparr>rp_queue := q', rp_lines := ls, rp_next_tag := tag + 1\<rparr>)
           (insert_cell (rp_lines r) row col0 k value)))))"

text \<open>\<open>remove_char\<close>: a cell, or the line break at the end of a line, which joins the next line to it.\<close>

definition remove_char :: "path \<Rightarrow> nat \<Rightarrow> replica \<Rightarrow> replica option" where
  "remove_char fp offset r =
     Option.bind (locate (rp_lines r) offset) (\<lambda>(row, col0).
     Option.bind (vec_get (rp_lines r) row) (\<lambda>l.
       if col0 < length (cells l) then
         let c = cells l ! col0;
             ls = (rp_lines r)[row := l\<lparr>cells := take col0 (cells l) @ drop (Suc col0) (cells l)\<rparr>] in
         map_option (\<lambda>q'. r\<lparr>rp_queue := q', rp_lines := ls\<rparr>)
           (remove_ide_operation (Remove_new fp (cell_id c) (cell_peer c) row) (rp_queue r))
       else
         Option.bind (vec_get (rp_lines r) (Suc row)) (\<lambda>next.
           let ls = (take (Suc row) (rp_lines r) @ drop (Suc (Suc row)) (rp_lines r))
                 [row := l\<lparr>cells := cells l @ cells next\<rparr>] in
           map_option (\<lambda>q'. r\<lparr>rp_queue := q', rp_lines := ls\<rparr>)
             (remove_ide_operation
               (Remove_new fp (anchor_id next) (anchor_peer next) (Suc row)) (rp_queue r)))))"

section \<open>A trace\<close>

type_synonym patch = "nat \<times> nat \<times> uchar list"
type_synonym trace = "patch list list"

definition total_inserts :: "trace \<Rightarrow> nat" where
  "total_inserts txns = sum_list (map (\<lambda>(pos, del_count, ins). length ins) (concat txns))"

fun play_deletes :: "path \<Rightarrow> nat \<Rightarrow> nat \<Rightarrow> replica \<Rightarrow> replica option" where
  "play_deletes fp pos 0 r = Some r"
| "play_deletes fp pos (Suc n) r =
     Option.bind (remove_char fp pos r) (play_deletes fp pos n)"

fun play_inserts :: "path \<Rightarrow> nat \<Rightarrow> uchar list \<Rightarrow> replica \<Rightarrow> replica option" where
  "play_inserts fp offset [] r = Some r"
| "play_inserts fp offset (ch # chs) r =
     Option.bind (insert_char fp offset ch r) (play_inserts fp (Suc offset) chs)"

fun play_patches :: "path \<Rightarrow> patch list \<Rightarrow> replica \<Rightarrow> replica option" where
  "play_patches fp [] r = Some r"
| "play_patches fp ((pos, del_count, ins) # ps) r =
     Option.bind (play_deletes fp pos del_count r) (\<lambda>r1.
     Option.bind (play_inserts fp pos ins r1) (play_patches fp ps))"

text \<open>
  \<open>run\<close>: the queue is opened on the scratch directory, whose file \<open>doc.txt\<close> was just written empty,
  and the mirror starts with the line of the root sentinel. The result is the correctness check,
  beside the final state.
\<close>

definition bench_run ::
  "path \<Rightarrow> fs_dir \<Rightarrow> trace \<Rightarrow> uchar list \<Rightarrow> (error + replica \<times> bool) option"
where
  "bench_run scratch_dir listing txns end_content =
     (case SharQueue_new scratch_dir listing 0 of
        None \<Rightarrow> None
      | Some (Inl e) \<Rightarrow> Some (Inl e)
      | Some (Inr q) \<Rightarrow>
          (case play_patches (scratch_dir @ [''doc.txt'']) (concat txns)
                  \<lparr>rp_queue = q,
                   rp_lines = [\<lparr>anchor_id = 0, anchor_peer = 0, cells = []\<rparr>],
                   rp_next_tag = 0\<rparr> of
             None \<Rightarrow> None
           | Some r \<Rightarrow> Some (Inr (r, current_text (rp_lines r) = end_content))))"

section \<open>The mirror as a list\<close>

text \<open>The identities and the values of the mirror, line by line, the anchor first.\<close>

definition line_keys :: "line \<Rightarrow> key list" where
  "line_keys l = (anchor_id l, anchor_peer l) # map (\<lambda>c. (cell_id c, cell_peer c)) (cells l)"

definition line_text :: "line \<Rightarrow> uchar list" where
  "line_text l = 10 # map cell_value (cells l)"

definition all_keys :: "line list \<Rightarrow> key list" where
  "all_keys ls = concat (map line_keys ls)"

definition all_text :: "line list \<Rightarrow> uchar list" where
  "all_text ls = concat (map line_text ls)"

lemma all_simps [simp]:
  "all_keys [] = []" "all_keys (l # ls) = line_keys l @ all_keys ls"
  "all_text [] = []" "all_text (l # ls) = line_text l @ all_text ls"
  by (simp_all add: all_keys_def all_text_def)

lemma all_append [simp]:
  "all_keys (ls @ ms) = all_keys ls @ all_keys ms" "all_text (ls @ ms) = all_text ls @ all_text ms"
  by (simp_all add: all_keys_def all_text_def)

lemma length_line [simp]:
  "length (line_keys l) = Suc (length (cells l))" "length (line_text l) = Suc (length (cells l))"
  by (simp_all add: line_keys_def line_text_def)

lemma length_all: "length (all_text ls) = length (all_keys ls)"
  by (induction ls) auto

lemma current_text_tl: "ls \<noteq> [] \<Longrightarrow> 10 # current_text ls = all_text ls"
proof (induction ls)
  case (Cons l ls)
  then show ?case by (cases ls) (auto simp: current_text_def line_text_def)
qed simp

text \<open>A located offset splits the mirror around its line.\<close>

lemma locate_from_split:
  "offset < acc + length (all_keys ls) \<Longrightarrow> acc \<le> offset \<Longrightarrow>
     \<exists>us l vs col. locate_from row acc ls offset = Some (row + length us, col) \<and>
       ls = us @ l # vs \<and> col \<le> length (cells l) \<and> offset = acc + length (all_keys us) + col"
proof (induction ls arbitrary: row acc)
  case (Cons l ls)
  show ?case
  proof (cases "offset \<le> acc + length (cells l)")
    case True
    then show ?thesis using Cons.prems by (intro exI [of _ "[]"]) auto
  next
    case False
    have "offset < acc + length (cells l) + 1 + length (all_keys ls)"
      "acc + length (cells l) + 1 \<le> offset"
      using Cons.prems False by simp_all
    from Cons.IH [OF this, of "Suc row"] obtain us m vs col where
      us: "locate_from (Suc row) (acc + length (cells l) + 1) ls offset = Some (Suc row + length us, col)"
        "ls = us @ m # vs" "col \<le> length (cells m)"
        "offset = acc + length (cells l) + 1 + length (all_keys us) + col" by blast
    then show ?thesis using False
      by (intro exI [of _ "l # us"] exI [of _ m] exI [of _ vs] exI [of _ col]) simp
  qed
qed simp

lemma locate_split:
  assumes "offset < length (all_keys ls)"
  obtains us l vs col where "locate ls offset = Some (length us, col)" "ls = us @ l # vs"
    "col \<le> length (cells l)" "offset = length (all_keys us) + col"
  using locate_from_split [of offset 0 ls 0] assms by (auto simp: locate_def)

lemma locate_beyond:
  "acc + length (all_keys ls) \<le> offset \<Longrightarrow> locate_from row acc ls offset = None"
  by (induction ls arbitrary: row acc) auto

end
