(* ===== verification/OpenQueue.thy ===== *)
theory OpenQueue
  imports IdeQueue LoadTree
begin

text \<open>
  A queue that was just opened on a readable directory is in the state that the lemmas on the IDE and
  on the network start from: the tree is as routing needs it, ids are counted, nothing waits.
\<close>

lemma SharQueue_new_opens:
  assumes l: "readable l" "names_ok p l" "fs_size l < 2 ^ 32"
  obtains q where "SharQueue_new p l i = Some (Inr q)" "q = queue_of (tree q) (counter q) i"
    "tree_inv (tree q)" "tree_root q = p" "ids_counted q" "idle q" "unat (counter q) = fs_size l"
    "map (\<lambda>f. (file_path f, text_of f)) (all_files (tree q)) = fs_texts p l"
proof -
  let ?c = "of_nat (fs_size l) :: u32"
  obtain d where d: "SharDirectory_new p l 0 = Some (Inr d, ?c)" "dir_loaded p l ?c d"
    using SharDirectory_new_loads(1) [OF l(1), of 0 p] l(3) by auto
  have ok: "dir_name d = p" "texts (all_files d) = fs_texts p l" "dir_ok d"
    "\<And>f. f \<in> set (all_files d) \<Longrightarrow> wf_file f \<and> ids_below f ?c"
    using d(2) l(2) by (auto simp: dir_loaded_def files_below_counter_def)
  let ?q = "queue_of d ?c i"
  show ?thesis
  proof (rule that)
    show "SharQueue_new p l i = Some (Inr ?q)" using d(1) by (simp add: SharQueue_new_def)
    show "?q = queue_of (tree ?q) (counter ?q) i" by (simp add: queue_of_def)
    show "tree_inv (tree ?q)" using ok(3,4) by (simp add: tree_inv_def queue_of_def)
    show "tree_root ?q = p" using ok(1) by (simp add: tree_root_def queue_of_def)
    have "j \<le> ?c" if f: "lookup_file d x = Some f" "characters f (j, p) = Some r" for x f j p r
      using ok(4) [of f] f lookup_file_iff [OF ok(3)] by (force simp: ids_below_def)
    then show "ids_counted ?q" unfolding ids_counted_def nodes_def queue_of_def by auto
    show "idle ?q" by (simp add: idle_def calm_def queue_of_def)
    show "unat (counter ?q) = fs_size l" using l(3) by (simp add: queue_of_def unat_of_nat)
    show "map (\<lambda>f. (file_path f, text_of f)) (all_files (tree ?q)) = fs_texts p l"
      using ok(2) by (simp add: texts_def queue_of_def)
  qed
qed

lemma opened_file:
  assumes "tree_inv d" "map (\<lambda>f. (file_path f, text_of f)) (all_files d) = ts" "(x, t) \<in> set ts"
  obtains f where "lookup_file d x = Some f" "text_of f = t" "wf_file f"
proof -
  obtain f where "f \<in> set (all_files d)" "file_path f = x" "text_of f = t" using assms(2,3) by auto
  with that assms(1) show ?thesis by (simp add: lookup_file_iff tree_inv_def)
qed

end
