(* ===== verification/BenchFacts.thy ===== *)
theory BenchFacts
  imports Bench OpenQueue
begin

text \<open>
  The mirror of the replay stays the tree's file: each character played on both is the same edit of
  one list, whatever lines the mirror and whatever rows the file keep it in.
\<close>

section \<open>Edits of the mirror\<close>

lemma parent_at_split:
  assumes "ls = us @ l # vs" "col \<le> length (cells l)"
  shows "parent_at ls (length us) col = Some (all_keys ls ! (length (all_keys us) + col))"
  using assms
  by (cases col) (auto simp: parent_at_def vec_get_def line_keys_def nth_append)

lemma insert_cell_split:
  assumes "ls = us @ l # vs" "col \<le> length (cells l)" "n = length (all_keys us) + col"
  obtains ls' where "insert_cell ls (length us) col k v = Some ls'" "ls' \<noteq> []"
    "all_keys ls' = take (Suc n) (all_keys ls) @ k # drop (Suc n) (all_keys ls)"
    "all_text ls' = take (Suc n) (all_text ls) @ v # drop (Suc n) (all_text ls)"
proof (cases "v = 10")
  case True
  with assms that show ?thesis
    by (auto simp: insert_cell_def vec_get_def line_keys_def line_text_def length_all take_map drop_map)
next
  case False
  with assms that show ?thesis
    by (auto simp: insert_cell_def vec_get_def line_keys_def line_text_def length_all take_map drop_map)
qed

section \<open>Both together\<close>

definition mirrors :: "line list \<Rightarrow> shar_file \<Rightarrow> bool" where
  "mirrors ls f \<longleftrightarrow> ls \<noteq> [] \<and> all_keys ls = flat f \<and> all_text ls = 10 # text_of f"

text \<open>The replica plays the file at \<open>rel\<close> below the shar's root \<open>b\<close>, whose text is \<open>t\<close>.\<close>

definition playing :: "path \<Rightarrow> path \<Rightarrow> replica \<Rightarrow> uchar list \<Rightarrow> bool" where
  "playing b rel r t \<longleftrightarrow>
     tree_inv (tree (rp_queue r)) \<and> ids_counted (rp_queue r) \<and> idle (rp_queue r) \<and>
     tree_root (rp_queue r) = b \<and>
     (\<exists>f. lookup_file (tree (rp_queue r)) (b @ rel) = Some f \<and> mirrors (rp_lines r) f \<and>
        text_of f = t)"

lemma playing_text: "playing b rel r t \<Longrightarrow> current_text (rp_lines r) = t"
  using current_text_tl [of "rp_lines r"] by (auto simp: playing_def mirrors_def)

lemma confirmed_since_typed:
  "events q' = events q @ [Ide_add_confirmed c, Ide_added m n] \<Longrightarrow>
     confirmed_since q q' = Some (ic_id c, ic_peer c)"
  by (simp add: confirmed_since_def)

lemma insert_char_plays:
  assumes r: "playing b rel r t" and i: "i \<le> length t" "unat (counter (rp_queue r)) + 1 < 2 ^ 32"
  shows "\<exists>r'. insert_char (b @ rel) i v r = Some r' \<and>
    playing b rel r' (take i t @ v # drop i t) \<and>
    unat (counter (rp_queue r')) = Suc (unat (counter (rp_queue r)))"
proof -
  let ?q = "rp_queue r" and ?ls = "rp_lines r"
  obtain f where f: "lookup_file (tree ?q) (tree_root ?q @ rel) = Some f" "mirrors ?ls f" "text_of f = t"
    and q: "tree_inv (tree ?q)" "ids_counted ?q" "idle ?q" "tree_root ?q = b"
    using r by (auto simp: playing_def)
  have keys: "all_keys ?ls = flat f" "all_text ?ls = 10 # t" using f by (auto simp: mirrors_def)
  then have n: "i < length (flat f)" using i(1) length_all [of ?ls] by simp
  then obtain us l vs col where
    l: "locate ?ls i = Some (length us, col)" "?ls = us @ l # vs" "col \<le> length (cells l)"
      "i = length (all_keys us) + col"
    using locate_split [of i ?ls] keys(1) by metis
  let ?par = "flat f ! i" and ?k = "(counter ?q + 1, peer ?q)"
  let ?op = "IdeAdd_new (b @ rel) (Some (fst ?par)) (Some (snd ?par)) None v (rp_next_tag r) (length us)"
  have par: "parent_at ?ls (length us) col = Some ?par"
    using parent_at_split [OF l(2,3)] keys(1) l(4) by simp
  obtain ls' where ls': "insert_cell ?ls (length us) col ?k v = Some ls'" "ls' \<noteq> []"
    "all_keys ls' = take (Suc i) (flat f) @ ?k # drop (Suc i) (flat f)"
    "all_text ls' = take (Suc i) (all_text ?ls) @ v # drop (Suc i) (all_text ?ls)"
    using insert_cell_split [OF l(2-4)] keys(1) by metis
  have op: "ia_file_path ?op = tree_root ?q @ rel" "ia_parent_id ?op = Some (fst ?par)"
    "ia_parent_peer ?op = Some (snd ?par)" "ia_val ?op = v"
    by (simp_all add: IdeAdd_new_def q(4))
  obtain q' f' m where q': "add_ide_operation ?op ?q = Some q'" "tree_inv (tree q')"
    "tree_root q' = b" "counter q' = counter ?q + 1" "ids_counted q'" "idle q'"
    "lookup_file (tree q') = (lookup_file (tree ?q))(b @ rel \<mapsto> f')"
    "flat f' = take (Suc i) (flat f) @ ?k # drop (Suc i) (flat f)"
    "text_of f' = take i t @ v # drop i t"
    "events q' = events ?q @
      [Ide_add_confirmed (IdeAddConfirmed_new (ia_tag ?op) (counter ?q + 1) (peer ?q)), Ide_added m m]"
    by (rule add_ide_idle [OF q(1,2) i(2) q(3) f(1) op(1-3) n refl]) (unfold op(4) f(3) q(4))
  have conf: "confirmed_since ?q q' = Some ?k"
    using confirmed_since_typed [OF q'(10)] by (simp add: IdeAddConfirmed_new_def)
  let ?r' = "r\<lparr>rp_queue := q', rp_lines := ls', rp_next_tag := rp_next_tag r + 1\<rparr>"
  have "insert_char (b @ rel) i v r = Some ?r'"
    using l(1) par q'(1) conf ls'(1) by (simp add: insert_char_def Let_def)
  moreover have "mirrors ls' f'"
    using ls'(2-4) q'(8,9) keys(2) by (simp add: mirrors_def)
  then have "playing b rel ?r' (take i t @ v # drop i t)"
    using q'(2,3,5-7,9) by (simp add: playing_def)
  moreover have "unat (counter q') = Suc (unat (counter ?q))"
    using q'(4) i(2) by (simp add: unat_word_ariths)
  ultimately show ?thesis by (intro exI [of _ ?r']) simp
qed

text \<open>A removal in the mirror, whichever of its two forms.\<close>

lemma remove_char_split:
  assumes n: "Suc n < length (all_keys (rp_lines r))"
  obtains k ls' row where
    "remove_char fp n r = map_option (\<lambda>q'. r\<lparr>rp_queue := q', rp_lines := ls'\<rparr>)
       (remove_ide_operation (Remove_new fp (fst k) (snd k) row) (rp_queue r))"
    "k = all_keys (rp_lines r) ! Suc n" "ls' \<noteq> []"
    "all_keys ls' = take (Suc n) (all_keys (rp_lines r)) @ drop (Suc (Suc n)) (all_keys (rp_lines r))"
    "all_text ls' = take (Suc n) (all_text (rp_lines r)) @ drop (Suc (Suc n)) (all_text (rp_lines r))"
proof -
  let ?ls = "rp_lines r"
  from n have "n < length (all_keys ?ls)" by simp
  then obtain us l vs col where
    l: "locate ?ls n = Some (length us, col)" "?ls = us @ l # vs" "col \<le> length (cells l)"
      "n = length (all_keys us) + col" by (rule locate_split)
  have row: "vec_get ?ls (length us) = Some l" using l(2) by (simp add: vec_get_def)
  show ?thesis
  proof (cases "col < length (cells l)")
    case True
    let ?c = "cells l ! col"
    let ?l = "l\<lparr>cells := take col (cells l) @ drop (Suc col) (cells l)\<rparr>"
    show ?thesis
    proof (rule that)
      show "remove_char fp n r = map_option (\<lambda>q'. r\<lparr>rp_queue := q', rp_lines := us @ ?l # vs\<rparr>)
          (remove_ide_operation (Remove_new fp (fst (cell_id ?c, cell_peer ?c))
             (snd (cell_id ?c, cell_peer ?c)) (length us)) (rp_queue r))"
        using l(1) row True by (simp add: remove_char_def Let_def) (simp add: l(2))
      show "(cell_id ?c, cell_peer ?c) = all_keys ?ls ! Suc n"
        using True by (simp add: l(2,4) nth_append line_keys_def)
    qed (use l(2,4) True in \<open>auto simp: line_keys_def line_text_def length_all take_map drop_map\<close>)
  next
    case False
    then have col: "col = length (cells l)" using l(3) by simp
    with n l(2,4) obtain m ws where vs: "vs = m # ws" by (cases vs) auto
    let ?l = "l\<lparr>cells := cells l @ cells m\<rparr>"
    show ?thesis
    proof (rule that)
      show "remove_char fp n r = map_option (\<lambda>q'. r\<lparr>rp_queue := q', rp_lines := us @ ?l # ws\<rparr>)
          (remove_ide_operation (Remove_new fp (fst (anchor_id m, anchor_peer m))
             (snd (anchor_id m, anchor_peer m)) (Suc (length us))) (rp_queue r))"
        using l(1) row col by (simp add: remove_char_def Let_def) (simp add: l(2) vs vec_get_def nth_append)
      show "(anchor_id m, anchor_peer m) = all_keys ?ls ! Suc n"
        by (simp add: l(2,4) vs col nth_append line_keys_def)
    qed (use l(2,4) vs col in \<open>auto simp: line_keys_def line_text_def length_all\<close>)
  qed
qed

lemma remove_char_plays:
  assumes r: "playing b rel r t" and i: "i < length t"
  shows "\<exists>r'. remove_char (b @ rel) i r = Some r' \<and> playing b rel r' (take i t @ drop (Suc i) t) \<and>
    counter (rp_queue r') = counter (rp_queue r)"
proof -
  let ?q = "rp_queue r" and ?ls = "rp_lines r"
  obtain f where f: "lookup_file (tree ?q) (tree_root ?q @ rel) = Some f" "mirrors ?ls f" "text_of f = t"
    and q: "tree_inv (tree ?q)" "ids_counted ?q" "idle ?q" "tree_root ?q = b"
    using r by (auto simp: playing_def)
  have keys: "all_keys ?ls = flat f" "all_text ?ls = 10 # t" using f by (auto simp: mirrors_def)
  then have n: "Suc i < length (all_keys ?ls)" using i length_all [of ?ls] by simp
  obtain k ls' row where
    k: "remove_char (b @ rel) i r = map_option (\<lambda>q'. r\<lparr>rp_queue := q', rp_lines := ls'\<rparr>)
       (remove_ide_operation (Remove_new (b @ rel) (fst k) (snd k) row) ?q)"
    "k = flat f ! Suc i" "ls' \<noteq> []"
    "all_keys ls' = take (Suc i) (flat f) @ drop (Suc (Suc i)) (flat f)"
    "all_text ls' = take (Suc i) (all_text ?ls) @ drop (Suc (Suc i)) (all_text ?ls)"
    using remove_char_split [OF n, of "b @ rel"] keys(1) by metis
  let ?op = "Remove_new (b @ rel) (fst k) (snd k) row"
  have op: "rm_file_path ?op = tree_root ?q @ rel" "flat f ! Suc i = rm_key ?op"
    using q(4) k(2) by simp_all
  have cb: "ide_remove_callback ?q" using q(3) by (simp add: idle_def calm_def)
  obtain q' f' where q': "remove_ide_operation ?op ?q = Some q'" "tree_inv (tree q')" "tree_root q' = b"
    "counter q' = counter ?q" "ids_counted q'" "idle ?q \<longrightarrow> idle q'"
    "lookup_file (tree q') = (lookup_file (tree ?q))(b @ rel \<mapsto> f')"
    "flat f' = take (Suc i) (flat f) @ drop (Suc (Suc i)) (flat f)"
    "text_of f' = take i t @ drop (Suc i) t"
    using remove_ide_done [OF q(1,2) cb f(1) op(1) n [unfolded keys(1)] op(2)]
    unfolding f(3) q(4) by (elim exE conjE) (erule that; simp add: idle_def)
  have "mirrors ls' f'" using k(3-5) q'(8,9) keys(2) by (simp add: mirrors_def)
  then have "playing b rel (r\<lparr>rp_queue := q', rp_lines := ls'\<rparr>) (take i t @ drop (Suc i) t)"
    using q'(2,3,5-7,9) q(3) by (simp add: playing_def)
  then show ?thesis using k(1) q'(1,4) by simp
qed

section \<open>Traces\<close>

text \<open>What a trace means: the reference on plain texts, and the patches that are in range.\<close>

fun patch_text :: "patch \<Rightarrow> uchar list \<Rightarrow> uchar list" where
  "patch_text (pos, del_count, ins) t = take pos t @ ins @ drop (pos + del_count) t"

fun patches_fit :: "patch list \<Rightarrow> uchar list \<Rightarrow> bool" where
  "patches_fit [] t = True"
| "patches_fit ((pos, del_count, ins) # ps) t \<longleftrightarrow>
     pos + del_count \<le> length t \<and> patches_fit ps (patch_text (pos, del_count, ins) t)"

lemma play_deletes_plays:
  "playing b rel r t \<Longrightarrow> pos + n \<le> length t \<Longrightarrow>
     \<exists>r'. play_deletes (b @ rel) pos n r = Some r' \<and> playing b rel r' (take pos t @ drop (pos + n) t) \<and>
       counter (rp_queue r') = counter (rp_queue r)"
proof (induction n arbitrary: r t)
  case (Suc n)
  then have "pos < length t" by simp
  from remove_char_plays [OF Suc.prems(1) this] obtain r1 where
    r1: "remove_char (b @ rel) pos r = Some r1" "playing b rel r1 (take pos t @ drop (Suc pos) t)"
      "counter (rp_queue r1) = counter (rp_queue r)" by blast
  have "pos + n \<le> length (take pos t @ drop (Suc pos) t)" using Suc.prems(2) by simp
  from Suc.IH [OF r1(2) this] r1 \<open>pos < length t\<close> show ?case
    by (auto simp: min_def add.commute)
qed simp

lemma play_inserts_plays:
  "playing b rel r t \<Longrightarrow> pos \<le> length t \<Longrightarrow> unat (counter (rp_queue r)) + length ins < 2 ^ 32 \<Longrightarrow>
     \<exists>r'. play_inserts (b @ rel) pos ins r = Some r' \<and>
       playing b rel r' (take pos t @ ins @ drop pos t) \<and>
       unat (counter (rp_queue r')) = unat (counter (rp_queue r)) + length ins"
proof (induction ins arbitrary: r t pos)
  case (Cons v ins)
  then have "unat (counter (rp_queue r)) + 1 < 2 ^ 32" by simp
  from insert_char_plays [OF Cons.prems(1,2) this] obtain r1 where
    r1: "insert_char (b @ rel) pos v r = Some r1" "playing b rel r1 (take pos t @ v # drop pos t)"
      "unat (counter (rp_queue r1)) = Suc (unat (counter (rp_queue r)))" by blast
  have "Suc pos \<le> length (take pos t @ v # drop pos t)"
    "unat (counter (rp_queue r1)) + length ins < 2 ^ 32" using Cons.prems(2,3) r1(3) by simp_all
  from Cons.IH [OF r1(2) this] obtain r2 where
    r2: "play_inserts (b @ rel) (Suc pos) ins r1 = Some r2"
      "playing b rel r2 (take (Suc pos) (take pos t @ v # drop pos t) @ ins @
         drop (Suc pos) (take pos t @ v # drop pos t))"
      "unat (counter (rp_queue r2)) = unat (counter (rp_queue r1)) + length ins" by blast
  have "take (Suc pos) (take pos t @ v # drop pos t) @ ins @ drop (Suc pos) (take pos t @ v # drop pos t) =
      take pos t @ (v # ins) @ drop pos t"
    using Cons.prems(2) by (simp add: Suc_diff_le)
  with r1(1,3) r2 show ?case by simp
qed simp

definition inserts_in :: "patch list \<Rightarrow> nat" where
  "inserts_in ps = sum_list (map (\<lambda>(pos, del_count, ins). length ins) ps)"

lemma play_patches_plays:
  "playing b rel r t \<Longrightarrow> patches_fit ps t \<Longrightarrow> unat (counter (rp_queue r)) + inserts_in ps < 2 ^ 32 \<Longrightarrow>
     \<exists>r'. play_patches (b @ rel) ps r = Some r' \<and> playing b rel r' (fold patch_text ps t)"
proof (induction ps arbitrary: r t)
  case (Cons p ps)
  obtain pos n ins where p: "p = (pos, n, ins)" by (cases p)
  let ?t1 = "take pos t @ drop (pos + n) t"
  have fit: "pos + n \<le> length t" "patches_fit ps (patch_text p t)" using Cons.prems(2) p by simp_all
  have bound: "unat (counter (rp_queue r)) + length ins + inserts_in ps < 2 ^ 32"
    using Cons.prems(3) by (simp add: p inserts_in_def)
  from play_deletes_plays [OF Cons.prems(1) fit(1)] obtain r1 where
    r1: "play_deletes (b @ rel) pos n r = Some r1" "playing b rel r1 ?t1"
      "counter (rp_queue r1) = counter (rp_queue r)" by blast
  have "pos \<le> length ?t1" "unat (counter (rp_queue r1)) + length ins < 2 ^ 32"
    using fit(1) bound r1(3) by simp_all
  from play_inserts_plays [OF r1(2) this] obtain r2 where
    r2: "play_inserts (b @ rel) pos ins r1 = Some r2" "playing b rel r2 (take pos ?t1 @ ins @ drop pos ?t1)"
      "unat (counter (rp_queue r2)) = unat (counter (rp_queue r1)) + length ins" by blast
  have t2: "take pos ?t1 @ ins @ drop pos ?t1 = patch_text p t" using fit(1) by (simp add: p)
  have "unat (counter (rp_queue r2)) + inserts_in ps < 2 ^ 32" using bound r1(3) r2(3) by simp
  from Cons.IH [OF r2(2) [unfolded t2] fit(2) this] r1(1) r2(1) show ?case by (simp add: p)
qed simp

section \<open>The whole replay\<close>

lemma empty_document_mirrored:
  assumes "wf_file f" "text_of f = []"
  shows "mirrors [\<lparr>anchor_id = 0, anchor_peer = 0, cells = []\<rparr>] f"
proof -
  have "flat f = [root]" using wf_flat_root [OF assms(1)] assms(2) by (auto simp: text_of_def)
  then show ?thesis using assms(2) by (simp add: mirrors_def line_keys_def line_text_def)
qed

lemma bench_run_plays:
  assumes l: "readable l" "names_ok b l" "(b @ [''doc.txt''], []) \<in> set (fs_texts b l)"
    and t: "patches_fit (concat txns) []" "fs_size l + total_inserts txns < 2 ^ 32"
  shows "\<exists>r. bench_run b l txns end_content =
      Some (Inr (r, fold patch_text (concat txns) [] = end_content)) \<and>
    playing b [''doc.txt''] r (fold patch_text (concat txns) [])"
proof -
  have "fs_size l < 2 ^ 32" using t(2) by simp
  then obtain q where q: "SharQueue_new b l 0 = Some (Inr q)" "tree_inv (tree q)" "tree_root q = b"
    "ids_counted q" "idle q" "unat (counter q) = fs_size l"
    "map (\<lambda>f. (file_path f, text_of f)) (all_files (tree q)) = fs_texts b l"
    by (rule SharQueue_new_opens [OF l(1,2)])
  from opened_file [OF q(2,7) l(3)] obtain f where
    f: "lookup_file (tree q) (b @ [''doc.txt'']) = Some f" "text_of f = []" "wf_file f" by blast
  let ?r = "\<lparr>rp_queue = q, rp_lines = [\<lparr>anchor_id = 0, anchor_peer = 0, cells = []\<rparr>], rp_next_tag = 0\<rparr>"
  have "playing b [''doc.txt''] ?r []"
    using q(2-5) f empty_document_mirrored [OF f(3,2)] by (simp add: playing_def)
  moreover have "unat (counter (rp_queue ?r)) + inserts_in (concat txns) < 2 ^ 32"
    using q(6) t(2) by (simp add: total_inserts_def inserts_in_def)
  ultimately obtain r where "play_patches (b @ [''doc.txt'']) (concat txns) ?r = Some r"
    "playing b [''doc.txt''] r (fold patch_text (concat txns) [])"
    using play_patches_plays [OF _ t(1)] by blast
  then show ?thesis using q(1) playing_text by (auto simp: bench_run_def)
qed

end
