(* ===== verification/RustText.thy ===== *)
theory RustText
  imports Types
begin

text \<open>
  What the program uses of the standard library on strings: trimming, lines, splitting, the parsing of
  a number, the length in bytes. Used by the build script and by the benchmark.
\<close>

section \<open>Functions\<close>

text \<open>\<open>char::is_whitespace\<close>: the code points with the property \<open>White_Space\<close>.\<close>

definition is_whitespace :: "uchar \<Rightarrow> bool" where
  "is_whitespace c \<longleftrightarrow>
     9 \<le> c \<and> c \<le> 13 \<or> c = 32 \<or> c = 133 \<or> c = 160 \<or> c = 5760 \<or> 8192 \<le> c \<and> c \<le> 8202 \<or>
     c = 8232 \<or> c = 8233 \<or> c = 8239 \<or> c = 8287 \<or> c = 12288"

definition trim :: "uchar list \<Rightarrow> uchar list" where
  "trim s = rev (dropWhile is_whitespace (rev (dropWhile is_whitespace s)))"

text \<open>\<open>lines\<close>: a line ends with a line feed, which may follow a carriage return, or with the text.\<close>

definition strip_return :: "uchar list \<Rightarrow> uchar list" where
  "strip_return l = (if l \<noteq> [] \<and> last l = 13 then butlast l else l)"

fun lines_from :: "uchar list \<Rightarrow> uchar list \<Rightarrow> uchar list list" where
  "lines_from acc [] = (if acc = [] then [] else [acc])"
| "lines_from acc (c # cs) =
     (if c = 10 then strip_return acc # lines_from [] cs else lines_from (acc @ [c]) cs)"

fun split_once :: "uchar \<Rightarrow> uchar list \<Rightarrow> (uchar list \<times> uchar list) option" where
  "split_once d [] = None"
| "split_once d (c # cs) =
     (if c = d then Some ([], cs) else map_option (\<lambda>(a, b). (c # a, b)) (split_once d cs))"

text \<open>\<open>strip_prefix\<close>.\<close>

fun str_strip_prefix :: "uchar list \<Rightarrow> uchar list \<Rightarrow> uchar list option" where
  "str_strip_prefix [] s = Some s"
| "str_strip_prefix (p # ps) [] = None"
| "str_strip_prefix (p # ps) (c # cs) = (if p = c then str_strip_prefix ps cs else None)"

text \<open>The first item of \<open>split_whitespace\<close>.\<close>

definition first_word :: "uchar list \<Rightarrow> uchar list option" where
  "first_word s =
     (let w = takeWhile (\<lambda>c. \<not> is_whitespace c) (dropWhile is_whitespace s) in
      if w = [] then None else Some w)"

text \<open>\<open>parse\<close> of an \<open>u64\<close>: decimal digits behind an optional plus sign, without overflow.\<close>

fun parse_digits :: "nat \<Rightarrow> uchar list \<Rightarrow> nat option" where
  "parse_digits acc [] = Some acc"
| "parse_digits acc (c # cs) =
     (if 48 \<le> c \<and> c \<le> 57 \<and> acc * 10 + (c - 48) < 2 ^ 64 then parse_digits (acc * 10 + (c - 48)) cs
      else None)"

definition parse_u64 :: "uchar list \<Rightarrow> nat option" where
  "parse_u64 s =
     (let digits = (if s \<noteq> [] \<and> hd s = 43 then tl s else s) in
      if digits = [] then None else parse_digits 0 digits)"

text \<open>\<open>len\<close> of a string: its bytes in UTF-8.\<close>

definition utf8_length :: "uchar list \<Rightarrow> nat" where
  "utf8_length s =
     sum_list (map (\<lambda>c. if c < 128 then 1 else if c < 2048 then 2 else if c < 65536 then 3 else 4) s)"

section \<open>Lemmas\<close>

lemma trim_bare:
  assumes "s \<noteq> []" "\<not> is_whitespace (hd s)" "\<not> is_whitespace (last s)"
  shows "trim s = s"
proof -
  have "dropWhile is_whitespace s = s" using assms(1,2) by (cases s) auto
  moreover have "dropWhile is_whitespace (rev s) = rev s"
    using assms(1,3) by (cases "rev s") (auto simp: last_rev dest: arg_cong [of "rev s" _ hd] simp: hd_rev)
  ultimately show ?thesis by (simp add: trim_def)
qed

lemma trim_quoted: "\<not> is_whitespace q \<Longrightarrow> trim (q # v @ [q]) = q # v @ [q]"
  by (rule trim_bare) simp_all

lemma split_once_first: "d \<notin> set k \<Longrightarrow> split_once d (k @ d # v) = Some (k, v)"
  by (induction k) auto

lemma lines_from_line: "10 \<notin> set l \<Longrightarrow> lines_from acc (l @ 10 # cs) = strip_return (acc @ l) # lines_from [] cs"
  by (induction l arbitrary: acc) auto

lemma hd_trim: "\<not> is_whitespace c \<Longrightarrow> trim (c # s) \<noteq> [] \<and> hd (trim (c # s)) = c"
proof -
  assume c: "\<not> is_whitespace c"
  then have "trim (c # s) = rev (dropWhile is_whitespace (rev s @ [c]))" by (simp add: trim_def)
  moreover have "\<exists>t. dropWhile is_whitespace (rev s @ [c]) = t @ [c]"
    using c by (induction "rev s" arbitrary: s) (auto simp: dropWhile_append)
  ultimately obtain t where "trim (c # s) = rev (t @ [c])" by metis
  then show ?thesis by simp
qed

lemma strip_return_prefix: "\<exists>t. l = strip_return l @ t"
  by (cases l rule: rev_cases) (simp_all add: strip_return_def)

lemma str_strip_prefix_append [simp]: "str_strip_prefix p (p @ s) = Some s"
  by (induction p) auto

lemma str_strip_prefix_longer: "str_strip_prefix p s = Some r \<Longrightarrow> str_strip_prefix p (s @ t) = Some (r @ t)"
  by (induction p s rule: str_strip_prefix.induct) (auto split: if_splits)

lemma str_strip_prefix_return: "str_strip_prefix p l = None \<Longrightarrow> str_strip_prefix p (strip_return l) = None"
proof (rule ccontr)
  assume none: "str_strip_prefix p l = None" and "str_strip_prefix p (strip_return l) \<noteq> None"
  then obtain r where r: "str_strip_prefix p (strip_return l) = Some r" by blast
  obtain t where t: "l = strip_return l @ t" using strip_return_prefix by blast
  have "str_strip_prefix p (strip_return l @ t) = Some (r @ t)" by (rule str_strip_prefix_longer [OF r])
  with t none show False by simp
qed

text \<open>Decimal digits, and their reading.\<close>

fun decimal :: "nat \<Rightarrow> uchar list" where
  "decimal n = (if n < 10 then [48 + n] else decimal (n div 10) @ [48 + n mod 10])"

declare decimal.simps [simp del]

lemma parse_digits_snoc:
  "parse_digits acc ds = Some m \<Longrightarrow> d < 10 \<Longrightarrow> m * 10 + d < 2 ^ 64 \<Longrightarrow>
     parse_digits acc (ds @ [48 + d]) = Some (m * 10 + d)"
  by (induction acc ds rule: parse_digits.induct) (auto split: if_splits)

lemma parse_decimal: "n < 2 ^ 64 \<Longrightarrow> parse_digits 0 (decimal n) = Some n"
proof (induction n rule: decimal.induct)
  case (1 n)
  show ?case
  proof (cases "n < 10")
    case True
    then show ?thesis by (simp add: decimal.simps [of n])
  next
    case False
    then have "parse_digits 0 (decimal (n div 10)) = Some (n div 10)" using 1 by simp
    from parse_digits_snoc [OF this, of "n mod 10"] False 1(2) show ?thesis
      by (subst decimal.simps) simp
  qed
qed

lemma decimal_digits: "decimal n \<noteq> [] \<and> (\<forall>c \<in> set (decimal n). 48 \<le> c \<and> c \<le> 57)"
proof (induction n rule: decimal.induct)
  case (1 n)
  show ?case
  proof (cases "n < 10")
    case True
    then show ?thesis by (simp add: decimal.simps [of n])
  next
    case False
    with 1 have "\<forall>c \<in> set (decimal (n div 10)). 48 \<le> c \<and> c \<le> 57" by simp
    moreover have "decimal n = decimal (n div 10) @ [48 + n mod 10]" using False by (subst decimal.simps) simp
    ultimately show ?thesis by auto
  qed
qed

lemma parse_u64_decimal: "n < 2 ^ 64 \<Longrightarrow> parse_u64 (decimal n) = Some n"
  using parse_decimal [of n] decimal_digits [of n] by (cases "decimal n") (auto simp: parse_u64_def)

lemma digit_no_space: "48 \<le> c \<Longrightarrow> c \<le> 57 \<Longrightarrow> \<not> is_whitespace c"
  by (simp add: is_whitespace_def)

lemma first_word_append:
  assumes "w \<noteq> []" "\<forall>c \<in> set w. \<not> is_whitespace c" "t = [] \<or> is_whitespace (hd t)"
  shows "first_word (w @ t) = Some w"
proof -
  have "dropWhile is_whitespace (w @ t) = w @ t" using assms(1,2) by (cases w) auto
  moreover have "takeWhile (\<lambda>c. \<not> is_whitespace c) (w @ t) = w"
    using assms(2,3) by (cases t) simp_all
  ultimately show ?thesis using assms(1) by (simp add: first_word_def)
qed

lemma lines_from_lines:
  "\<forall>l \<in> set ls. 10 \<notin> set l \<Longrightarrow>
     lines_from [] (concat (map (\<lambda>l. l @ [10]) ls) @ s) = map strip_return ls @ lines_from [] s"
  by (induction ls) (simp_all add: lines_from_line)

end
