(* ===== verification/BenchReport.thy ===== *)
theory BenchReport
  imports BenchFacts RustText
begin

text \<open>
  The report of a replay: the rest of \<open>run\<close> in \<open>src/bench.rs\<close>, with the memory read from the
  text of \<open>/proc/self/status\<close> and the percentiles. Floating-point numbers are of a type \<open>'f\<close> with a
  linear order; their arithmetic is a parameter, a record of the operations that are used. What is
  measured, the contents of files, JSON and the file system's answers are parameters too.
\<close>

section \<open>Memory\<close>

text \<open>The loop of \<open>read_rss_kb\<close>: the first line with the label decides.\<close>

definition rss_label :: "uchar list" where
  "rss_label = [86, 109, 82, 83, 83, 58]"

fun rss_from :: "uchar list list \<Rightarrow> nat option" where
  "rss_from [] = None"
| "rss_from (line # ls) =
     (case str_strip_prefix rss_label line of
        None \<Rightarrow> rss_from ls
      | Some rest \<Rightarrow> Option.bind (first_word (trim rest)) parse_u64)"

definition read_rss_kb :: "uchar list option \<Rightarrow> nat option" where
  "read_rss_kb status = (case status of None \<Rightarrow> None | Some s \<Rightarrow> rss_from (lines_from [] s))"

section \<open>Numbers\<close>

record 'f floats =
  fl_of_nat :: "nat \<Rightarrow> 'f"
  fl_percent :: "nat \<Rightarrow> 'f"
  fl_mult :: "'f \<Rightarrow> 'f \<Rightarrow> 'f"
  fl_div :: "'f \<Rightarrow> 'f \<Rightarrow> 'f"
  fl_sum :: "'f list \<Rightarrow> 'f"
  fl_floor :: "'f \<Rightarrow> nat"

definition percentile :: "'f floats \<Rightarrow> 'f list \<Rightarrow> 'f \<Rightarrow> 'f option" where
  "percentile fl sorted_values p =
     (if sorted_values = [] then None
      else Some (sorted_values !
        min (fl_floor fl (fl_mult fl p (fl_of_nat fl (length sorted_values)))) (length sorted_values - 1)))"

definition total_deletes :: "patch list list \<Rightarrow> nat" where
  "total_deletes txns = sum_list (map (\<lambda>(pos, del_count, ins). del_count) (concat txns))"

section \<open>The report\<close>

record 'f report =
  rt_label :: string
  rt_doc_size_bytes :: nat
  rt_total_char_ops :: nat
  rt_total_char_inserts :: nat
  rt_total_char_deletes :: nat
  rt_total_ms :: 'f
  rt_ops_per_sec :: 'f
  rt_idle_rss_kb :: "nat option"
  rt_peak_rss_kb :: "nat option"
  rt_peak_rss_growth_kb :: "nat option"
  rt_mean :: 'f
  rt_min :: "'f option"
  rt_p50 :: "'f option"
  rt_p95 :: "'f option"
  rt_p99 :: "'f option"
  rt_max :: "'f option"
  rt_correctness_check :: string

text \<open>\<open>zip\<close> of two options with a saturating subtraction, which on \<open>nat\<close> is the subtraction.\<close>

definition rss_growth :: "nat option \<Rightarrow> nat option \<Rightarrow> nat option" where
  "rss_growth idle_kb peak_kb =
     (case (idle_kb, peak_kb) of (Some i, Some p) \<Rightarrow> Some (p - i) | _ \<Rightarrow> None)"

definition first_of :: "'a list \<Rightarrow> 'a option" where
  "first_of xs = (case xs of [] \<Rightarrow> None | x # _ \<Rightarrow> Some x)"

definition last_of :: "'a list \<Rightarrow> 'a option" where
  "last_of xs = (if xs = [] then None else Some (last xs))"

definition bench_report ::
  "('f :: linorder) floats \<Rightarrow> string \<Rightarrow> patch list list \<Rightarrow> uchar list \<Rightarrow> 'f \<Rightarrow> 'f list \<Rightarrow>
     nat option \<Rightarrow> nat option \<Rightarrow> bool \<Rightarrow> 'f report"
where
  "bench_report fl label txns end_content total_ms latencies idle_kb peak_kb matches =
     (let ls = sort latencies; ops = total_inserts txns + total_deletes txns in
      \<lparr>rt_label = label,
       rt_doc_size_bytes = utf8_length end_content,
       rt_total_char_ops = ops,
       rt_total_char_inserts = total_inserts txns,
       rt_total_char_deletes = total_deletes txns,
       rt_total_ms = total_ms,
       rt_ops_per_sec = fl_div fl (fl_of_nat fl ops) (fl_div fl total_ms (fl_of_nat fl 1000)),
       rt_idle_rss_kb = idle_kb,
       rt_peak_rss_kb = peak_kb,
       rt_peak_rss_growth_kb = rss_growth idle_kb peak_kb,
       rt_mean = fl_div fl (fl_sum fl ls) (fl_of_nat fl (max (length ls) 1)),
       rt_min = first_of ls,
       rt_p50 = percentile fl ls (fl_percent fl 50),
       rt_p95 = percentile fl ls (fl_percent fl 95),
       rt_p99 = percentile fl ls (fl_percent fl 99),
       rt_max = last_of ls,
       rt_correctness_check = (if matches then ''PASS'' else ''FAIL'')\<rparr>)"

text \<open>
  The environment of a run: files, the parser of traces, the scratch directory with what the file
  system shows of it once \<open>doc.txt\<close> was written, the texts of the status file before and after, and
  the measured times. Every character operation pushes one latency.
\<close>

record 'f bench_world =
  bw_read :: "string \<Rightarrow> string + uchar list"
  bw_from_str :: "uchar list \<Rightarrow> string + patch list list \<times> uchar list"
  bw_scratch :: "string + path \<times> fs_dir"
  bw_idle :: "uchar list option"
  bw_peak :: "uchar list option"
  bw_latency :: "nat \<Rightarrow> 'f"
  bw_total_ms :: 'f
  bw_error :: "error \<Rightarrow> string"

text \<open>\<open>run\<close>: \<open>None\<close> is a panic, \<open>Inl\<close> an error that \<open>run\<close> returns.\<close>

definition run_benchmark ::
  "('f :: linorder) floats \<Rightarrow> 'f bench_world \<Rightarrow> string \<Rightarrow> string \<Rightarrow> (string + 'f report) option"
where
  "run_benchmark fl w trace_path label =
     (case bw_read w trace_path of
        Inl e \<Rightarrow> Some (Inl e)
      | Inr raw \<Rightarrow>
     (case bw_from_str w raw of
        Inl e \<Rightarrow> Some (Inl e)
      | Inr (txns, end_content) \<Rightarrow>
     (case bw_scratch w of
        Inl e \<Rightarrow> Some (Inl e)
      | Inr (scratch_dir, listing) \<Rightarrow>
     (case bench_run scratch_dir listing txns end_content of
        None \<Rightarrow> None
      | Some (Inl e) \<Rightarrow> Some (Inl (bw_error w e))
      | Some (Inr (r, matches)) \<Rightarrow>
          Some (Inr (bench_report fl label txns end_content (bw_total_ms w)
            (map (bw_latency w) [0 ..< total_inserts txns + total_deletes txns])
            (read_rss_kb (bw_idle w)) (read_rss_kb (bw_peak w)) matches))))))"

section \<open>Lemmas\<close>

text \<open>The number behind the label, as the kernel prints it.\<close>

lemma rss_from_skips:
  "\<forall>l \<in> set ls. str_strip_prefix rss_label l = None \<Longrightarrow>
     rss_from (map strip_return ls @ ms) = rss_from ms"
  by (induction ls) (simp_all add: str_strip_prefix_return)

lemma trim_number:
  assumes "\<forall>c \<in> set ws. is_whitespace c" "n < 2 ^ 64"
  shows "first_word (trim (ws @ decimal n @ [32, 107, 66])) = Some (decimal n)"
proof -
  note d = decimal_digits [of n]
  have w: "\<forall>c \<in> set (decimal n). \<not> is_whitespace c" using d digit_no_space by blast
  obtain c cs where c: "decimal n = c # cs" using d by (cases "decimal n") auto
  have "dropWhile is_whitespace (ws @ decimal n @ [32, 107, 66]) = decimal n @ [32, 107, 66]"
    using assms(1) w c by (subst dropWhile_append2) auto
  moreover have "trim (decimal n @ [32, 107, 66]) = decimal n @ [32, 107, 66]"
    by (rule trim_bare) (use w c in \<open>auto simp: is_whitespace_def\<close>)
  moreover have "dropWhile is_whitespace (decimal n @ [32, 107, 66]) = decimal n @ [32, 107, 66]"
    using w c by simp
  ultimately have "trim (ws @ decimal n @ [32, 107, 66]) = decimal n @ [32, 107, 66]"
    by (simp add: trim_def)
  then show ?thesis using first_word_append [of "decimal n" "[32, 107, 66]"] w c
    by (simp add: is_whitespace_def)
qed

lemma read_rss_number:
  assumes ls: "\<forall>l \<in> set ls. 10 \<notin> set l \<and> str_strip_prefix rss_label l = None"
    and ws: "\<forall>c \<in> set ws. is_whitespace c \<and> c \<noteq> 10" and n: "n < 2 ^ 64"
  shows "read_rss_kb (Some (concat (map (\<lambda>l. l @ [10]) ls) @
    rss_label @ ws @ decimal n @ [32, 107, 66, 10] @ rest)) = Some n"
proof -
  let ?l = "rss_label @ ws @ decimal n @ [32, 107, 66]"
  have "10 \<notin> set ?l" using ws decimal_digits [of n] by (auto simp: rss_label_def)
  from lines_from_line [OF this, of "[]" rest] have
    "lines_from [] (rss_label @ ws @ decimal n @ [32, 107, 66, 10] @ rest) = ?l # lines_from [] rest"
    by (simp add: strip_return_def)
  then have "read_rss_kb (Some (concat (map (\<lambda>l. l @ [10]) ls) @
      rss_label @ ws @ decimal n @ [32, 107, 66, 10] @ rest)) = rss_from (?l # lines_from [] rest)"
    using lines_from_lines [of ls] rss_from_skips [of ls] ls by (simp add: read_rss_kb_def)
  also have "\<dots> = Some n" using trim_number [OF _ n, of ws] ws parse_u64_decimal [OF n] by simp
  finally show ?thesis .
qed

text \<open>A percentile is an element, and a larger index gives no smaller one.\<close>

lemma percentile_at:
  assumes "xs \<noteq> []"
  shows "\<exists>i < length xs. percentile fl xs p = Some (xs ! i) \<and>
    i = min (fl_floor fl (fl_mult fl p (fl_of_nat fl (length xs)))) (length xs - 1)"
proof -
  have "0 < length xs" using assms by simp
  then have "min k (length xs - 1) < length xs" for k by linarith
  then show ?thesis using assms by (auto simp: percentile_def)
qed

lemma sorted_ends:
  assumes "sorted xs" "i < length xs"
  shows "hd xs \<le> xs ! i" "xs ! i \<le> last xs"
proof -
  have "xs \<noteq> []" using assms(2) by auto
  then show "hd xs \<le> xs ! i" "xs ! i \<le> last xs"
    using assms by (auto simp: hd_conv_nth last_conv_nth intro: sorted_nth_mono)
qed

text \<open>A trace that fits removes as many characters as it leaves fewer than it inserts.\<close>

lemma patches_length:
  "patches_fit ps t \<Longrightarrow> length (fold patch_text ps t) + (\<Sum>(pos, del_count, ins) \<leftarrow> ps. del_count) =
     length t + (\<Sum>(pos, del_count, ins) \<leftarrow> ps. length ins)"
proof (induction ps arbitrary: t)
  case (Cons p ps)
  obtain pos n ins where p: "p = (pos, n, ins)" by (metis surj_pair)
  from Cons.prems p have fit: "pos + n \<le> length t" "patches_fit ps (patch_text p t)" by simp_all
  then have "length (patch_text p t) + n = length t + length ins" by (simp add: p)
  with Cons.IH [OF fit(2)] show ?case by (simp add: p)
qed simp

end
