(* ===== verification/BenchProperties.thy ===== *)
theory BenchProperties
  imports BenchReport
begin

text \<open>
  The properties of the in-process replay: its correctness check passes on every trace that fits the
  text it edits, and positions in the mirror are within bounds.
\<close>

text \<open>
  C13. The correctness check of the replay passes. The scratch directory can be read and
  shows an empty \<open>doc.txt\<close>; every patch of the trace fits the text it edits, and there are fewer
  than 2^32 characters in all. Then the replay neither panics nor fails, and when the expected
  contents are what the trace means on plain texts, the editor's mirror, the text of the file in
  the tree, and the expected contents are the same, and the mirror has every identity right.
\<close>

theorem bench_replay_passes:
  assumes "readable listing" "names_ok scratch_dir listing"
    and "(scratch_dir @ [''doc.txt''], []) \<in> set (fs_texts scratch_dir listing)"
    and "patches_fit (concat txns) []" "fs_size listing + total_inserts txns < 2 ^ 32"
    and "end_content = fold patch_text (concat txns) []"
  shows "\<exists>r f. bench_run scratch_dir listing txns end_content = Some (Inr (r, True)) \<and>
    current_text (rp_lines r) = end_content \<and>
    lookup_file (tree (rp_queue r)) (scratch_dir @ [''doc.txt'']) = Some f \<and>
    text_of f = end_content \<and> flat f = all_keys (rp_lines r)"
proof -
  obtain r where r: "bench_run scratch_dir listing txns end_content =
      Some (Inr (r, fold patch_text (concat txns) [] = end_content))"
    "playing scratch_dir [''doc.txt''] r (fold patch_text (concat txns) [])"
    using bench_run_plays [OF assms(1-5)] by blast
  have p: "playing scratch_dir [''doc.txt''] r end_content" using r(2) assms(6) by simp
  then obtain f where "lookup_file (tree (rp_queue r)) (scratch_dir @ [''doc.txt'']) = Some f"
    "mirrors (rp_lines r) f" "text_of f = end_content" unfolding playing_def by blast
  with r(1) playing_text [OF p] assms(6) show ?thesis by (auto simp: mirrors_def)
qed

theorem bench_replay_passes_witness:
  "\<exists>r. bench_run [''/'', ''s''] (Listing [File_entry ''doc.txt'' (Inr [])])
       [[(0, 0, [97, 98])], [(1, 1, [10, 99])]] [97, 10, 99] = Some (Inr (r, True)) \<and>
     current_text (rp_lines r) = [97, 10, 99]"
proof -
  let ?l = "Listing [File_entry ''doc.txt'' (Inr [])]" and ?t = "[[(0, 0, [97, 98])], [(1, 1, [10, 99])]]"
  have "readable ?l" "names_ok [''/'', ''s''] ?l"
    "([''/'', ''s''] @ [''doc.txt''], []) \<in> set (fs_texts [''/'', ''s''] ?l)"
    by (simp_all add: fresh_name_def)
  moreover have "patches_fit (concat ?t) []" "fs_size ?l + total_inserts ?t < 2 ^ 32"
    "[97, 10, 99] = fold patch_text (concat ?t) []" by (simp_all add: total_inserts_def)
  ultimately show ?thesis using bench_replay_passes by blast
qed

text \<open>
  C29. The report of a replay. The trace file parses, the scratch directory is readable and shows an empty
  \<open>doc.txt\<close>, every patch fits the text it edits, the expected contents are what the trace means, and
  identities are left. Then the run returns a report, with the check passed; the operations are the
  insertions and the deletions, the characters that are left are the insertions less the deletions;
  and when there is an operation, the percentiles exist and lie in order between the fastest and the
  slowest one, however the product of a percentage and the number of operations is rounded, as long
  as a larger percentage gives no smaller index.
\<close>

theorem benchmark_reports:
  assumes "bw_read w trace_path = Inr raw" "bw_from_str w raw = Inr (txns, end_content)"
    and "bw_scratch w = Inr (scratch_dir, listing)"
    and "readable listing" "names_ok scratch_dir listing"
    and "(scratch_dir @ [''doc.txt''], []) \<in> set (fs_texts scratch_dir listing)"
    and "patches_fit (concat txns) []" "fs_size listing + total_inserts txns < 2 ^ 32"
    and "end_content = fold patch_text (concat txns) []"
    and "\<And>i j n. i \<le> j \<Longrightarrow> fl_floor fl (fl_mult fl (fl_percent fl i) (fl_of_nat fl n)) \<le>
      fl_floor fl (fl_mult fl (fl_percent fl j) (fl_of_nat fl n))"
  shows "\<exists>rep. run_benchmark fl w trace_path label = Some (Inr rep) \<and>
    rt_correctness_check rep = ''PASS'' \<and> rt_label rep = label \<and>
    rt_total_char_ops rep = rt_total_char_inserts rep + rt_total_char_deletes rep \<and>
    length end_content + rt_total_char_deletes rep = rt_total_char_inserts rep \<and>
    (rt_total_char_ops rep = 0 \<or>
       (\<exists>a b c d e. rt_min rep = Some a \<and> rt_p50 rep = Some b \<and> rt_p95 rep = Some c \<and>
          rt_p99 rep = Some d \<and> rt_max rep = Some e \<and> a \<le> b \<and> b \<le> c \<and> c \<le> d \<and> d \<le> e))"
proof -
  obtain r where r: "bench_run scratch_dir listing txns end_content = Some (Inr (r, True))"
    using bench_run_plays [OF assms(4-8), of end_content] assms(9) by auto
  let ?n = "total_inserts txns + total_deletes txns"
  define ls where "ls = sort (map (bw_latency w) [0 ..< ?n])"
  define rep where "rep = bench_report fl label txns end_content (bw_total_ms w)
    (map (bw_latency w) [0 ..< ?n]) (read_rss_kb (bw_idle w)) (read_rss_kb (bw_peak w)) True"
  have run: "run_benchmark fl w trace_path label = Some (Inr rep)"
    using r assms(1-3) by (simp add: run_benchmark_def rep_def)
  have fields: "rt_min rep = first_of ls" "rt_p50 rep = percentile fl ls (fl_percent fl 50)"
    "rt_p95 rep = percentile fl ls (fl_percent fl 95)" "rt_p99 rep = percentile fl ls (fl_percent fl 99)"
    "rt_max rep = last_of ls" "rt_total_char_ops rep = ?n" "length ls = ?n" "sorted ls"
    "rt_correctness_check rep = ''PASS''" "rt_label rep = label"
    "rt_total_char_inserts rep = total_inserts txns" "rt_total_char_deletes rep = total_deletes txns"
    by (simp_all add: rep_def bench_report_def ls_def Let_def)
  have times: "\<exists>a b c d e. rt_min rep = Some a \<and> rt_p50 rep = Some b \<and> rt_p95 rep = Some c \<and>
      rt_p99 rep = Some d \<and> rt_max rep = Some e \<and> a \<le> b \<and> b \<le> c \<and> c \<le> d \<and> d \<le> e" if n: "?n \<noteq> 0"
  proof -
    let ?i = "\<lambda>p. min (fl_floor fl (fl_mult fl (fl_percent fl p) (fl_of_nat fl (length ls)))) (length ls - 1)"
    have ne: "ls \<noteq> []" using n fields(7) by auto
    have at: "percentile fl ls (fl_percent fl p) = Some (ls ! ?i p)" "?i p < length ls" for p
      using percentile_at [OF ne, of fl "fl_percent fl p"] by auto
    have le: "ls ! ?i p \<le> ls ! ?i q" if "p \<le> q" for p q
      by (rule sorted_nth_mono [OF fields(8) _ at(2)]) (rule min.mono [OF assms(10) [OF that] order_refl])
    have "first_of ls = Some (hd ls)" "last_of ls = Some (last ls)"
      using ne by (simp_all add: first_of_def last_of_def list.case_eq_if)
    then show ?thesis
      using fields(1-5) at(1) le [of 50 95] le [of 95 99] sorted_ends(1) [OF fields(8) at(2) [of 50]]
        sorted_ends(2) [OF fields(8) at(2) [of 99]] by simp
  qed
  have "length end_content + total_deletes txns = total_inserts txns"
    using patches_length [OF assms(7)] assms(9) by (simp add: total_deletes_def total_inserts_def)
  then show ?thesis
    using run times fields(6,9-12) by (intro exI [of _ rep]) (cases "?n = 0"; simp)
qed

text \<open>Exact arithmetic, on thousandths of the measured unit, and a run of three operations.\<close>

definition exact_floats :: "nat floats" where
  "exact_floats = \<lparr>fl_of_nat = (\<lambda>n. n), fl_percent = (\<lambda>p. p), fl_mult = (\<lambda>a b. a * b div 100),
     fl_div = (div), fl_sum = sum_list, fl_floor = (\<lambda>x. x)\<rparr>"

definition sample_world :: "nat bench_world" where
  "sample_world = \<lparr>bw_read = (\<lambda>p. Inr [1]), bw_from_str = (\<lambda>s. Inr ([[(0, 0, [97, 98])], [(1, 1, [])]], [97])),
     bw_scratch = Inr ([''/'', ''s''], Listing [File_entry ''doc.txt'' (Inr [])]), bw_idle = None,
     bw_peak = None, bw_latency = (\<lambda>k. if k = 0 then 5 else 3), bw_total_ms = 11, bw_error = (\<lambda>e. [])\<rparr>"

theorem benchmark_reports_witness:
  "\<exists>rep. run_benchmark exact_floats sample_world ''t'' ''l'' = Some (Inr rep) \<and>
     rt_correctness_check rep = ''PASS'' \<and> 1 + rt_total_char_deletes rep = rt_total_char_inserts rep"
proof -
  let ?l = "Listing [File_entry ''doc.txt'' (Inr [])]" and ?t = "[[(0, 0, [97, 98])], [(1, 1, [])]] :: patch list list"
  have world: "bw_read sample_world ''t'' = Inr [1]" "bw_from_str sample_world [1] = Inr (?t, [97])"
    "bw_scratch sample_world = Inr ([''/'', ''s''], ?l)" by (simp_all add: sample_world_def)
  have fs: "readable ?l" "names_ok [''/'', ''s''] ?l"
    "([''/'', ''s''] @ [''doc.txt''], []) \<in> set (fs_texts [''/'', ''s''] ?l)"
    by (simp_all add: fresh_name_def)
  have tr: "patches_fit (concat ?t) []" "fs_size ?l + total_inserts ?t < 2 ^ 32"
    "[97] = fold patch_text (concat ?t) []" by (simp_all add: total_inserts_def)
  have mono: "\<And>i j n. i \<le> j \<Longrightarrow> fl_floor exact_floats (fl_mult exact_floats (fl_percent exact_floats i) (fl_of_nat exact_floats n)) \<le>
      fl_floor exact_floats (fl_mult exact_floats (fl_percent exact_floats j) (fl_of_nat exact_floats n))"
    by (simp add: exact_floats_def div_le_mono)
  from benchmark_reports [OF world fs tr mono] show ?thesis by fastforce
qed

text \<open>
  An offset is located exactly when it is within the text, the end included; its line
  exists, its column is within the line, the end included, and the line breaks and characters of the
  lines above and the column add up to the offset.
\<close>

theorem locate_within_bounds:
  assumes "ls \<noteq> []"
  shows "(locate ls offset = None \<longleftrightarrow> length (current_text ls) < offset) \<and>
    (\<forall>row col. locate ls offset = Some (row, col) \<longrightarrow>
       row < length ls \<and> col \<le> length (cells (ls ! row)) \<and>
       offset = (\<Sum>l \<leftarrow> take row ls. Suc (length (cells l))) + col)"
proof -
  have len: "length (all_keys ls) = Suc (length (current_text ls))"
    using arg_cong [OF current_text_tl [OF assms], of length] length_all [of ls] by simp
  have sum: "length (all_keys us) = (\<Sum>l \<leftarrow> us. Suc (length (cells l)))" for us
    by (induction us) auto
  show ?thesis
  proof (cases "offset < length (all_keys ls)")
    case True
    then obtain us l vs col where "locate ls offset = Some (length us, col)" "ls = us @ l # vs"
      "col \<le> length (cells l)" "offset = length (all_keys us) + col" by (rule locate_split)
    then show ?thesis using True len sum by simp
  next
    case False
    then have "locate ls offset = None" using locate_beyond [of 0 ls offset 0] by (simp add: locate_def)
    then show ?thesis using False len by simp
  qed
qed

theorem locate_within_bounds_witness:
  "locate [\<lparr>anchor_id = 0, anchor_peer = 0, cells = []\<rparr>] 1 = None"
  using locate_within_bounds [of "[\<lparr>anchor_id = 0, anchor_peer = 0, cells = []\<rparr>]" 1]
  by (simp add: current_text_def)

end
