(* ===== verification/Relative.thy ===== *)
theory Relative
  imports NetworkQueue
begin

text \<open>
  Trees and messages seen from the root of a shar: every replica keeps the shar at a place of its own,
  and what they have in common is said with paths below the root. A set of messages acts on a shar at
  any place as it does on one whose root is the empty path.
\<close>

definition shift :: "path \<Rightarrow> path \<times> key \<Rightarrow> path \<times> key" where
  "shift b x = (b @ fst x, snd x)"

definition shift_link :: "path \<Rightarrow> link \<Rightarrow> link" where
  "shift_link b l = (shift b (fst l), snd l)"

lemma shift_simps [simp]:
  "shift b (p, k) = (b @ p, k)" "snd (shift b x) = snd x" "fst (shift b x) = b @ fst x"
  "shift_link b (x, u) = (shift b x, u)"
  by (simp_all add: shift_def shift_link_def)

lemma inj_shift: "inj (shift b)" "inj (shift_link b)"
  by (auto simp: inj_def shift_def shift_link_def)

lemma shift_image [simp]: "shift b x \<in> shift b ` X \<longleftrightarrow> x \<in> X" "(b @ p, k) \<in> shift b ` X \<longleftrightarrow> (p, k) \<in> X"
  using inj_image_mem_iff [OF inj_shift(1)] shift_simps(1) by metis+

lemma shift_link_image [simp]:
  "shift_link b l \<in> shift_link b ` L \<longleftrightarrow> l \<in> L" "((b @ p, k), u) \<in> shift_link b ` L \<longleftrightarrow> ((p, k), u) \<in> L"
  using inj_image_mem_iff [OF inj_shift(2)] shift_simps(1,4) by metis+

lemma single_valued_shift: "single_valued R \<Longrightarrow> single_valued (shift_link b ` R)"
proof (rule single_valuedI)
  fix x u w assume R: "single_valued R" and x: "(x, u) \<in> shift_link b ` R" "(x, w) \<in> shift_link b ` R"
  then obtain y z where "(y, u) \<in> R" "(z, w) \<in> R" "x = shift b y" "x = shift b z"
    by (auto simp: shift_link_def)
  moreover from this have "y = z" using inj_shift(1) by (blast dest: injD)
  ultimately show "u = w" using R by (blast dest: single_valuedD)
qed

section \<open>Trees\<close>

definition rel_nodes :: "shar_directory \<Rightarrow> (path \<times> key) set" where
  "rel_nodes d = {x. shift (dir_name d) x \<in> nodes d}"

definition rel_tombs :: "shar_directory \<Rightarrow> (path \<times> key) set" where
  "rel_tombs d = {x. shift (dir_name d) x \<in> tombs d}"

definition rel_links :: "shar_directory \<Rightarrow> link set" where
  "rel_links d = {l. shift_link (dir_name d) l \<in> links d}"

text \<open>Two trees hold the same characters in the same files, with the same values, parents and tombstones.\<close>

definition same_content :: "shar_directory \<Rightarrow> shar_directory \<Rightarrow> bool" where
  "same_content d e \<longleftrightarrow>
     rel_nodes d = rel_nodes e \<and> rel_links d = rel_links e \<and> rel_tombs d = rel_tombs e"

lemma node_below:
  assumes "tree_inv d" "x \<in> nodes d"
  shows "\<exists>y. x = shift (dir_name d) y"
proof -
  obtain f where f: "lookup_file d (fst x) = Some f" using assms(2) by (auto simp: nodes_def)
  then have "f \<in> set (all_files d)" "file_path f = fst x"
    using assms(1) by (simp_all add: tree_inv_def lookup_file_iff)
  with files_below(1) [of d f] assms(1) obtain rel where "fst x = dir_name d @ rel"
    by (auto simp: tree_inv_def)
  then show ?thesis by (metis prod.collapse shift_simps(1))
qed

lemma shifted_nodes: "tree_inv d \<Longrightarrow> nodes d = shift (dir_name d) ` rel_nodes d"
  using node_below [of d] by (fastforce simp: rel_nodes_def)

lemma shifted_tombs: "tree_inv d \<Longrightarrow> tombs d = shift (dir_name d) ` rel_tombs d"
  using node_below [of d] tombs_nodes [of d] by (fastforce simp: rel_tombs_def)

lemma shifted_links: "tree_inv d \<Longrightarrow> links d = shift_link (dir_name d) ` rel_links d"
proof -
  assume d: "tree_inv d"
  have "l \<in> shift_link (dir_name d) ` rel_links d" if l: "l \<in> links d" for l
  proof -
    obtain x u where xu: "l = (x, u)" by (cases l)
    then obtain y where "x = shift (dir_name d) y" using node_below [OF d] links_node l by blast
    then have "l = shift_link (dir_name d) (y, u)" using xu by simp
    moreover from this l have "(y, u) \<in> rel_links d" by (simp add: rel_links_def)
    ultimately show ?thesis by (rule image_eqI)
  qed
  moreover have "shift_link (dir_name d) ` rel_links d \<subseteq> links d" by (force simp: rel_links_def)
  ultimately show ?thesis by blast
qed

lemma rel_node_link: "x \<in> rel_nodes d \<longleftrightarrow> (\<exists>u. (x, u) \<in> rel_links d)"
  unfolding rel_nodes_def rel_links_def mem_Collect_eq shift_simps
  by (rule iffI) (blast intro: node_links links_node)+

lemma same_content_lookup:
  assumes "\<And>rel. map_option characters (lookup_file d (dir_name d @ rel)) =
    map_option characters (lookup_file e (dir_name e @ rel))"
  shows "same_content d e"
proof -
  have "(\<exists>f. lookup_file d (dir_name d @ rel) = Some f \<and> P (characters f)) \<longleftrightarrow>
      (\<exists>f. lookup_file e (dir_name e @ rel) = Some f \<and> P (characters f))" for rel P
    using assms [of rel] by (cases "lookup_file d (dir_name d @ rel)"; cases "lookup_file e (dir_name e @ rel)") auto
  note eq = this
  have "x \<in> rel_nodes d \<longleftrightarrow> x \<in> rel_nodes e" for x
    using eq [of "fst x" "\<lambda>m. snd x \<in> dom m"] by (simp add: rel_nodes_def nodes_def shift_def)
  moreover have "x \<in> rel_tombs d \<longleftrightarrow> x \<in> rel_tombs e" for x
    using eq [of "fst x" "\<lambda>m. \<exists>r. m (snd x) = Some r \<and> cr_deleted r"]
    by (simp add: rel_tombs_def tombs_def shift_def)
  moreover have "l \<in> rel_links d \<longleftrightarrow> l \<in> rel_links e" for l
    using eq [of "fst (fst l)" "\<lambda>m. \<exists>r. m (snd (fst l)) = Some r \<and> snd l = (cr_value r, parent_key r)"]
    by (cases "fst l"; cases "snd l") (simp add: rel_links_def links_def shift_def shift_link_def split_def prod_eq_iff)
  ultimately show ?thesis unfolding same_content_def by blast
qed

section \<open>Messages\<close>

text \<open>A path of a message that is resolved by prefixing the root.\<close>

definition plain_path :: "path \<Rightarrow> bool" where
  "plain_path rel \<longleftrightarrow> rel = [] \<or> hd rel \<notin> {''/'', ''.''}"

lemma join_empty [simp]: "join [] p = p"
  by (simp add: join_def)

lemma join_plain: "is_absolute b \<Longrightarrow> plain_path p \<Longrightarrow> join b p = b @ p"
  by (cases p) (auto simp: join_def is_absolute_def plain_path_def)

lemma op_dep_plain:
  "is_absolute b \<Longrightarrow> plain_path (op_file op) \<Longrightarrow> op_dep b op = shift b (op_dep [] op)"
  by (simp add: op_dep_def join_plain)

lemma op_dep_empty: "op_dep [] op = (op_file op, waits_for op)"
  by (simp add: op_dep_def)

lemma in_shar_plain: "is_absolute b \<Longrightarrow> plain_path (op_file op) \<Longrightarrow> in_shar b op"
  by (simp add: in_shar_def join_plain)

lemma removal_targets_shift:
  assumes "is_absolute b" "\<forall>op \<in> S. plain_path (op_file op)"
  shows "removal_targets b S = shift b ` removal_targets [] S"
proof -
  have image: "removal_targets c S = (\<lambda>r. op_dep c (REMOVE r)) ` {r. REMOVE r \<in> S \<and> rm_key r \<noteq> root}" for c
    by (auto simp: removal_targets_def)
  show ?thesis
    unfolding image image_image
    by (rule image_cong) (use assms in \<open>auto intro: op_dep_plain\<close>)
qed

lemma links_of_shift:
  assumes "is_absolute b" "\<forall>op \<in> S. plain_path (op_file op)"
  shows "links_of b S = shift_link b ` links_of [] S"
proof -
  have image: "links_of c S = (\<lambda>a. ((join c (na_file_path a), crdt_key (na_crdt a)),
      cr_value (crdt_relation (na_crdt a)), parent_key (crdt_relation (na_crdt a)))) `
      {a. ADD a \<in> S \<and> crdt_key (na_crdt a) \<noteq> root}" for c
    by (auto simp: links_of_def)
  show ?thesis
    unfolding image image_image
  proof (rule image_cong)
    fix a assume "a \<in> {a. ADD a \<in> S \<and> crdt_key (na_crdt a) \<noteq> root}"
    then have "join b (na_file_path a) = b @ na_file_path a" using assms(2) join_plain [OF assms(1)] by fastforce
    then show "((join b (na_file_path a), crdt_key (na_crdt a)), cr_value (crdt_relation (na_crdt a)),
          parent_key (crdt_relation (na_crdt a))) =
        shift_link b ((join [] (na_file_path a), crdt_key (na_crdt a)), cr_value (crdt_relation (na_crdt a)),
          parent_key (crdt_relation (na_crdt a)))"
      by simp
  qed simp
qed

lemma sunk_shift: "sunk (shift_link b ` L) (shift b ` D) y \<Longrightarrow> y = shift b x \<Longrightarrow> sunk L D x"
proof (induction arbitrary: x rule: sunk.induct)
  case (sunk_top p k v)
  then show ?case by (cases x) (auto intro: sunk.sunk_top)
next
  case (sunk_below p k v par)
  obtain rel where x: "x = (rel, k)" "p = b @ rel" using sunk_below.prems by (cases x) auto
  then have "sunk L D (rel, par)" by (intro sunk_below.IH) simp
  moreover have "((rel, k), v, par) \<in> L" "(rel, k) \<in> D" using sunk_below.hyps(1,2) x by simp_all
  ultimately show ?case unfolding x(1) by (blast intro: sunk.sunk_below)
qed

lemma accepts_shift:
  "accepts L D p r \<Longrightarrow> accepts (shift_link b ` L) (shift b ` D) (b @ p) r"
  using sunk_shift [of b L D "(b @ p, parent_key r)" "(p, parent_key r)"]
  unfolding accepts_def shift_image shift_simps by blast

text \<open>The log of a network: each of its insertions is accepted beside all of it.\<close>

definition orderly_log :: "link set \<Rightarrow> (path \<times> key) set \<Rightarrow> network_op list \<Rightarrow> bool" where
  "orderly_log L T ms \<longleftrightarrow>
     (\<forall>a. ADD a \<in> set ms \<longrightarrow> accepts (L \<union> links_of [] (set ms)) (T \<union> removal_targets [] (set ms))
        (na_file_path a) (crdt_relation (na_crdt a)))"

definition plain_log :: "network_op list \<Rightarrow> bool" where
  "plain_log ms \<longleftrightarrow> (\<forall>m \<in> set ms. plain_path (op_file m)) \<and>
     (\<forall>a. ADD a \<in> set ms \<longrightarrow> \<not> cr_deleted (crdt_relation (na_crdt a)))"

lemma orderly_prefix:
  assumes "orderly_log L T (ms @ ns)"
  shows "orderly_log L T ms"
  unfolding orderly_log_def
proof (intro allI impI)
  fix a assume "ADD a \<in> set ms"
  then have "accepts (L \<union> links_of [] (set (ms @ ns))) (T \<union> removal_targets [] (set (ms @ ns)))
      (na_file_path a) (crdt_relation (na_crdt a))" using assms by (simp add: orderly_log_def)
  then show "accepts (L \<union> links_of [] (set ms)) (T \<union> removal_targets [] (set ms))
      (na_file_path a) (crdt_relation (na_crdt a))"
    by (rule accepts_mono) (auto simp: links_of_def removal_targets_def)
qed

lemma log_orderly_run:
  assumes "orderly_log L T ms" "plain_log ms" "is_absolute b"
  shows "orderly_run b (shift_link b ` L) (shift b ` T) ms"
proof -
  have plain: "\<forall>m \<in> set ms. plain_path (op_file m)" using assms(2) by (simp add: plain_log_def)
  note shifted = links_of_shift [of b "set ms", OF assms(3) plain] removal_targets_shift [of b "set ms", OF assms(3) plain]
  have "accepts (shift_link b ` L \<union> links_of b (set ms)) (shift b ` T \<union> removal_targets b (set ms))
      (join b (na_file_path a)) (crdt_relation (na_crdt a))" if a: "ADD a \<in> set ms" for a
  proof -
    have "join b (na_file_path a) = b @ na_file_path a" using bspec [OF plain a] join_plain [OF assms(3)] by simp
    moreover have "accepts (L \<union> links_of [] (set ms)) (T \<union> removal_targets [] (set ms))
        (na_file_path a) (crdt_relation (na_crdt a))" using assms(1) a by (simp add: orderly_log_def)
    from accepts_shift [OF this, of b] have
      "accepts (shift_link b ` L \<union> links_of b (set ms)) (shift b ` T \<union> removal_targets b (set ms))
        (b @ na_file_path a) (crdt_relation (na_crdt a))"
      unfolding shifted [symmetric] image_Un by (simp only: shifted)
    ultimately show ?thesis by simp
  qed
  then show ?thesis
    using assms(2,3) in_shar_plain by (auto simp: orderly_run_def plain_log_def)
qed

text \<open>What can be reached is the same everywhere.\<close>

lemma reachable_shift_up:
  assumes b: "is_absolute b" and S: "\<And>op. op \<in> S \<Longrightarrow> plain_path (op_file op)" "S \<subseteq> S'"
  shows "x \<in> reachable [] N S \<Longrightarrow> shift b x \<in> reachable b (shift b ` N) S'"
proof (induction rule: reachable.induct)
  case (reach_new a)
  have "plain_path (na_file_path a)" using S(1) [OF reach_new.hyps(1)] by simp
  then have j: "join b (na_file_path a) = b @ na_file_path a" by (rule join_plain [OF b])
  have "(join b (na_file_path a), crdt_key (na_crdt a)) \<in> reachable b (shift b ` N) S'"
    by (rule reachable.reach_new)
      (use reach_new S in \<open>auto simp: op_dep_plain [OF b S(1) [OF reach_new.hyps(1)]]\<close>)
  then show ?case using j by simp
qed (auto intro: reach_old)

lemma reachable_shift:
  assumes b: "is_absolute b" and ms: "\<forall>m \<in> set ms. plain_path (op_file m)"
  shows "reachable b (shift b ` N) (universe b ms) = shift b ` reachable [] N (set ms)"
proof
  show "reachable b (shift b ` N) (universe b ms) \<subseteq> shift b ` reachable [] N (set ms)"
  proof
    fix x assume "x \<in> reachable b (shift b ` N) (universe b ms)"
    then show "x \<in> shift b ` reachable [] N (set ms)"
    proof (induction rule: reachable.induct)
      case (reach_new a)
      have shar: "\<forall>op \<in> set ms. in_shar b op" using ms in_shar_plain [OF b] by blast
      obtain a0 where a0: "ADD a0 \<in> set ms" "na_crdt a = na_crdt a0"
        "join b (na_file_path a) = join b (na_file_path a0)"
        using universe_add [OF b shar reach_new.hyps(1)] by blast
      then have j: "join b (na_file_path a) = b @ na_file_path a0"
        using ms join_plain [OF b, of "na_file_path a0"] by auto
      have "op_dep b (ADD a) = shift b (op_dep [] (ADD a0))" using j a0(2) by (simp add: op_dep_def)
      then have "op_dep [] (ADD a0) \<in> reachable [] N (set ms)" using reach_new.IH by simp
      then have "(join [] (na_file_path a0), crdt_key (na_crdt a0)) \<in> reachable [] N (set ms)"
        using a0(1,2) reach_new.hyps by (intro reachable.reach_new) simp_all
      then show ?case using j a0(2) by simp
    qed (auto intro: reach_old)
  qed
  show "shift b ` reachable [] N (set ms) \<subseteq> reachable b (shift b ` N) (universe b ms)"
    using reachable_shift_up [OF b, of "set ms" "universe b ms"] ms by (auto simp: universe_def)
qed

end
