(* ===== verification/LocalEdit.thy ===== *)
theory LocalEdit
  imports QueueRuns Relative
begin

text \<open>
  An edit of the IDE on a queue that serves messages of the network at the same time: the edit is
  carried out, its message joins the messages that the tree accounts for, and nothing that waits
  could have gone on.
\<close>

lemma reachable_mono: "x \<in> reachable b N S \<Longrightarrow> S \<subseteq> S' \<Longrightarrow> x \<in> reachable b N S'"
  by (induction rule: reachable.induct) (auto intro: reachable.intros)

lemma served_more:
  assumes "served b L N T S M q" "S \<subseteq> S'"
  shows "served b L N T S' M q"
proof -
  have "links_of b S \<subseteq> links_of b S'" "removal_targets b S \<subseteq> removal_targets b S'"
    using assms(2) by (auto simp: links_of_def removal_targets_def)
  then show ?thesis
    using assms reachable_mono [of _ b N S S'] unfolding served_def queue_inv_def by blast
qed

section \<open>Typing\<close>

text \<open>
  The new character is in the tree, with a message for it; what waited still waits, since nothing
  waits for a character with the new identity.
\<close>

lemma served_typed:
  assumes q: "served b L N T S M q" and m: "ADD m \<in> S" "join b (na_file_path m) = p"
    and k: "k = crdt_key (na_crdt m)" "k \<noteq> root" "\<And>x. x \<in> S \<Longrightarrow> waits_for x \<noteq> k"
    and par: "(p, parent_key (crdt_relation (na_crdt m))) \<in> nodes (tree q)"
    and q': "tree_inv (tree q')" "tree_root q' = tree_root q" "network_backlog q' = network_backlog q"
      "network_worklist q' = network_worklist q" "calm q'" "ids_counted q'"
      "nodes (tree q') = insert (p, k) (nodes (tree q))" "tombs (tree q') = tombs (tree q)"
      "links (tree q') = insert ((p, k), cr_value (crdt_relation (na_crdt m)),
        parent_key (crdt_relation (na_crdt m))) (links (tree q))"
  shows "served b L N T S (insert (ADD m) M) q'"
proof -
  have inv: "queue_inv b L N T S q" and old: "\<And>x. x \<in> M \<Longrightarrow> settled b q x"
    using q by (auto simp: served_def)
  have pend: "pending_ops q' = pending_ops q" using q'(3,4) by (simp add: pending_ops_def)
  have "bl.sorted_by (\<lambda>k op. k = waits_for op \<and> op_dep b op \<notin> nodes (tree q)) (network_backlog q)"
    using inv by (simp add: queue_inv_def all_blocked_def)
  then have "all_blocked b q'"
    unfolding all_blocked_def q'(3,7)
  proof (rule bl.sorted_by_mono)
    fix l x assume x: "x \<in> set (bl_get (network_backlog q) l)" "l = waits_for x \<and> op_dep b x \<notin> nodes (tree q)"
    then have "x \<in> pending_ops q" unfolding pending_ops_def bl.waiting_def by blast
    then have "x \<in> S" using inv unfolding queue_inv_def by blast
    then show "l = waits_for x \<and> op_dep b x \<notin> insert (p, k) (nodes (tree q))"
      using x(2) k(3) by (auto simp: op_dep_def)
  qed
  moreover have "(p, k) \<in> reachable b N S"
    using reach_new [OF m(1), of b N] inv par k(1,2) m(2) by (auto simp: queue_inv_def op_dep_def)
  moreover have "((p, k), cr_value (crdt_relation (na_crdt m)), parent_key (crdt_relation (na_crdt m))) \<in> links_of b S"
    using m k(1,2) unfolding links_of_def by blast
  moreover have "network_add_callback q'" "network_remove_callback q'" using q'(5) by (simp_all add: calm_def)
  ultimately have "queue_inv b L N T S q'"
    using inv q'(1,2,6-9) pend unfolding queue_inv_def by auto
  moreover have "grows q q'" using pend q'(7,8) by (auto simp: grows_def)
  then have "settled b q' x" if "x \<in> M" for x using settled_grows old that by blast
  moreover have "settled b q' (ADD m)" using q'(7) k(1) m(2) by (simp add: settled_def)
  ultimately show ?thesis by (auto simp: served_def)
qed

lemma typed_sets:
  assumes d: "lookup_file d' = (lookup_file d)(p \<mapsto> f')" "lookup_file d p = Some f"
    and f': "inserted f c f' x" "characters f (crdt_key c) = None" "\<not> cr_deleted (crdt_relation c)"
  shows "nodes d' = insert (p, crdt_key c) (nodes d)" "tombs d' = tombs d"
    "links d' = insert ((p, crdt_key c), cr_value (crdt_relation c), parent_key (crdt_relation c)) (links d)"
proof -
  have chars: "characters f' = (characters f)(crdt_key c \<mapsto> crdt_relation c)"
    using f'(1) by (simp add: inserted_def)
  have "nodes d' = nodes d \<union> Pair p ` {crdt_key c}" by (rule nodes_upd [OF d]) (simp add: chars)
  then show "nodes d' = insert (p, crdt_key c) (nodes d)" by simp
  have "tombs d' = tombs d \<union> Pair p ` {}"
    by (rule tombs_upd [OF d]) (use f'(2,3) in \<open>simp add: chars\<close>)
  then show "tombs d' = tombs d" by simp
  have "links d' = links d \<union>
      (\<lambda>(k, u). ((p, k), u)) ` {(crdt_key c, cr_value (crdt_relation c), parent_key (crdt_relation c))}"
    by (rule links_upd [OF d]) (use f'(2) in \<open>auto simp: chars\<close>)
  then show "links d' = insert ((p, crdt_key c), cr_value (crdt_relation c), parent_key (crdt_relation c)) (links d)"
    by simp
qed

section \<open>Deleting\<close>

lemma served_deleted:
  assumes q: "served b L N T S M q" and m: "REMOVE r \<in> S" "join b (rm_file_path r) = p" "rm_key r \<noteq> root"
    and q': "tree_inv (tree q')" "tree_root q' = tree_root q" "network_backlog q' = network_backlog q"
      "network_worklist q' = network_worklist q" "calm q'" "ids_counted q'"
      "nodes (tree q') = nodes (tree q)" "tombs (tree q') = insert (p, rm_key r) (tombs (tree q))"
      "links (tree q') = links (tree q)"
  shows "served b L N T S (insert (REMOVE r) M) q'"
proof -
  have inv: "queue_inv b L N T S q" and old: "\<And>x. x \<in> M \<Longrightarrow> settled b q x"
    using q by (auto simp: served_def)
  have pend: "pending_ops q' = pending_ops q" using q'(3,4) by (simp add: pending_ops_def)
  have "all_blocked b q'" using inv q'(3,7) by (simp add: queue_inv_def all_blocked_def)
  moreover have "(p, rm_key r) \<in> removal_targets b S"
    using m by (force simp: removal_targets_def op_dep_def)
  moreover have "network_add_callback q'" "network_remove_callback q'" using q'(5) by (simp_all add: calm_def)
  ultimately have "queue_inv b L N T S q'"
    using inv q'(1,2,6-9) pend unfolding queue_inv_def by auto
  moreover have "grows q q'" using pend q'(7,8) by (auto simp: grows_def)
  then have "settled b q' x" if "x \<in> M" for x using settled_grows old that by blast
  moreover have "settled b q' (REMOVE r)" using q'(8) m(2) by (simp add: settled_def)
  ultimately show ?thesis by (auto simp: served_def)
qed

lemma deleted_sets:
  assumes d: "lookup_file d' = (lookup_file d)(p \<mapsto> f')" "lookup_file d p = Some f"
    and f': "removed f k f'" "k \<in> dom (characters f)"
  shows "nodes d' = nodes d" "tombs d' = insert (p, k) (tombs d)" "links d' = links d"
proof -
  have chars: "characters f' = mark_deleted k (characters f)"
    using f' by (auto simp: removed_def mark_deleted_def)
  have "nodes d' = nodes d \<union> Pair p ` {}"
    by (rule nodes_upd [OF d]) (auto simp: chars mark_deleted_def)
  then show "nodes d' = nodes d" by simp
  have "tombs d' = tombs d \<union> Pair p ` {k}"
    by (rule tombs_upd [OF d]) (use f'(2) in \<open>auto simp: chars mark_deleted_def\<close>)
  then show "tombs d' = insert (p, k) (tombs d)" by simp
  have "links d' = links d \<union> (\<lambda>(k, u). ((p, k), u)) ` {}"
    by (rule links_upd [OF d]) (auto simp: chars mark_deleted_links)
  then show "links d' = links d" by simp
qed

section \<open>Receiving\<close>

lemma net_moves_calm: "net_moves q q' \<Longrightarrow> calm q \<Longrightarrow> calm q' \<and> peer q' = peer q \<and> counter q \<le> counter q'"
  by (simp add: net_moves_def settings_def calm_def)

end
