(* ===== verification/Callbacks.thy ===== *)
theory Callbacks
  imports QueueWrap
begin

text \<open>
  \<open>src/network_callbacks.rs\<close> and their wiring in \<open>QueueWrap::new\<close>: what a callback of the queue does
  to the world outside. The socket library decides whether an emission succeeds: \<open>ok n\<close> says it of
  the \<open>n\<close>-th attempt. The channel to the gossip task takes every message while its consumer listens;
  sending to one that does not is the panic of \<open>expect\<close>. The callbacks do not touch the queue, so an
  operation's callbacks run here after it, in the order of its log.
\<close>

datatype message =
    Msg_network_add network_add
  | Msg_network_remove remove
  | Msg_ide_add_complete network_add
  | Msg_ide_add_confirmed ide_add_confirmed
  | Msg_initial_state path "(key \<times> uchar) list list"

record outside =
  attempts :: nat
  emitted :: "message list"
  channel :: "network_op list"
  listening :: bool
  rooms :: "string list"

section \<open>Emission\<close>

text \<open>The loop of every emitting callback: attempts until one succeeds, or for ever (\<open>None\<close>).\<close>

partial_function (option) emit_until_ok :: "(nat \<Rightarrow> bool) \<Rightarrow> nat \<Rightarrow> nat option" where
  "emit_until_ok ok n = (if ok n then Some (Suc n) else emit_until_ok ok (Suc n))"

declare emit_until_ok.simps [code]

definition emit_message :: "(nat \<Rightarrow> bool) \<Rightarrow> message \<Rightarrow> outside \<Rightarrow> outside option" where
  "emit_message ok msg s =
     map_option (\<lambda>n. s\<lparr>attempts := n, emitted := emitted s @ [msg]\<rparr>) (emit_until_ok ok (attempts s))"

definition send_op :: "network_op \<Rightarrow> outside \<Rightarrow> outside option" where
  "send_op op s = (if listening s then Some (s\<lparr>channel := channel s @ [op]\<rparr>) else None)"

section \<open>The callbacks\<close>

definition do_network_add :: "(nat \<Rightarrow> bool) \<Rightarrow> network_add \<Rightarrow> outside \<Rightarrow> outside option" where
  "do_network_add ok op = emit_message ok (Msg_network_add op)"

definition do_network_remove :: "(nat \<Rightarrow> bool) \<Rightarrow> remove \<Rightarrow> outside \<Rightarrow> outside option" where
  "do_network_remove ok op = emit_message ok (Msg_network_remove op)"

definition do_ide_remove :: "remove \<Rightarrow> outside \<Rightarrow> outside option" where
  "do_ide_remove op = send_op (REMOVE op)"

definition do_ide_add ::
  "(nat \<Rightarrow> bool) \<Rightarrow> network_add \<Rightarrow> network_add \<Rightarrow> outside \<Rightarrow> outside option"
where
  "do_ide_add ok op_broadcast op_local s =
     Option.bind (send_op (ADD op_broadcast) s) (emit_message ok (Msg_ide_add_complete op_local))"

definition do_ide_add_confirm :: "(nat \<Rightarrow> bool) \<Rightarrow> ide_add_confirmed \<Rightarrow> outside \<Rightarrow> outside option" where
  "do_ide_add_confirm ok op_return = emit_message ok (Msg_ide_add_confirmed op_return)"

text \<open>Which callback an event of the queue's log stands for.\<close>

definition callback :: "(nat \<Rightarrow> bool) \<Rightarrow> event \<Rightarrow> outside \<Rightarrow> outside option" where
  "callback ok e =
     (case e of
        Network_added op \<Rightarrow> do_network_add ok op
      | Network_removed op \<Rightarrow> do_network_remove ok op
      | Ide_add_confirmed op_return \<Rightarrow> do_ide_add_confirm ok op_return
      | Ide_added op_broadcast op_local \<Rightarrow> do_ide_add ok op_broadcast op_local
      | Ide_removed op \<Rightarrow> do_ide_remove op)"

fun callbacks :: "(nat \<Rightarrow> bool) \<Rightarrow> event list \<Rightarrow> outside \<Rightarrow> outside option" where
  "callbacks ok [] s = Some s"
| "callbacks ok (e # es) s = Option.bind (callback ok e s) (callbacks ok es)"

section \<open>What is delivered\<close>

text \<open>The messages to the IDE and the broadcasts that an event asks for.\<close>

definition to_ide :: "event \<Rightarrow> message list" where
  "to_ide e =
     (case e of
        Network_added op \<Rightarrow> [Msg_network_add op]
      | Network_removed op \<Rightarrow> [Msg_network_remove op]
      | Ide_add_confirmed c \<Rightarrow> [Msg_ide_add_confirmed c]
      | Ide_added b l \<Rightarrow> [Msg_ide_add_complete l]
      | Ide_removed op \<Rightarrow> [])"

definition to_peers :: "event \<Rightarrow> network_op list" where
  "to_peers e = (case e of Ide_added b l \<Rightarrow> [ADD b] | Ide_removed op \<Rightarrow> [REMOVE op] | _ \<Rightarrow> [])"

lemma emit_until_ok_later:
  assumes "n \<le> m" "ok m"
  shows "\<exists>k. emit_until_ok ok n = Some (Suc k) \<and> n \<le> k \<and> ok k"
  using assms(1)
proof (induction rule: inc_induct)
  case base
  show ?case using assms(2) by (subst emit_until_ok.simps) simp
next
  case (step n)
  then obtain k where "emit_until_ok ok (Suc n) = Some (Suc k)" "Suc n \<le> k" "ok k" by blast
  then show ?case by (subst emit_until_ok.simps) auto
qed

lemma emit_until_ok_result:
  assumes "emit_until_ok ok n = Some m"
  shows "\<exists>k. m = Suc k \<and> n \<le> k \<and> ok k"
  using assms
proof (rule emit_until_ok.raw_induct [where P = "\<lambda>ok n m. \<exists>k. m = Suc k \<and> n \<le> k \<and> ok k", rotated])
  fix emit :: "(nat \<Rightarrow> bool) \<Rightarrow> nat \<Rightarrow> nat option" and ok n m
  assume IH: "\<And>ok n m. emit ok n = Some m \<Longrightarrow> \<exists>k. m = Suc k \<and> n \<le> k \<and> ok k"
    and step: "(if ok n then Some (Suc n) else emit ok (Suc n)) = Some m"
  show "\<exists>k. m = Suc k \<and> n \<le> k \<and> ok k"
  proof (cases "ok n")
    case False
    with step have "emit ok (Suc n) = Some m" by simp
    from IH [OF this] show ?thesis by auto
  qed (use step in auto)
qed

lemma emit_until_ok_returns_iff: "emit_until_ok ok n \<noteq> None \<longleftrightarrow> (\<exists>m \<ge> n. ok m)"
  using emit_until_ok_result [of ok n] emit_until_ok_later [of n _ ok] by fastforce

interpretation cb: sequence "callback ok" "callbacks ok" for ok
  by unfold_locales simp_all

text \<open>With sockets that work again and again and a listening consumer, every event is delivered.\<close>

lemma emit_message_delivers:
  assumes "\<And>n. \<exists>m \<ge> n. ok m"
  shows "\<exists>n. emit_message ok msg s = Some (s\<lparr>attempts := n, emitted := emitted s @ [msg]\<rparr>)"
proof -
  obtain m where "attempts s \<le> m" "ok m" using assms by blast
  from emit_until_ok_later [where ok = ok, OF this] show ?thesis by (auto simp: emit_message_def)
qed

lemma callback_delivers:
  assumes "\<And>n. \<exists>m \<ge> n. ok m" "listening s"
  shows "\<exists>n. callback ok e s = Some (s\<lparr>attempts := n, emitted := emitted s @ to_ide e,
    channel := channel s @ to_peers e\<rparr>)"
proof -
  note emit = emit_message_delivers [where ok = ok, OF assms(1)]
  show ?thesis
  proof (cases e)
    case (Network_added op)
    then show ?thesis using emit [of "Msg_network_add op" s]
      by (auto simp: callback_def do_network_add_def to_ide_def to_peers_def)
  next
    case (Network_removed op)
    then show ?thesis using emit [of "Msg_network_remove op" s]
      by (auto simp: callback_def do_network_remove_def to_ide_def to_peers_def)
  next
    case (Ide_add_confirmed c)
    then show ?thesis using emit [of "Msg_ide_add_confirmed c" s]
      by (auto simp: callback_def do_ide_add_confirm_def to_ide_def to_peers_def)
  next
    case (Ide_added b l)
    then show ?thesis
      using emit [of "Msg_ide_add_complete l" "s\<lparr>channel := channel s @ [ADD b]\<rparr>"] assms(2)
      by (cases s) (auto simp: callback_def do_ide_add_def send_op_def to_ide_def to_peers_def)
  next
    case (Ide_removed op)
    then show ?thesis using assms(2)
      by (intro exI [of _ "attempts s"])
        (simp add: callback_def do_ide_remove_def send_op_def to_ide_def to_peers_def)
  qed
qed

lemma callbacks_deliver_all:
  assumes ok: "\<And>n. \<exists>m \<ge> n. ok m" and s: "listening s"
  shows "\<exists>n. callbacks ok es s = Some (s\<lparr>attempts := n, emitted := emitted s @ concat (map to_ide es),
    channel := channel s @ concat (map to_peers es)\<rparr>)"
  using s
proof (induction es arbitrary: s)
  case Nil
  show ?case by (intro exI [of _ "attempts s"]) simp
next
  case (Cons e es)
  from callback_delivers [where ok = ok, OF ok Cons.prems] obtain n where
    n: "callback ok e s = Some (s\<lparr>attempts := n, emitted := emitted s @ to_ide e,
      channel := channel s @ to_peers e\<rparr>)" ..
  from Cons.IH [of "s\<lparr>attempts := n, emitted := emitted s @ to_ide e,
      channel := channel s @ to_peers e\<rparr>"] Cons.prems n show ?case by auto
qed

end
