(* ===== verification/Propagation.thy ===== *)
theory Propagation
  imports Callbacks
begin

text \<open>
  One edit on two replicas: what the IDE of the first one does, and the message that it causes arriving
  at the second one, whose copy of the file agrees and lies at another place.
\<close>

text \<open>Two copies of a file that differ in their paths only.\<close>

lemma same_file:
  assumes "shar_file_eq f g"
  shows "characters f = characters g" "flat f = flat g" "text_of f = text_of g"
  using assms by (auto simp: shar_file_eq_def flat_def text_of_def char_at_def)

lemma same_fileI:
  "wf_file f \<Longrightarrow> wf_file g \<Longrightarrow> characters f = characters g \<Longrightarrow> flat f = flat g \<Longrightarrow> shar_file_eq f g"
  unfolding shar_file_eq_def by (intro conjI wf_file_unique)

lemma same_file_inserts:
  assumes "shar_file_eq f g" "inserted f c f' p" "inserted g c g' p'"
  shows "shar_file_eq f' g'"
  using assms(2,3) same_file [OF assms(1)] by (intro same_fileI) (simp_all add: inserted_def)

lemma same_file_removes:
  assumes "shar_file_eq f g" "removed f k f'" "removed g k g'"
  shows "shar_file_eq f' g'"
  using assms(2,3) same_file [OF assms(1)] by (intro same_fileI) (auto simp: removed_def)

lemma edit_transfer:
  assumes "tree_inv (tree q)" "ids_counted q" "unat (counter q) + 1 < 2 ^ 32" "quiet_for op q"
    and "lookup_file (tree q) (tree_root q @ rel) = Some f" "ia_file_path op = tree_root q @ rel"
    and "ia_parent_id op = Some (fst par)" "ia_parent_peer op = Some (snd par)"
    and "i < length (flat f)" "flat f ! i = par"
    and "tree_inv (tree r)" "map_of (network_backlog r) (counter q + 1, peer q) = None"
    and "network_add_callback r" "is_absolute (tree_root r)" "rel = [] \<or> hd rel \<notin> {''/'', ''.''}"
    and "lookup_file (tree r) (tree_root r @ rel) = Some g" "shar_file_eq f g"
  obtains q' r' f' g' c n where "add_ide_operation op q = Some q'"
    "events q' = events q @ [Ide_add_confirmed (IdeAddConfirmed_new (ia_tag op) (counter q + 1) (peer q)),
       Ide_added (NetworkAdd_new rel c n) (NetworkAdd_new rel c n)]"
    "add_network_operation (NetworkAdd_new rel c n) r = Some r'"
    "events r' = events r @ [Network_added (NetworkAdd_new (tree_root r @ rel) c n)]"
    "lookup_file (tree q') (tree_root q @ rel) = Some f'"
    "lookup_file (tree r') (tree_root r @ rel) = Some g'" "shar_file_eq f' g'"
    "text_of f' = take i (text_of f) @ ia_val op # drop i (text_of f)"
    "tree_inv (tree q')" "tree_root q' = tree_root q" "ids_counted q'" "idle q \<longrightarrow> idle q'"
    "counter q' = counter q + 1"
    "tree_inv (tree r')" "tree_root r' = tree_root r" "ids_counted r \<longrightarrow> ids_counted r'"
    "idle r \<longrightarrow> idle r'" "counter r' = max (counter r) (counter q + 1)" "c = typed_crdt op par q"
proof -
  let ?c = "typed_crdt op par q"
  obtain q' f' p where q': "add_ide_operation op q = Some q'"
    "lookup_file (tree q') = (lookup_file (tree q))(tree_root q @ rel \<mapsto> f')" "inserted f ?c f' p"
    "text_of f' = take i (text_of f) @ ia_val op # drop i (text_of f)"
    "events q' = events q @ [Ide_add_confirmed (IdeAddConfirmed_new (ia_tag op) (counter q + 1) (peer q)),
       Ide_added (NetworkAdd_new rel ?c (fst p)) (NetworkAdd_new rel ?c (fst p))]"
    "tree_inv (tree q')" "tree_root q' = tree_root q" "ids_counted q'" "idle q \<longrightarrow> idle q'"
    "counter q' = counter q + 1"
    using add_ide_typed [OF assms(1-10)] by (elim exE conjE) (erule that; simp add: idle_def)
  note eq = same_file [OF assms(17)]
  have wf: "wf_file f" using tree_inv_file assms(1,5) by blast
  have "par \<in> live_keys (characters f)" using assms(9,10) wf_fileD(4) [OF wf] by (metis nth_mem)
  note fresh = ids_counted_newest [OF assms(2,5) word_succ_less [OF assms(3)]]
  have "newest f ?c" by (rule fresh(2)) (simp add: typed_crdt_def)
  then have c: "insertable g ?c" "newest g ?c"
    using fresh(1) \<open>par \<in> _\<close> eq(1) by (simp_all add: insertable_def typed_crdt_def newest_def)
  have key: "crdt_key ?c = (counter q + 1, peer q)" "parent_key (crdt_relation ?c) = par"
    by (simp_all add: typed_crdt_def)
  have id: "crdt_id ?c = counter q + 1" by (simp add: typed_crdt_def)
  obtain r' g' p' where r': "add_network_operation (NetworkAdd_new rel ?c (fst p)) r = Some r'"
    "lookup_file (tree r') = (lookup_file (tree r))(tree_root r @ rel \<mapsto> g')" "inserted g ?c g' p'"
    "events r' = events r @ [Network_added (NetworkAdd_new (tree_root r @ rel) ?c (fst p))]"
    "tree_inv (tree r')" "tree_root r' = tree_root r" "ids_counted r \<longrightarrow> ids_counted r'"
    "idle r \<longrightarrow> idle r'" "counter r' = max (counter r) (crdt_id ?c)"
    using add_network_typed [OF assms(11) _ assms(13-16) c, of i "fst p"] assms(9,10,12) eq(2)
    unfolding key by auto
  have "shar_file_eq f' g'" by (rule same_file_inserts [OF assms(17) q'(3) r'(3)])
  with that [OF q'(1,5) r'(1,4)] q' r' id show ?thesis by simp
qed

section \<open>Taking turns\<close>

text \<open>
  An edit as the IDE asks for it, by an index into the text: it takes the identity at this index from
  the file's projection, as \<open>initial-state\<close> shows it. The messages are what its callbacks broadcast.
\<close>

datatype edit = Type_char nat uchar u32 nat | Delete_char nat nat

definition sent_since :: "shar_queue \<Rightarrow> shar_queue \<Rightarrow> network_op list" where
  "sent_since q q' = concat (map to_peers (drop (length (events q)) (events q')))"

definition ide_edit :: "path \<Rightarrow> edit \<Rightarrow> shar_queue \<Rightarrow> (shar_queue \<times> network_op list) option" where
  "ide_edit rel e q =
     (case lookup_file (tree q) (tree_root q @ rel) of
        None \<Rightarrow> None
      | Some f \<Rightarrow>
          map_option (\<lambda>q'. (q', sent_since q q'))
            (case e of
               Type_char i v tag hint \<Rightarrow>
                 (case vec_get (flat f) i of
                    None \<Rightarrow> None
                  | Some par \<Rightarrow>
                      add_ide_operation (IdeAdd_new (tree_root q @ rel) (Some (fst par)) (Some (snd par))
                        None v tag hint) q)
             | Delete_char i hint \<Rightarrow>
                 (case vec_get (flat f) (Suc i) of
                    None \<Rightarrow> None
                  | Some k \<Rightarrow>
                      remove_ide_operation (Remove_new (tree_root q @ rel) (fst k) (snd k) hint) q)))"

text \<open>An edit at one replica, and its messages at the other one.\<close>

definition edit_and_deliver ::
  "path \<Rightarrow> edit \<Rightarrow> shar_queue \<Rightarrow> shar_queue \<Rightarrow> (shar_queue \<times> shar_queue) option"
where
  "edit_and_deliver rel e q r =
     Option.bind (ide_edit rel e q) (\<lambda>(q', ms). map_option (Pair q') (receive_all ms r))"

fun take_turns :: "path \<Rightarrow> (bool \<times> edit) list \<Rightarrow> shar_queue \<times> shar_queue \<Rightarrow> (shar_queue \<times> shar_queue) option"
where
  "take_turns rel [] qr = Some qr"
| "take_turns rel ((first, e) # es) (q, r) =
     Option.bind
       (if first then edit_and_deliver rel e q r
        else map_option (\<lambda>(r', q'). (q', r')) (edit_and_deliver rel e r q))
       (take_turns rel es)"

text \<open>The reference: the same edits on one text.\<close>

fun edit_text :: "edit \<Rightarrow> uchar list \<Rightarrow> uchar list" where
  "edit_text (Type_char i v tag hint) t = take i t @ v # drop i t"
| "edit_text (Delete_char i hint) t = take i t @ drop (Suc i) t"

fun edit_fits :: "edit \<Rightarrow> uchar list \<Rightarrow> bool" where
  "edit_fits (Type_char i v tag hint) t \<longleftrightarrow> i \<le> length t"
| "edit_fits (Delete_char i hint) t \<longleftrightarrow> i < length t"

fun edits_fit :: "(bool \<times> edit) list \<Rightarrow> uchar list \<Rightarrow> bool" where
  "edits_fit [] t = True"
| "edits_fit ((first, e) # es) t \<longleftrightarrow> edit_fits e t \<and> edits_fit es (edit_text e t)"

definition shares :: "path \<Rightarrow> shar_queue \<Rightarrow> shar_file \<Rightarrow> bool" where
  "shares rel q f \<longleftrightarrow>
     tree_inv (tree q) \<and> ids_counted q \<and> idle q \<and> is_absolute (tree_root q) \<and>
     lookup_file (tree q) (tree_root q @ rel) = Some f"

definition in_step :: "path \<Rightarrow> uchar list \<Rightarrow> shar_queue \<times> shar_queue \<Rightarrow> bool" where
  "in_step rel t qr \<longleftrightarrow>
     (\<exists>f g. shares rel (fst qr) f \<and> shares rel (snd qr) g \<and> shar_file_eq f g \<and> text_of f = t)"

definition top_id :: "shar_queue \<times> shar_queue \<Rightarrow> nat" where
  "top_id qr = max (unat (counter (fst qr))) (unat (counter (snd qr)))"

lemma shar_file_eq_sym: "shar_file_eq f g \<Longrightarrow> shar_file_eq g f"
  by (simp add: shar_file_eq_def)

lemma in_step_swap: "in_step rel t (q, r) \<Longrightarrow> in_step rel t (r, q)"
  unfolding in_step_def fst_conv snd_conv using shar_file_eq_sym same_file(3) by metis

lemma length_text: "wf_file f \<Longrightarrow> length (flat f) = Suc (length (text_of f))"
  using wf_flat_root [of f] by (auto simp: text_of_def)

text \<open>A typed character at one of two replicas in step, and its message at the other one.\<close>

lemma typing_transfer:
  assumes s: "shares rel q f" "shares rel r g" "shar_file_eq f g" and rel: "rel = [] \<or> hd rel \<notin> {''/'', ''.''}"
    and i: "i \<le> length (text_of f)" and bound: "unat (counter q) + 1 < 2 ^ 32"
    and op: "op = IdeAdd_new (tree_root q @ rel) (Some (fst (flat f ! i))) (Some (snd (flat f ! i))) None v tag hint"
  obtains q' r' f' g' c n where "add_ide_operation op q = Some q'"
    "events q' = events q @ [Ide_add_confirmed (IdeAddConfirmed_new tag (counter q + 1) (peer q)),
       Ide_added (NetworkAdd_new rel c n) (NetworkAdd_new rel c n)]"
    "add_network_operation (NetworkAdd_new rel c n) r = Some r'"
    "events r' = events r @ [Network_added (NetworkAdd_new (tree_root r @ rel) c n)]"
    "shares rel q' f'" "shares rel r' g'" "shar_file_eq f' g'"
    "text_of f' = take i (text_of f) @ v # drop i (text_of f)"
    "parent_key (crdt_relation c) = flat f ! i" "cr_value (crdt_relation c) = v"
    "counter q' = counter q + 1" "counter r' = max (counter r) (counter q + 1)"
proof -
  have q: "tree_inv (tree q)" "ids_counted q" "idle q" "lookup_file (tree q) (tree_root q @ rel) = Some f"
    and r: "tree_inv (tree r)" "ids_counted r" "idle r" "is_absolute (tree_root r)"
      "lookup_file (tree r) (tree_root r @ rel) = Some g" and abs: "is_absolute (tree_root q)"
    using s(1,2) by (simp_all add: shares_def)
  have ops: "ia_file_path op = tree_root q @ rel" "ia_parent_id op = Some (fst (flat f ! i))"
    "ia_parent_peer op = Some (snd (flat f ! i))" "ia_val op = v" "ia_tag op = tag"
    by (simp_all add: op IdeAdd_new_def)
  have i': "i < length (flat f)" using length_text [OF tree_inv_file [OF q(1,4)]] i by simp
  have cb: "map_of (network_backlog r) (counter q + 1, peer q) = None" "network_add_callback r"
    using r(3) by (simp_all add: idle_def calm_def)
  have key: "parent_key (crdt_relation (typed_crdt op (flat f ! i) q)) = flat f ! i"
    "cr_value (crdt_relation (typed_crdt op (flat f ! i) q)) = v"
    by (simp_all add: typed_crdt_def ops(4))
  show thesis
    by (rule edit_transfer [OF q(1,2) bound idle_quiet [OF q(3)] q(4) ops(1-3) i' refl r(1) cb r(4) rel
          r(5) s(3)], rule that)
      (use abs q(3) r(2-4) ops key in \<open>simp_all add: shares_def\<close>)
qed

section \<open>Following a document\<close>

text \<open>
  A message that extends a document: it inserts a character that is new and newer than all, below a
  live parent, or removes a live character. And a message whose effect a document already has.
\<close>

definition follows :: "path \<Rightarrow> network_op \<Rightarrow> shar_file \<Rightarrow> shar_file \<Rightarrow> bool" where
  "follows rel m f f' \<longleftrightarrow>
     (case m of
        ADD a \<Rightarrow> na_file_path a = rel \<and> insertable f (na_crdt a) \<and> newest f (na_crdt a) \<and>
          (\<exists>p. inserted f (na_crdt a) f' p)
      | REMOVE x \<Rightarrow> rm_file_path x = rel \<and> rm_key x \<in> set (tl (flat f)) \<and> removed f (rm_key x) f')"

definition has_seen :: "network_op \<Rightarrow> shar_file \<Rightarrow> bool" where
  "has_seen m f \<longleftrightarrow>
     (case m of
        ADD a \<Rightarrow> {crdt_key (na_crdt a), parent_key (crdt_relation (na_crdt a))} \<subseteq> dom (characters f)
      | REMOVE x \<Rightarrow> rm_key x \<noteq> root \<and> (\<exists>r. characters f (rm_key x) = Some r \<and> cr_deleted r))"

lemma follows_seen:
  assumes m: "follows rel m f f'" and wf: "wf_file f"
  shows "has_seen m f'" "has_seen m1 f \<Longrightarrow> has_seen m1 f'"
proof -
  obtain ks where ks: "flat f = root # ks" "root \<notin> set ks" using wf_flat_root [OF wf] by blast
  show "has_seen m f'" using m live_keys_dom ks
    by (cases m) (auto simp: follows_def has_seen_def insertable_def inserted_def removed_def)
  show "has_seen m1 f'" if m1: "has_seen m1 f"
  proof -
    have "\<exists>k r. characters f' = (characters f)(k \<mapsto> r) \<and> (characters f k = None \<or> cr_deleted r)"
    proof (cases m)
      case (ADD a)
      then have "characters f' = (characters f)(crdt_key (na_crdt a) \<mapsto> crdt_relation (na_crdt a))"
        "characters f (crdt_key (na_crdt a)) = None"
        using m by (auto simp: follows_def inserted_def insertable_def)
      then show ?thesis by blast
    next
      case (REMOVE x)
      then obtain r where "characters f' = (characters f)(rm_key x \<mapsto> r\<lparr>cr_deleted := True\<rparr>)"
        using m by (auto simp: follows_def removed_def)
      then show ?thesis by (intro exI [of _ "rm_key x"] exI [of _ "r\<lparr>cr_deleted := True\<rparr>"]) simp
    qed
    then obtain k r where "characters f' = (characters f)(k \<mapsto> r)" "characters f k = None \<or> cr_deleted r" by blast
    then show ?thesis using m1 by (cases m1) (auto simp: has_seen_def)
  qed
qed

lemma shares_updated:
  assumes q: "shares rel q f" and q': "tree_inv (tree q')" "tree_root q' = tree_root q"
    "ids_counted q \<longrightarrow> ids_counted q'" "idle q \<longrightarrow> idle q'"
    "lookup_file (tree q') = (lookup_file (tree q))(tree_root q @ rel \<mapsto> f')"
  shows "shares rel q' f'"
  using assms by (simp add: shares_def)

text \<open>An edit of the user sends one message, which extends the document.\<close>

lemma edit_follows:
  assumes q: "shares rel q f" and e: "edit_fits e (text_of f)" and bound: "unat (counter q) + 1 < 2 ^ 32"
  shows "\<exists>q' m f'. ide_edit rel e q = Some (q', [m]) \<and> shares rel q' f' \<and> follows rel m f f' \<and>
    text_of f' = edit_text e (text_of f) \<and> unat (counter q') \<le> unat (counter q) + 1"
proof -
  have s: "tree_inv (tree q)" "ids_counted q" "idle q" "lookup_file (tree q) (tree_root q @ rel) = Some f"
    using q by (simp_all add: shares_def)
  note wf = tree_inv_file [OF s(1,4)]
  show ?thesis
  proof (cases e)
    case (Type_char i v tag hint)
    let ?par = "flat f ! i"
    define op where "op = IdeAdd_new (tree_root q @ rel) (Some (fst ?par)) (Some (snd ?par)) None v tag hint"
    have op: "ia_file_path op = tree_root q @ rel" "ia_parent_id op = Some (fst ?par)"
      "ia_parent_peer op = Some (snd ?par)" "ia_val op = v" by (simp_all add: op_def IdeAdd_new_def)
    have i: "i < length (flat f)" using e Type_char length_text [OF wf] by simp
    let ?c = "typed_crdt op ?par q"
    obtain q' f' p where q': "add_ide_operation op q = Some q'" "tree_inv (tree q')"
      "tree_root q' = tree_root q" "counter q' = counter q + 1" "ids_counted q'" "idle q \<longrightarrow> idle q'"
      "lookup_file (tree q') = (lookup_file (tree q))(tree_root q @ rel \<mapsto> f')" "inserted f ?c f' p"
      "text_of f' = take i (text_of f) @ v # drop i (text_of f)"
      "sent_since q q' = [ADD (NetworkAdd_new rel ?c (fst p))]"
      using add_ide_typed [OF s(1,2) bound idle_quiet [OF s(3)] s(4) op(1-3) i refl] op(4)
      by (elim exE conjE) (erule that; simp add: idle_def sent_since_def to_peers_def)
    note fresh = ids_counted_newest [OF s(2,4) word_succ_less [OF bound]]
    have "?par \<in> live_keys (characters f)" using i wf_fileD(4) [OF wf] by (metis nth_mem)
    moreover have "newest f ?c" by (rule fresh(2)) (simp add: typed_crdt_def)
    moreover have "\<exists>p. inserted f ?c f' p" using q'(8) by blast
    ultimately have "follows rel (ADD (NetworkAdd_new rel ?c (fst p))) f f'"
      using fresh(1) by (simp add: follows_def insertable_def typed_crdt_def)
    moreover have "ide_edit rel e q = Some (q', [ADD (NetworkAdd_new rel ?c (fst p))])"
      using s(4) i q'(1,10) Type_char by (simp add: ide_edit_def vec_get_def op_def)
    moreover have "unat (counter q') \<le> unat (counter q) + 1" using bound q'(4) by (simp add: unat_word_ariths)
    moreover have "shares rel q' f'" by (rule shares_updated [OF q]) (use q'(2-7) in simp_all)
    ultimately show ?thesis using q'(9) Type_char by auto
  next
    case (Delete_char i hint)
    let ?k = "flat f ! Suc i"
    define op where "op = Remove_new (tree_root q @ rel) (fst ?k) (snd ?k) hint"
    have op: "rm_file_path op = tree_root q @ rel" "?k = rm_key op" by (simp_all add: op_def)
    have i: "Suc i < length (flat f)" using e Delete_char length_text [OF wf] by simp
    have cb: "ide_remove_callback q" using s(3) by (simp add: idle_def calm_def)
    let ?m = "op\<lparr>rm_file_path := rel\<rparr>"
    obtain q' f' where q': "remove_ide_operation op q = Some q'" "tree_inv (tree q')"
      "tree_root q' = tree_root q" "counter q' = counter q" "ids_counted q'" "idle q \<longrightarrow> idle q'"
      "lookup_file (tree q') = (lookup_file (tree q))(tree_root q @ rel \<mapsto> f')" "removed f (rm_key op) f'"
      "text_of f' = take i (text_of f) @ drop (Suc i) (text_of f)" "sent_since q q' = [REMOVE ?m]"
      using remove_ide_done [OF s(1,2) cb s(4) op(1) i op(2)]
      by (elim exE conjE) (erule that; simp add: idle_def sent_since_def to_peers_def)
    have "rm_key op \<in> set (tl (flat f))" using i op(2) nth_tl [of i "flat f"] by (metis length_tl less_diff_conv nth_mem Suc_eq_plus1)
    then have "follows rel (REMOVE ?m) f f'" using q'(8) by (simp add: follows_def rm_key_def)
    moreover have "ide_edit rel e q = Some (q', [REMOVE ?m])"
      using s(4) i q'(1,10) Delete_char by (simp add: ide_edit_def vec_get_def op_def)
    moreover have "shares rel q' f'" by (rule shares_updated [OF q]) (use q'(2-7) in simp_all)
    ultimately show ?thesis using q'(4,9) Delete_char by auto
  qed
qed

text \<open>Such a message takes every copy of the document along.\<close>

lemma receive_follows:
  assumes r: "shares rel r g" and eq: "shar_file_eq f g" and m: "follows rel m f f'"
    and rel: "rel = [] \<or> hd rel \<notin> {''/'', ''.''}"
  shows "\<exists>r' g'. receive m r = Some r' \<and> shares rel r' g' \<and> shar_file_eq f' g' \<and>
    counter r' = (case m of ADD a \<Rightarrow> max (counter r) (crdt_id (na_crdt a)) | REMOVE x \<Rightarrow> counter r)"
proof -
  have s: "tree_inv (tree r)" "ids_counted r" "idle r" "is_absolute (tree_root r)"
    "lookup_file (tree r) (tree_root r @ rel) = Some g" using r by (simp_all add: shares_def)
  have cb: "network_add_callback r" "network_remove_callback r" "network_backlog r = []"
    using s(3) by (simp_all add: idle_def calm_def)
  note same = same_file [OF eq]
  show ?thesis
  proof (cases m)
    case (ADD a)
    let ?c = "na_crdt a"
    have a: "a = NetworkAdd_new rel ?c (na_row a)" using m ADD by (simp add: follows_def NetworkAdd_new_def)
    have c: "insertable g ?c" "newest g ?c" using m ADD same(1)
      by (simp_all add: follows_def insertable_def newest_def)
    obtain p where p: "inserted f ?c f' p" using m ADD by (auto simp: follows_def)
    have "parent_key (crdt_relation ?c) \<in> set (flat g)"
      using c(1) wf_fileD(4) [OF tree_inv_file [OF s(1,5)]] by (simp add: insertable_def)
    then obtain i where i: "i < length (flat g)" "flat g ! i = parent_key (crdt_relation ?c)"
      by (auto simp: in_set_conv_nth)
    have none: "map_of (network_backlog r) (crdt_key ?c) = None" using cb(3) by simp
    obtain r' g' p' where r': "add_network_operation a r = Some r'" "tree_inv (tree r')"
      "tree_root r' = tree_root r" "counter r' = max (counter r) (crdt_id ?c)"
      "ids_counted r \<longrightarrow> ids_counted r'" "idle r \<longrightarrow> idle r'"
      "lookup_file (tree r') = (lookup_file (tree r))(tree_root r @ rel \<mapsto> g')" "inserted g ?c g' p'"
      using add_network_typed [OF s(1) none cb(1) s(4) rel s(5) c i, of "na_row a", folded a] by blast
    have "shares rel r' g'" by (rule shares_updated [OF r]) (use r'(2-7) in simp_all)
    with r'(1,4) same_file_inserts [OF eq p r'(8)] ADD show ?thesis by (auto simp: receive_def)
  next
    case (REMOVE x)
    have x: "rm_file_path x = rel" "rm_key x \<in> set (tl (flat g))" "removed f (rm_key x) f'"
      using m REMOVE same(2) by (simp_all add: follows_def)
    obtain i where i: "Suc i < length (flat g)" "flat g ! Suc i = rm_key x"
      using x(2) by (auto simp: in_set_conv_nth nth_tl less_diff_conv)
    obtain r' g' where r': "remove_network_operation x r = Some r'" "tree_inv (tree r')"
      "tree_root r' = tree_root r" "counter r' = counter r" "ids_counted r \<longrightarrow> ids_counted r'"
      "idle r \<longrightarrow> idle r'" "lookup_file (tree r') = (lookup_file (tree r))(tree_root r @ rel \<mapsto> g')"
      "removed g (rm_key x) g'"
      using remove_network_done [OF s(1) cb(2) s(4) rel s(5) x(1) i] by blast
    have "shares rel r' g'" by (rule shares_updated [OF r]) (use r'(2-7) in simp_all)
    with r'(1,4) same_file_removes [OF eq x(3) r'(8)] REMOVE show ?thesis by (auto simp: receive_def)
  qed
qed

lemma follows_bound:
  assumes "shares rel q f" "follows rel (ADD a) f f'" "shares rel q' f'"
  shows "crdt_id (na_crdt a) \<le> counter q'"
proof -
  have "crdt_key (na_crdt a) \<in> dom (characters f')" using assms(2) by (auto simp: follows_def inserted_def)
  then have "(tree_root q' @ rel, crdt_key (na_crdt a)) \<in> nodes (tree q')"
    using assms(3) by (auto simp: nodes_def shares_def)
  then show ?thesis using assms(3) by (auto simp: shares_def ids_counted_def crdt_key_def)
qed

lemma edit_in_step:
  assumes s: "in_step rel t (q, r)" "rel = [] \<or> hd rel \<notin> {''/'', ''.''}" "edit_fits e t"
    and n: "top_id (q, r) < n" "n < 2 ^ 32"
  shows "\<exists>q' r'. edit_and_deliver rel e q r = Some (q', r') \<and> in_step rel (edit_text e t) (q', r') \<and>
    top_id (q', r') \<le> n"
proof -
  obtain f g where f: "shares rel q f" "shares rel r g" "shar_file_eq f g" "text_of f = t"
    using s(1) by (auto simp: in_step_def)
  have bound: "unat (counter q) + 1 \<le> n" "unat (counter r) \<le> n" using n by (auto simp: top_id_def)
  then have "unat (counter q) + 1 < 2 ^ 32" using n(2) by simp
  from edit_follows [OF f(1) s(3) [folded f(4)] this] obtain q' m f' where
    q': "ide_edit rel e q = Some (q', [m])" "shares rel q' f'" "follows rel m f f'"
      "text_of f' = edit_text e t" "unat (counter q') \<le> unat (counter q) + 1" using f(4) by blast
  from receive_follows [OF f(2,3) q'(3) s(2)] obtain r' g' where
    r': "receive m r = Some r'" "shares rel r' g'" "shar_file_eq f' g'"
      "counter r' = (case m of ADD a \<Rightarrow> max (counter r) (crdt_id (na_crdt a)) | REMOVE x \<Rightarrow> counter r)" by blast
  have "counter r' \<le> max (counter r) (counter q')"
    using r'(4) follows_bound [OF f(1) _ q'(2)] q'(3) by (cases m) (simp_all add: max.coboundedI2)
  then have "unat (counter r') \<le> max (unat (counter r)) (unat (counter q'))"
    by (auto simp: word_le_nat_alt max_def split: if_splits)
  then have "top_id (q', r') \<le> n" using bound q'(5) by (simp add: top_id_def)
  moreover have "edit_and_deliver rel e q r = Some (q', r')"
    using q'(1) r'(1) by (simp add: edit_and_deliver_def)
  ultimately show ?thesis using q'(2,4) r'(2,3) unfolding in_step_def by auto
qed

lemma turns_in_step:
  assumes rel: "rel = [] \<or> hd rel \<notin> {''/'', ''.''}"
  shows "in_step rel t qr \<Longrightarrow> edits_fit es t \<Longrightarrow> top_id qr + length es < 2 ^ 32 \<Longrightarrow>
    \<exists>qr'. take_turns rel es qr = Some qr' \<and> in_step rel (fold (\<lambda>x. edit_text (snd x)) es t) qr'"
proof (induction es arbitrary: qr t)
  case (Cons x es)
  obtain first e q r where x: "x = (first, e)" "qr = (q, r)" by (metis surj_pair)
  define n where "n = Suc (top_id qr)"
  have fit: "edit_fits e t" "edits_fit es (edit_text e t)" using Cons.prems(2) x by simp_all
  have n: "top_id (q, r) < n" "top_id (r, q) < n" "n < 2 ^ 32" "n + length es < 2 ^ 32"
    using Cons.prems(3) x by (auto simp: n_def top_id_def max_def split: if_splits)
  have "\<exists>q' r'. (if first then edit_and_deliver rel e q r
      else map_option (\<lambda>(r', q'). (q', r')) (edit_and_deliver rel e r q)) = Some (q', r') \<and>
    in_step rel (edit_text e t) (q', r') \<and> top_id (q', r') \<le> n"
  proof (cases first)
    case True
    then show ?thesis using edit_in_step [OF _ rel fit(1) n(1,3)] Cons.prems(1) x by simp
  next
    case False
    have "in_step rel t (r, q)" using Cons.prems(1) x in_step_swap by simp
    from edit_in_step [OF this rel fit(1) n(2,3)] obtain r' q' where
      "edit_and_deliver rel e r q = Some (r', q')" "in_step rel (edit_text e t) (r', q')"
      "top_id (r', q') \<le> n" by blast
    then show ?thesis using False in_step_swap by (auto simp: top_id_def max.commute)
  qed
  then obtain q' r' where step: "(if first then edit_and_deliver rel e q r
      else map_option (\<lambda>(r', q'). (q', r')) (edit_and_deliver rel e r q)) = Some (q', r')"
    "in_step rel (edit_text e t) (q', r')" "top_id (q', r') \<le> n" by blast
  have "top_id (q', r') + length es < 2 ^ 32" using step(3) n(4) by simp
  from Cons.IH [OF step(2) fit(2) this] step(1) x show ?case by simp
qed simp

end
