(* ===== verification/Hydration.thy ===== *)
theory Hydration
  imports QueueProperties
begin

text \<open>
  A peer that asks for the state of another one: what the answer lists, and that its replay brings
  every character and every tombstone over, in whatever order the maps are iterated.
\<close>

section \<open>What a state lists\<close>

lemma dir_full_state_files:
  "dir_full_state d = map (\<lambda>f. (file_path f, full_state f)) (all_files d)"
  "dirs_full_state ds = map (\<lambda>f. (file_path f, full_state f)) (dirs_files ds)"
  by (induction d and ds rule: all_files_dirs_files.induct) simp_all

lemma to_network_ops_iff:
  "m \<in> set (to_network_ops l) \<longleftrightarrow> (\<exists>p xs x. (p, xs) \<in> set l \<and> x \<in> set xs \<and> m \<in> set (char_ops p x))"
  by (force simp: to_network_ops_def)

lemma lists_state_in:
  assumes "lists_state l s"
  shows "(p, m) \<in> set s \<longleftrightarrow> (\<exists>xs. (p, xs) \<in> set l \<and> map_of xs = m)"
proof -
  have "list_all2 (\<lambda>(p, xs) (q, m). p = q \<and> distinct (map fst xs) \<and> map_of xs = m) l s"
    using assms by (simp add: lists_state_def)
  then show ?thesis by (induction rule: list_all2_induct) auto
qed

lemma lists_state_distinct:
  assumes "lists_state l s" "(p, xs) \<in> set l"
  shows "distinct (map fst xs)"
proof -
  have "list_all2 (\<lambda>(p, xs) (q, m). p = q \<and> distinct (map fst xs) \<and> map_of xs = m) l s"
    using assms(1) by (simp add: lists_state_def)
  then show ?thesis using assms(2) by (induction rule: list_all2_induct) auto
qed

text \<open>Every state can be listed: its maps are finite.\<close>

lemma map_listed:
  assumes "finite (dom m)"
  shows "\<exists>xs. distinct (map fst xs) \<and> map_of xs = m"
proof -
  obtain ks where ks: "set ks = dom m" "distinct ks" using finite_distinct_list [OF assms] by blast
  let ?xs = "map (\<lambda>k. (k, the (m k))) ks"
  have "map_of ?xs k = m k" for k using ks(1) by (auto simp: map_of_map_restrict restrict_map_def dom_def)
  then have "map_of ?xs = m" by (rule ext)
  moreover have "distinct (map fst ?xs)" using ks(2) by (simp add: comp_def)
  ultimately show ?thesis by blast
qed

lemma maps_listed: "\<forall>x \<in> set s. finite (dom (snd x)) \<Longrightarrow> \<exists>l. lists_state l s"
proof (induction s)
  case (Cons x s)
  obtain p m where x: "x = (p, m)" by fastforce
  from Cons obtain l where "lists_state l s" by auto
  moreover from Cons.prems x obtain xs where "distinct (map fst xs)" "map_of xs = m"
    using map_listed [of m] by auto
  ultimately show ?case unfolding x lists_state_def by (intro exI [of _ "(p, xs) # l"]) simp
qed (simp add: lists_state_def)

lemma state_listed:
  assumes "tree_inv (tree s)"
  shows "\<exists>l. lists_state l (queue_full_state s)"
proof (rule maps_listed, intro ballI)
  fix x assume "x \<in> set (queue_full_state s)"
  then obtain f where f: "f \<in> set (all_files (tree s))" "snd x = full_state f"
    by (auto simp: queue_full_state_def dir_full_state_files)
  have "finite (dom (characters f))" using assms f(1) by (auto simp: tree_inv_def wf_file_def wf_chars_def)
  then show "finite (dom (snd x))"
    unfolding f(2) by (rule finite_subset [rotated]) (auto simp: full_state_def split: if_splits)
qed

text \<open>The operations of a state are those of its characters, under relative paths.\<close>

lemma state_ops_iff:
  assumes "lists_state l (queue_full_state s)"
  shows "m \<in> set (to_network_ops l) \<longleftrightarrow>
    (\<exists>f k r. f \<in> set (all_files (tree s)) \<and> characters f k = Some r \<and> k \<noteq> root \<and>
       m \<in> set (char_ops (to_relative_path s (file_path f)) (k, r)))"
proof -
  have st: "set (queue_full_state s) =
      (\<lambda>f. (to_relative_path s (file_path f), full_state f)) ` set (all_files (tree s))"
    by (auto simp: queue_full_state_def dir_full_state_files image_image)
  have key: "(\<exists>xs. (p, xs) \<in> set l \<and> (k, r) \<in> set xs) \<longleftrightarrow>
      (\<exists>f. f \<in> set (all_files (tree s)) \<and> p = to_relative_path s (file_path f) \<and>
        characters f k = Some r \<and> k \<noteq> root)"
    for p k r
  proof -
    have "(\<exists>xs. (p, xs) \<in> set l \<and> (k, r) \<in> set xs) \<longleftrightarrow> (\<exists>xs. (p, xs) \<in> set l \<and> map_of xs k = Some r)"
      using lists_state_distinct [OF assms] map_of_eq_Some_iff by metis
    also have "\<dots> \<longleftrightarrow> (\<exists>m. (p, m) \<in> set (queue_full_state s) \<and> m k = Some r)"
      by (auto simp: lists_state_in [OF assms])
    also have "\<dots> \<longleftrightarrow> (\<exists>f. f \<in> set (all_files (tree s)) \<and> p = to_relative_path s (file_path f) \<and>
        characters f k = Some r \<and> k \<noteq> root)"
      unfolding st by (auto simp: full_state_def split: if_splits)
    finally show ?thesis .
  qed
  show ?thesis
  proof
    assume "m \<in> set (to_network_ops l)"
    then obtain p xs k r where "(p, xs) \<in> set l" "(k, r) \<in> set xs" "m \<in> set (char_ops p (k, r))"
      unfolding to_network_ops_iff by (metis surj_pair)
    with key [of p k r, THEN iffD1] show "\<exists>f k r. f \<in> set (all_files (tree s)) \<and>
        characters f k = Some r \<and> k \<noteq> root \<and> m \<in> set (char_ops (to_relative_path s (file_path f)) (k, r))"
      by blast
  next
    assume "\<exists>f k r. f \<in> set (all_files (tree s)) \<and> characters f k = Some r \<and> k \<noteq> root \<and>
        m \<in> set (char_ops (to_relative_path s (file_path f)) (k, r))"
    then obtain f k r where "f \<in> set (all_files (tree s))" "characters f k = Some r" "k \<noteq> root"
      "m \<in> set (char_ops (to_relative_path s (file_path f)) (k, r))" by blast
    with key [of "to_relative_path s (file_path f)" k r, THEN iffD2] show "m \<in> set (to_network_ops l)"
      unfolding to_network_ops_iff by blast
  qed
qed

section \<open>Catching up\<close>

text \<open>
  The sender's files are files of the receiver, at the same place below its root. What the sender
  holds, at this place; and that each of its characters is accepted where it hangs, even beside all
  that both hold.
\<close>

definition same_files :: "shar_queue \<Rightarrow> shar_directory \<Rightarrow> bool" where
  "same_files s d \<longleftrightarrow> is_absolute (dir_name d) \<and>
     (\<forall>f \<in> set (all_files (tree s)). \<exists>rel. file_path f = tree_root s @ rel \<and>
        rel \<noteq> [] \<and> hd rel \<notin> {''/'', ''.''} \<and> lookup_file d (dir_name d @ rel) \<noteq> None)"

definition moved_links :: "shar_queue \<Rightarrow> path \<Rightarrow> link set" where
  "moved_links s b = {((b @ rel, k), u) | rel k u. ((tree_root s @ rel, k), u) \<in> links (tree s)}"

definition moved_tombs :: "shar_queue \<Rightarrow> path \<Rightarrow> (path \<times> key) set" where
  "moved_tombs s b = {(b @ rel, k) | rel k. (tree_root s @ rel, k) \<in> tombs (tree s)}"

definition placeable :: "shar_queue \<Rightarrow> shar_directory \<Rightarrow> bool" where
  "placeable s d \<longleftrightarrow>
     (\<forall>rel f k r. lookup_file (tree s) (tree_root s @ rel) = Some f \<and> characters f k = Some r \<and>
        k \<noteq> root \<longrightarrow>
        accepts (links d \<union> moved_links s (dir_name d)) (tombs d \<union> moved_tombs s (dir_name d))
          (dir_name d @ rel) r)"

lemma same_files_path:
  assumes "tree_inv (tree s)" "same_files s d" "lookup_file (tree s) (tree_root s @ rel) = Some f"
  shows "join (dir_name d) rel = dir_name d @ rel" "lookup_file d (dir_name d @ rel) \<noteq> None"
proof -
  have "f \<in> set (all_files (tree s))" "file_path f = tree_root s @ rel"
    using assms(1,3) by (simp_all add: tree_inv_def lookup_file_iff)
  then have rel: "hd rel \<notin> {''/'', ''.''}" "is_absolute (dir_name d)"
    "lookup_file d (dir_name d @ rel) \<noteq> None" using assms(2) by (auto simp: same_files_def)
  show "join (dir_name d) rel = dir_name d @ rel" using join_under_root rel(1,2) by blast
  show "lookup_file d (dir_name d @ rel) \<noteq> None" by (rule rel(3))
qed

lemma state_op_cases:
  assumes s: "tree_inv (tree s)" "same_files s d" "lists_state l (queue_full_state s)"
    and m: "m \<in> set (to_network_ops l)"
  obtains f rel k r where "lookup_file (tree s) (tree_root s @ rel) = Some f"
    "join (dir_name d) rel = dir_name d @ rel" "characters f k = Some r" "k \<noteq> root"
    "m = ADD (NetworkAdd_new rel (CRDT_new (fst k) (snd k) (r\<lparr>cr_deleted := False\<rparr>)) 0) \<or>
     cr_deleted r \<and> m = REMOVE (Remove_new rel (fst k) (snd k) 0)"
proof -
  obtain f k r where f: "f \<in> set (all_files (tree s))" "characters f k = Some r" "k \<noteq> root"
    "m \<in> set (char_ops (to_relative_path s (file_path f)) (k, r))"
    using m state_ops_iff [OF s(3)] by blast
  obtain rel where rel: "file_path f = tree_root s @ rel" using s(2) f(1) by (auto simp: same_files_def)
  have look: "lookup_file (tree s) (tree_root s @ rel) = Some f"
    using s(1) f(1) rel by (simp add: tree_inv_def lookup_file_iff)
  have "m = ADD (NetworkAdd_new rel (CRDT_new (fst k) (snd k) (r\<lparr>cr_deleted := False\<rparr>)) 0) \<or>
     cr_deleted r \<and> m = REMOVE (Remove_new rel (fst k) (snd k) 0)"
    using f(4) rel by (auto simp: char_ops_def split: if_splits)
  with that [OF look same_files_path(1) [OF s(1,2) look] f(2,3)] show ?thesis .
qed

lemma state_op_in:
  assumes s: "tree_inv (tree s)" "lists_state l (queue_full_state s)"
    and f: "lookup_file (tree s) (tree_root s @ rel) = Some f" "characters f k = Some r" "k \<noteq> root"
  shows "ADD (NetworkAdd_new rel (CRDT_new (fst k) (snd k) (r\<lparr>cr_deleted := False\<rparr>)) 0) \<in> set (to_network_ops l)"
    "cr_deleted r \<Longrightarrow> REMOVE (Remove_new rel (fst k) (snd k) 0) \<in> set (to_network_ops l)"
proof -
  have "f \<in> set (all_files (tree s))" "to_relative_path s (file_path f) = rel"
    using s(1) f(1) by (simp_all add: tree_inv_def lookup_file_iff)
  note here = this
  have "m \<in> set (to_network_ops l)" if "m \<in> set (char_ops rel (k, r))" for m
    unfolding state_ops_iff [OF s(2)]
    by (intro exI [of _ f] exI [of _ k] exI [of _ r]) (use f(2,3) that here in simp)
  then show "ADD (NetworkAdd_new rel (CRDT_new (fst k) (snd k) (r\<lparr>cr_deleted := False\<rparr>)) 0) \<in> set (to_network_ops l)"
    "cr_deleted r \<Longrightarrow> REMOVE (Remove_new rel (fst k) (snd k) 0) \<in> set (to_network_ops l)"
    by (simp_all add: char_ops_def)
qed

text \<open>The messages of a state say what the sender's characters are, and remove what it removed.\<close>

lemma state_moved:
  assumes s: "tree_inv (tree s)" "same_files s d" "lists_state l (queue_full_state s)"
  shows "links_of (dir_name d) (set (to_network_ops l)) \<subseteq> moved_links s (dir_name d)"
    "removal_targets (dir_name d) (set (to_network_ops l)) \<subseteq> moved_tombs s (dir_name d)"
proof -
  show "links_of (dir_name d) (set (to_network_ops l)) \<subseteq> moved_links s (dir_name d)"
  proof
    fix x assume "x \<in> links_of (dir_name d) (set (to_network_ops l))"
    then obtain a where m: "ADD a \<in> set (to_network_ops l)"
      "x = ((join (dir_name d) (na_file_path a), crdt_key (na_crdt a)),
        cr_value (crdt_relation (na_crdt a)), parent_key (crdt_relation (na_crdt a)))"
      unfolding links_of_def by blast
    obtain f rel k r where a: "lookup_file (tree s) (tree_root s @ rel) = Some f"
      "join (dir_name d) rel = dir_name d @ rel" "characters f k = Some r"
      "a = NetworkAdd_new rel (CRDT_new (fst k) (snd k) (r\<lparr>cr_deleted := False\<rparr>)) 0"
      by (rule state_op_cases [OF s m(1)]) (rule that; simp)
    then have "x = ((dir_name d @ rel, k), cr_value r, parent_key r)" using m(2) by simp
    moreover have "((tree_root s @ rel, k), cr_value r, parent_key r) \<in> links (tree s)"
      using a(1,3) by (auto simp: links_iff)
    ultimately show "x \<in> moved_links s (dir_name d)" unfolding moved_links_def by blast
  qed
  show "removal_targets (dir_name d) (set (to_network_ops l)) \<subseteq> moved_tombs s (dir_name d)"
  proof
    fix x assume "x \<in> removal_targets (dir_name d) (set (to_network_ops l))"
    then obtain r where m: "REMOVE r \<in> set (to_network_ops l)" "x = op_dep (dir_name d) (REMOVE r)"
      unfolding removal_targets_def by blast
    obtain f rel k y where g: "lookup_file (tree s) (tree_root s @ rel) = Some f"
      "join (dir_name d) rel = dir_name d @ rel" "characters f k = Some y" "cr_deleted y"
      "r = Remove_new rel (fst k) (snd k) 0"
      by (rule state_op_cases [OF s m(1)], erule disjE, simp, erule conjE, rule that, assumption+)
        (simp only: network_op.inject)
    then have "x = (dir_name d @ rel, k)" using m(2) by (simp add: op_dep_def)
    moreover have "(tree_root s @ rel, k) \<in> tombs (tree s)" using g(1,3,4) by (auto simp: tombs_def)
    ultimately show "x \<in> moved_tombs s (dir_name d)" unfolding moved_tombs_def by blast
  qed
qed

lemma state_orderly:
  assumes s: "tree_inv (tree s)" "same_files s d" "lists_state l (queue_full_state s)" "placeable s d"
  shows "orderly_run (dir_name d) (links d) (tombs d) (to_network_ops l)"
  unfolding orderly_run_def
proof (intro conjI ballI allI impI)
  show "is_absolute (dir_name d)" using s(2) by (simp add: same_files_def)
  show "in_shar (dir_name d) m" if m: "m \<in> set (to_network_ops l)" for m
    by (rule state_op_cases [OF s(1-3) m]) (auto simp: in_shar_def)
  fix a assume m: "ADD a \<in> set (to_network_ops l)"
  obtain f rel k r where a: "lookup_file (tree s) (tree_root s @ rel) = Some f"
    "join (dir_name d) rel = dir_name d @ rel" "characters f k = Some r" "k \<noteq> root"
    "a = NetworkAdd_new rel (CRDT_new (fst k) (snd k) (r\<lparr>cr_deleted := False\<rparr>)) 0"
    by (rule state_op_cases [OF s(1-3) m]) (rule that; simp)
  show "\<not> cr_deleted (crdt_relation (na_crdt a))" using a(5) by simp
  have "accepts (links d \<union> moved_links s (dir_name d)) (tombs d \<union> moved_tombs s (dir_name d))
      (dir_name d @ rel) r" using s(4) a(1,3,4) unfolding placeable_def by blast
  then have "accepts (links d \<union> moved_links s (dir_name d)) (tombs d \<union> moved_tombs s (dir_name d))
      (join (dir_name d) (na_file_path a)) (crdt_relation (na_crdt a))" using a(2,5) by simp
  then show "accepts (links d \<union> links_of (dir_name d) (set (to_network_ops l)))
      (tombs d \<union> removal_targets (dir_name d) (set (to_network_ops l)))
      (join (dir_name d) (na_file_path a)) (crdt_relation (na_crdt a))"
    by (rule accepts_mono) (use state_moved [OF s(1-3)] in auto)
qed

lemma state_reachable:
  assumes s: "tree_inv (tree s)" "same_files s d" "lists_state l (queue_full_state s)" "tree_inv d"
    and f: "lookup_file (tree s) (tree_root s @ rel) = Some f" "anchored (characters f) k"
  shows "(dir_name d @ rel, k) \<in> reachable (dir_name d) (nodes d) (universe (dir_name d) (to_network_ops l))"
  using f(2)
proof induction
  have "lookup_file d (dir_name d @ rel) \<noteq> None" by (rule same_files_path(2) [OF s(1,2) f(1)])
  then obtain g where g: "lookup_file d (dir_name d @ rel) = Some g" by auto
  have "characters g root \<noteq> None"
    using wf_chars_root [OF wf_fileD(1) [OF tree_inv_file [OF s(4) g]]] by simp
  then have "(dir_name d @ rel, root) \<in> nodes d" using g by (auto simp: nodes_def)
  then have base: "(dir_name d @ rel, root) \<in>
      reachable (dir_name d) (nodes d) (universe (dir_name d) (to_network_ops l))" by (rule reach_old)
  {
    case (anchored_root r)
    show ?case by (rule base)
  next
    case (anchored_step k r)
    show ?case
    proof (cases "k = root")
      case False
      let ?a = "NetworkAdd_new rel (CRDT_new (fst k) (snd k) (r\<lparr>cr_deleted := False\<rparr>)) 0"
      have m: "ADD ?a \<in> set (to_network_ops l)" by (rule state_op_in [OF s(1,3) f(1) anchored_step(1) False])
      have j: "join (dir_name d) rel = dir_name d @ rel" by (rule same_files_path(1) [OF s(1,2) f(1)])
      have "(join (dir_name d) (na_file_path ?a), crdt_key (na_crdt ?a)) \<in>
          reachable (dir_name d) (nodes d) (universe (dir_name d) (to_network_ops l))"
        by (rule reach_new) (use m j anchored_step.IH False in \<open>simp_all add: universe_def op_dep_def\<close>)
      then show ?thesis using j by simp
    qed (use base in simp)
  }
qed

text \<open>The whole replay.\<close>

lemma state_replayed:
  assumes s: "tree_inv (tree s)" "same_files s d" "lists_state l (queue_full_state s)" "placeable s d"
    and d: "tree_inv d" "\<And>x. x \<in> nodes d \<Longrightarrow> fst (snd x) \<le> c"
  obtains q where "replay (to_network_ops l) (queue_of d c p) = Some q" "tree_inv (tree q)"
    "pending_ops q = {}" "nodes d \<subseteq> nodes (tree q)" "tombs d \<subseteq> tombs (tree q)"
    "\<And>rel k. (tree_root s @ rel, k) \<in> nodes (tree s) \<Longrightarrow> (dir_name d @ rel, k) \<in> nodes (tree q)"
    "\<And>rel k. (tree_root s @ rel, k) \<in> tombs (tree s) \<Longrightarrow> (dir_name d @ rel, k) \<in> tombs (tree q)"
    "\<And>rel k u. ((tree_root s @ rel, k), u) \<in> links (tree s) \<Longrightarrow> (dir_name d @ rel, k) \<notin> nodes d \<Longrightarrow>
       ((dir_name d @ rel, k), u) \<in> links (tree q)"
proof -
  let ?b = "dir_name d" and ?ms = "to_network_ops l"
  have run: "orderly_run ?b (links d) (tombs d) ?ms" by (rule state_orderly [OF s])
  then have b: "is_absolute ?b" "\<forall>op \<in> set ?ms. in_shar ?b op" by (auto simp: orderly_run_def)
  obtain q where q: "receive_all ?ms (queue_of d c p) = Some q"
    "served ?b (links d) (nodes d) (tombs d) (universe ?b ?ms) (set ?ms) q" "network_worklist q = []"
    using run_served [OF run d] by blast
  have inv: "queue_inv ?b (links d) (nodes d) (tombs d) (universe ?b ?ms) q" using q(2) by (simp add: served_def)
  have nodes: "(?b @ rel, k) \<in> nodes (tree q)" if k: "(tree_root s @ rel, k) \<in> nodes (tree s)" for rel k
  proof -
    obtain f where f: "lookup_file (tree s) (tree_root s @ rel) = Some f" "k \<in> dom (characters f)"
      using k by (auto simp: nodes_def)
    then have "anchored (characters f) k"
      using wf_fileD(1) [OF tree_inv_file [OF s(1) f(1)]] unfolding wf_chars_def by blast
    from state_reachable [OF s(1-3) d(1) f(1) this] show ?thesis using run_nodes [OF run q(2,3)] by simp
  qed
  have tombs: "(?b @ rel, k) \<in> tombs (tree q)" if k: "(tree_root s @ rel, k) \<in> tombs (tree s)" for rel k
  proof -
    obtain f r where f: "lookup_file (tree s) (tree_root s @ rel) = Some f" "characters f k = Some r"
      "cr_deleted r" using k by (auto simp: tombs_def)
    have root: "k \<noteq> root" using tombs_not_root [OF s(1) k] by simp
    have j: "join ?b rel = ?b @ rel" by (rule same_files_path(1) [OF s(1,2) f(1)])
    have "(?b @ rel, k) \<in> removal_targets ?b (set ?ms)"
      using state_op_in(2) [OF s(1,3) f(1,2) root f(3)] j root
      by (force simp: removal_targets_def op_dep_def)
    moreover have "(?b @ rel, k) \<in> nodes (tree q)" using nodes [of rel k] k tombs_nodes by blast
    ultimately show ?thesis using run_tombs [OF run q(2,3)] by simp
  qed
  have links: "((?b @ rel, k), u) \<in> links (tree q)"
    if k: "((tree_root s @ rel, k), u) \<in> links (tree s)" "(?b @ rel, k) \<notin> nodes d" for rel k u
  proof -
    obtain w where w: "((?b @ rel, k), w) \<in> links (tree q)"
      using nodes [OF links_node [OF k(1)]] node_links by blast
    then have "((?b @ rel, k), w) \<in> links d \<union> links_of ?b (set ?ms)"
      using inv unfolding queue_inv_def universe_same [OF b] by blast
    then have "((?b @ rel, k), w) \<in> moved_links s ?b"
      using k(2) links_node state_moved(1) [OF s(1-3)] by blast
    then have "((tree_root s @ rel, k), w) \<in> links (tree s)" by (auto simp: moved_links_def)
    then show ?thesis using links_single [OF k(1)] w by blast
  qed
  have dep: "op_dep ?b m \<in> nodes (tree q)" if m: "m \<in> set ?ms" for m
  proof -
    obtain f rel k r where f: "lookup_file (tree s) (tree_root s @ rel) = Some f" "join ?b rel = ?b @ rel"
      "characters f k = Some r" "k \<noteq> root"
      "m = ADD (NetworkAdd_new rel (CRDT_new (fst k) (snd k) (r\<lparr>cr_deleted := False\<rparr>)) 0) \<or>
       cr_deleted r \<and> m = REMOVE (Remove_new rel (fst k) (snd k) 0)"
      using m by (rule state_op_cases [OF s(1-3)])
    have "(tree_root s @ rel, k) \<in> nodes (tree s)" using f(1,3) by (auto simp: nodes_def)
    moreover have "(tree_root s @ rel, parent_key r) \<in> nodes (tree s)"
      using wf_parent [OF wf_fileD(1) [OF tree_inv_file [OF s(1) f(1)]] f(3)] f(1) unfolding nodes_def by blast
    ultimately have "(?b @ rel, k) \<in> nodes (tree q)" "(?b @ rel, parent_key r) \<in> nodes (tree q)"
      using nodes by blast+
    then show ?thesis using f(2,5) by (auto simp: op_dep_def)
  qed
  have "op_dep ?b m \<in> nodes (tree q)" if m: "m \<in> universe ?b ?ms" for m
    using m by (rule universe_cases) (use b dep in \<open>auto simp: localised_simps\<close>)
  then have "pending_ops q = {}"
    using pending_waits [OF q(3)] inv unfolding queue_inv_def by blast
  moreover have "tree_inv (tree q)" "nodes d \<subseteq> nodes (tree q)" "tombs d \<subseteq> tombs (tree q)"
    using inv by (simp_all add: queue_inv_def)
  ultimately show ?thesis using that q(1) nodes tombs links by (simp add: replay_receive_all)
qed

end
