(* ===== verification/Network.thy ===== *)
theory Network
  imports LocalEdit Propagation Hydration
begin

text \<open>
  Any number of replicas on a network that delivers what it likes: users type and delete at all of
  them at any time, and every message that was broadcast may reach every replica at any time, in any
  order, any number of times, or not yet; and any replica may answer with its whole state, whose
  messages arrive just as freely. What holds in every state that such a network can reach.
\<close>

section \<open>The network\<close>

record network =
  replicas :: "nat \<Rightarrow> shar_queue"
  broadcasts :: "network_op list"
  answered :: "network_op list"
  received :: "nat \<Rightarrow> network_op set"

text \<open>
  An edit sends what it reported to peers; a replica counts what it sent as received.
\<close>

definition edited :: "nat \<Rightarrow> shar_queue \<Rightarrow> network \<Rightarrow> network" where
  "edited i q' s =
     (let ms = sent_since (replicas s i) q' in
      s\<lparr>replicas := (replicas s)(i := q'), broadcasts := broadcasts s @ ms,
        received := (received s)(i := received s i \<union> set ms)\<rparr>)"

definition delivered :: "nat \<Rightarrow> network_op \<Rightarrow> shar_queue \<Rightarrow> network \<Rightarrow> network" where
  "delivered i m q' s =
     s\<lparr>replicas := (replicas s)(i := q'), received := (received s)(i := insert m (received s i))\<rparr>"

text \<open>
  One step of one replica below \<open>n\<close>: its IDE types behind the \<open>j\<close>-th element that a file shows, with
  ids left; or deletes the element behind it; or it answers a request for its state; or a message of
  the log or of an answer arrives.
\<close>

inductive network_step :: "nat \<Rightarrow> network \<Rightarrow> network \<Rightarrow> bool" for n where
  types_char: "i < n \<Longrightarrow> unat (counter (replicas s i)) + 1 < 2 ^ 32 \<Longrightarrow>
    lookup_file (tree (replicas s i)) (tree_root (replicas s i) @ rel) = Some f \<Longrightarrow> j < length (flat f) \<Longrightarrow>
    add_ide_operation (IdeAdd_new (tree_root (replicas s i) @ rel) (Some (fst (flat f ! j)))
      (Some (snd (flat f ! j))) pt v tag hint) (replicas s i) = Some q' \<Longrightarrow>
    network_step n s (edited i q' s)"
| deletes_char: "i < n \<Longrightarrow>
    lookup_file (tree (replicas s i)) (tree_root (replicas s i) @ rel) = Some f \<Longrightarrow> Suc j < length (flat f) \<Longrightarrow>
    remove_ide_operation (Remove_new (tree_root (replicas s i) @ rel) (fst (flat f ! Suc j))
      (snd (flat f ! Suc j)) hint) (replicas s i) = Some q' \<Longrightarrow>
    network_step n s (edited i q' s)"
| answers_state: "i < n \<Longrightarrow> lists_state l (queue_full_state (replicas s i)) \<Longrightarrow>
    network_step n s (s\<lparr>answered := answered s @ to_network_ops l\<rparr>)"
| receives: "i < n \<Longrightarrow> m \<in> set (broadcasts s) \<union> set (answered s) \<Longrightarrow> receive m (replicas s i) = Some q' \<Longrightarrow>
    network_step n s (delivered i m q' s)"

inductive network_run :: "nat \<Rightarrow> network \<Rightarrow> network \<Rightarrow> bool" for n where
  no_steps: "network_run n s s"
| more_steps: "network_run n s s1 \<Longrightarrow> network_step n s1 s2 \<Longrightarrow> network_run n s s2"

text \<open>
  The start: every replica has opened the same content at a place of its own, with the same counter
  and a peer id of its own.
\<close>

definition opened :: "(nat \<Rightarrow> shar_directory) \<Rightarrow> u32 \<Rightarrow> (nat \<Rightarrow> u32) \<Rightarrow> network" where
  "opened ds c ps =
     \<lparr>replicas = (\<lambda>i. queue_of (ds i) c (ps i)), broadcasts = [], answered = [], received = (\<lambda>i. {})\<rparr>"

definition alike :: "nat \<Rightarrow> (nat \<Rightarrow> shar_directory) \<Rightarrow> u32 \<Rightarrow> (nat \<Rightarrow> u32) \<Rightarrow> bool" where
  "alike n ds c ps \<longleftrightarrow> inj_on ps {..<n} \<and>
     (\<forall>i < n. tree_inv (ds i) \<and> is_absolute (dir_name (ds i)) \<and> same_content (ds i) (ds 0) \<and>
        (\<forall>x \<in> rel_nodes (ds i). plain_path (fst x) \<and> fst (snd x) \<le> c))"

section \<open>The invariant\<close>

text \<open>The identities that the messages of a log insert.\<close>

fun added_key :: "network_op \<Rightarrow> key list" where
  "added_key (ADD a) = [crdt_key (na_crdt a)]"
| "added_key (REMOVE r) = []"

definition added_keys :: "network_op list \<Rightarrow> key list" where
  "added_keys ms = concat (map added_key ms)"

text \<open>One replica: it serves the messages it has received among all there are.\<close>

definition replica_ok :: "shar_directory \<Rightarrow> u32 \<Rightarrow> u32 \<Rightarrow> network_op list \<Rightarrow> network_op set \<Rightarrow> shar_queue \<Rightarrow> bool" where
  "replica_ok d c p ms M q \<longleftrightarrow>
     served (dir_name d) (links d) (nodes d) (tombs d) (universe (dir_name d) ms) M q \<and>
     network_worklist q = [] \<and> calm q \<and> peer q = p \<and> c \<le> counter q \<and> M \<subseteq> set ms \<and>
     (\<forall>k \<in> set (added_keys ms). snd k = p \<longrightarrow> fst k \<le> counter q)"

text \<open>
  What is under way: paths are below the root, no insertion is of a removed character, identities are
  new, and every message depends on what is there or under way. The log gives every identity once.
\<close>

definition traffic_ok :: "(path \<times> key) set \<Rightarrow> network_op list \<Rightarrow> bool" where
  "traffic_ok N ms \<longleftrightarrow> plain_log ms \<and> set (added_keys ms) \<inter> insert root (snd ` N) = {} \<and>
     (\<forall>m \<in> set ms. op_dep [] m \<in> reachable [] N (set ms))"

definition log_ok :: "(path \<times> key) set \<Rightarrow> network_op list \<Rightarrow> bool" where
  "log_ok N ms \<longleftrightarrow> traffic_ok N ms \<and> distinct (added_keys ms)"

text \<open>A message that can join them.\<close>

definition extends :: "(path \<times> key) set \<Rightarrow> network_op list \<Rightarrow> network_op \<Rightarrow> bool" where
  "extends N ms m \<longleftrightarrow> plain_path (op_file m) \<and> op_dep [] m \<in> reachable [] N (set ms) \<and>
     (\<forall>a. m = ADD a \<longrightarrow> \<not> cr_deleted (crdt_relation (na_crdt a)) \<and>
        crdt_key (na_crdt a) \<notin> insert root (snd ` N \<union> set (added_keys ms)))"

text \<open>A message of an answer says what the opening or the log says.\<close>

definition echoes :: "link set \<Rightarrow> (path \<times> key) set \<Rightarrow> network_op list \<Rightarrow> network_op \<Rightarrow> bool" where
  "echoes L T bs m \<longleftrightarrow> plain_path (op_file m) \<and>
     (case m of
        ADD a \<Rightarrow> \<not> cr_deleted (crdt_relation (na_crdt a)) \<and> crdt_key (na_crdt a) \<noteq> root \<and>
          ((na_file_path a, crdt_key (na_crdt a)), cr_value (crdt_relation (na_crdt a)),
            parent_key (crdt_relation (na_crdt a))) \<in> L \<union> links_of [] (set bs)
      | REMOVE r \<Rightarrow> rm_key r \<noteq> root \<and> (rm_file_path r, rm_key r) \<in> T \<union> removal_targets [] (set bs))"

text \<open>
  Messages that are not about inserting a character of the opening: those have nothing to do. The
  traffic is the log and what answers have beside those.
\<close>

definition fresh_op :: "(path \<times> key) set \<Rightarrow> network_op \<Rightarrow> bool" where
  "fresh_op N m \<longleftrightarrow> (\<forall>a. m = ADD a \<longrightarrow> (na_file_path a, crdt_key (na_crdt a)) \<notin> N)"

definition traffic :: "(path \<times> key) set \<Rightarrow> network \<Rightarrow> network_op list" where
  "traffic N s = broadcasts s @ filter (fresh_op N) (answered s)"

definition heard :: "(path \<times> key) set \<Rightarrow> nat \<Rightarrow> network \<Rightarrow> network_op set" where
  "heard N i s = {m \<in> received s i. fresh_op N m}"

definition network_ok :: "nat \<Rightarrow> (nat \<Rightarrow> shar_directory) \<Rightarrow> u32 \<Rightarrow> (nat \<Rightarrow> u32) \<Rightarrow> network \<Rightarrow> bool" where
  "network_ok n ds c ps s \<longleftrightarrow> log_ok (rel_nodes (ds 0)) (broadcasts s) \<and>
     (\<forall>m \<in> set (answered s). echoes (rel_links (ds 0)) (rel_tombs (ds 0)) (broadcasts s) m) \<and>
     (\<forall>i < n. replica_ok (ds i) c (ps i) (traffic (rel_nodes (ds 0)) s) (heard (rel_nodes (ds 0)) i s)
        (replicas s i))"

lemma network_okD:
  assumes "network_ok n ds c ps s"
  shows "log_ok (rel_nodes (ds 0)) (broadcasts s)"
    "m \<in> set (answered s) \<Longrightarrow> echoes (rel_links (ds 0)) (rel_tombs (ds 0)) (broadcasts s) m"
    "i < n \<Longrightarrow> replica_ok (ds i) c (ps i) (traffic (rel_nodes (ds 0)) s) (heard (rel_nodes (ds 0)) i s)
      (replicas s i)"
  using assms by (simp_all add: network_ok_def)

lemma added_keys_append [simp]:
  "added_keys [] = []" "added_keys (ms @ ns) = added_keys ms @ added_keys ns"
  "added_keys (m # ms) = added_key m @ added_keys ms"
  by (simp_all add: added_keys_def)

lemma added_keys_in: "k \<in> set (added_keys ms) \<longleftrightarrow> (\<exists>a. ADD a \<in> set ms \<and> k = crdt_key (na_crdt a))"
proof -
  have "k \<in> set (added_keys ms) \<longleftrightarrow> (\<exists>m \<in> set ms. k \<in> set (added_key m))" by (simp add: added_keys_def)
  also have "\<dots> \<longleftrightarrow> (\<exists>a. ADD a \<in> set ms \<and> k = crdt_key (na_crdt a))"
    by (metis added_key.simps empty_iff empty_set list.set_intros(1) network_op.exhaust set_ConsD)
  finally show ?thesis .
qed

lemma reachable_key: "x \<in> reachable b N S \<Longrightarrow>
    snd x \<in> snd ` N \<or> (\<exists>a. ADD a \<in> S \<and> snd x = crdt_key (na_crdt a))"
proof (induction rule: reachable.induct)
  case (reach_new a)
  then show ?case unfolding snd_conv by blast
qed (intro disjI1 imageI)

lemma reachable_path: "x \<in> reachable b N S \<Longrightarrow> fst x \<in> fst ` N"
  by (induction rule: reachable.induct) (auto simp: op_dep_def)

text \<open>Every identity that a message of the log mentions is old or one that the log inserts.\<close>

lemma reachable_identity: "x \<in> reachable [] N (set ms) \<Longrightarrow> snd x \<in> snd ` N \<union> set (added_keys ms)"
  using reachable_key [of x "[]" N "set ms"] unfolding added_keys_in Un_iff by blast

lemma traffic_waits_for:
  assumes "traffic_ok N ms" "m \<in> set ms"
  shows "waits_for m \<in> snd ` N \<union> set (added_keys ms)"
proof -
  have "op_dep [] m \<in> reachable [] N (set ms)" using assms by (simp add: traffic_ok_def)
  from reachable_identity [OF this] show ?thesis unfolding op_dep_empty snd_conv .
qed

lemma universe_waits_for: "x \<in> universe b ms \<Longrightarrow> \<exists>y \<in> set ms. waits_for x = waits_for y"
  by (erule universe_cases) auto

section \<open>One replica\<close>

text \<open>A directory with the relative content \<open>N\<close>, ids up to \<open>c\<close>, at an absolute place.\<close>

definition placed :: "(path \<times> key) set \<Rightarrow> u32 \<Rightarrow> shar_directory \<Rightarrow> bool" where
  "placed N c d \<longleftrightarrow> tree_inv d \<and> is_absolute (dir_name d) \<and> rel_nodes d = N \<and>
     (\<forall>x \<in> N. plain_path (fst x) \<and> fst (snd x) \<le> c)"

lemma alike_placed: "alike n ds c ps \<Longrightarrow> i < n \<Longrightarrow> placed (rel_nodes (ds 0)) c (ds i)"
  unfolding alike_def placed_def same_content_def by metis

lemma placed_nodes: "placed N c d \<Longrightarrow> nodes d = shift (dir_name d) ` N"
  unfolding placed_def using shifted_nodes by blast

lemma replica_facts:
  assumes r: "replica_ok d c p ms M q" and d: "placed N c d" and ms: "traffic_ok N ms"
  shows "tree_inv (tree q)" "ids_counted q" "tree_root q = dir_name d"
    "nodes (tree q) \<subseteq> shift (dir_name d) ` reachable [] N (set ms)"
proof -
  have inv: "queue_inv (dir_name d) (links d) (nodes d) (tombs d) (universe (dir_name d) ms) q"
    using r by (simp add: replica_ok_def served_def)
  then show "tree_inv (tree q)" "ids_counted q" "tree_root q = dir_name d" by (simp_all add: queue_inv_def)
  have plain: "\<forall>m \<in> set ms. plain_path (op_file m)" using ms by (simp add: traffic_ok_def plain_log_def)
  have "is_absolute (dir_name d)" using d by (simp add: placed_def)
  from reachable_shift [OF this plain, of N] inv
  show "nodes (tree q) \<subseteq> shift (dir_name d) ` reachable [] N (set ms)"
    by (simp add: queue_inv_def placed_nodes [OF d])
qed

lemma shown_reachable:
  assumes r: "replica_ok d c p ms M q" and d: "placed N c d" and ms: "traffic_ok N ms"
    and f: "lookup_file (tree q) (dir_name d @ rel) = Some f" "k \<in> dom (characters f)"
  shows "(rel, k) \<in> reachable [] N (set ms)" "plain_path rel"
proof -
  have "(dir_name d @ rel, k) \<in> nodes (tree q)" using f by (auto simp: nodes_def)
  with replica_facts(4) [OF r d ms] show x: "(rel, k) \<in> reachable [] N (set ms)" by auto
  show "plain_path rel" using reachable_path [OF x] d by (auto simp: placed_def)
qed

lemma new_identity:
  assumes r: "replica_ok d c p ms M q" and d: "placed N c d" and bound: "unat (counter q) + 1 < 2 ^ 32"
  shows "(counter q + 1, p) \<notin> insert root (snd ` N \<union> set (added_keys ms))"
proof -
  have less: "counter q < counter q + 1" by (rule word_succ_less [OF bound])
  have "(counter q + 1, p) \<noteq> root" using less by auto
  moreover have "fst k < counter q + 1" if "k \<in> snd ` N" for k
    using that d r less unfolding placed_def replica_ok_def by (blast intro: le_less_trans order.trans)
  moreover have "fst k < counter q + 1" if "k \<in> set (added_keys ms)" "snd k = p" for k
    using that r less unfolding replica_ok_def by (blast intro: le_less_trans)
  ultimately show ?thesis by (metis Un_iff fst_conv insert_iff less_irrefl snd_conv)
qed

text \<open>The other replicas are as they were when there is more under way.\<close>

lemma replica_ok_more:
  assumes "replica_ok d c p ms M q" "set ms \<subseteq> set ms'"
    and "\<And>k. k \<in> set (added_keys ms') \<Longrightarrow> snd k = p \<Longrightarrow> k \<in> set (added_keys ms)"
  shows "replica_ok d c p ms' M q"
proof -
  have "universe (dir_name d) ms \<subseteq> universe (dir_name d) ms'" using assms(2) by (auto simp: universe_def)
  with assms show ?thesis unfolding replica_ok_def by (blast dest: served_more)
qed

lemma typing_keeps:
  assumes r: "replica_ok d c p ms M q" and d: "placed N c d" and ms: "traffic_ok N ms"
    and bound: "unat (counter q) + 1 < 2 ^ 32"
    and f: "lookup_file (tree q) (dir_name d @ rel) = Some f" "j < length (flat f)"
    and op: "op = IdeAdd_new (dir_name d @ rel) (Some (fst (flat f ! j))) (Some (snd (flat f ! j))) pt v tag hint"
  shows "\<exists>q' a. add_ide_operation op q = Some q' \<and> sent_since q q' = [ADD a] \<and>
    na_file_path a = rel \<and> na_crdt a = typed_crdt op (flat f ! j) q \<and>
    crdt_key (na_crdt a) = (counter q + 1, p) \<and> extends N ms (ADD a) \<and>
    replica_ok d c p (ms @ [ADD a]) (insert (ADD a) M) q'"
proof -
  let ?b = "dir_name d" and ?par = "flat f ! j" and ?k = "(counter q + 1, p)"
  note facts = replica_facts [OF r d ms]
  have calm: "calm q" "peer q = p" "network_worklist q = []" "c \<le> counter q"
    and served: "served ?b (links d) (nodes d) (tombs d) (universe ?b ms) M q"
    using r by (simp_all add: replica_ok_def)
  have path: "lookup_file (tree q) (tree_root q @ rel) = Some f" "ia_file_path op = tree_root q @ rel"
    "ia_parent_id op = Some (fst ?par)" "ia_parent_peer op = Some (snd ?par)"
    using f(1) facts(3) by (simp_all add: op IdeAdd_new_def)
  obtain q' f' row where q': "add_ide_operation op q = Some q'" "tree_inv (tree q')"
    "tree_root q' = tree_root q" "counter q' = counter q + 1" "peer q' = peer q" "ids_counted q'"
    "calm q'" "network_backlog q' = network_backlog q" "network_worklist q' = network_worklist q"
    "lookup_file (tree q') = (lookup_file (tree q))(tree_root q @ rel \<mapsto> f')"
    "inserted f (typed_crdt op ?par q) f' row"
    "events q' = events q @
      [Ide_add_confirmed (IdeAddConfirmed_new (ia_tag op) (counter q + 1) (peer q)),
       Ide_added (NetworkAdd_new rel (typed_crdt op ?par q) (fst row))
         (NetworkAdd_new rel (typed_crdt op ?par q) (fst row))]"
    using add_ide_typed [OF facts(1,2) bound calm_quiet [OF calm(1)] path f(2) refl] calm(1)
    by (elim exE conjE) (erule that; simp)
  define a where "a = NetworkAdd_new rel (typed_crdt op ?par q) (fst row)"
  have a: "na_file_path a = rel" "crdt_key (na_crdt a) = ?k" "parent_key (crdt_relation (na_crdt a)) = ?par"
    "\<not> cr_deleted (crdt_relation (na_crdt a))" "na_crdt a = typed_crdt op ?par q"
    by (simp_all add: a_def typed_crdt_def calm(2))
  have sent: "sent_since q q' = [ADD a]" using q'(12) by (simp add: sent_since_def to_peers_def a_def)
  have "?par \<in> live_keys (characters f)"
    using f(2) wf_fileD(4) [OF tree_inv_file [OF facts(1) f(1)]] by (metis nth_mem)
  then have par: "?par \<in> dom (characters f)" using live_keys_dom by blast
  note new = new_identity [OF r d bound]
  note shown = shown_reachable [OF r d ms f(1) par]
  have log: "extends N ms (ADD a)"
    using new shown a(1-4) by (simp add: extends_def op_dep_empty)
  have universe: "universe ?b (ms @ [ADD a]) = universe ?b ms \<union> {ADD a, localised ?b (ADD a)}"
    by (auto simp: universe_def)
  have wait: "waits_for x \<noteq> ?k" if x: "x \<in> universe ?b (ms @ [ADD a])" for x
  proof -
    obtain y where y: "y \<in> set (ms @ [ADD a])" "waits_for x = waits_for y"
      using universe_waits_for [OF x] by blast
    have "?par \<in> snd ` N \<union> set (added_keys ms)" using reachable_identity [OF shown(1)] by simp
    then have "waits_for y \<in> snd ` N \<union> set (added_keys ms)"
      using y(1) traffic_waits_for [OF ms] a(3) by (cases "y = ADD a") auto
    with new y(2) show ?thesis by (metis insertI2)
  qed
  have fresh: "characters f ?k = None"
    using ids_counted_newest(1) [OF facts(2) f(1) word_succ_less [OF bound]] by simp
  note sets = typed_sets [OF q'(10) path(1) q'(11)]
  have "served ?b (links d) (nodes d) (tombs d) (universe ?b (ms @ [ADD a])) (insert (ADD a) M) q'"
  proof (rule served_typed [OF served_more [OF served]])
    show "join ?b (na_file_path a) = ?b @ rel" using join_plain [OF _ shown(2)] d a(1) by (simp add: placed_def)
    show "(?b @ rel, parent_key (crdt_relation (na_crdt a))) \<in> nodes (tree q)"
      using f(1) par a(3) by (auto simp: nodes_def)
  qed (use q' sets facts(3) a fresh wait new in \<open>auto simp: universe\<close>)
  then have "replica_ok d c p (ms @ [ADD a]) (insert (ADD a) M) q'"
    using r q'(4,5,7,9) calm word_succ_less [OF bound] a(2)
    by (auto simp: replica_ok_def intro: order.trans less_imp_le)
  with q'(1) sent log a(1,2,5) show ?thesis by blast
qed

lemma deletion_keeps:
  assumes r: "replica_ok d c p ms M q" and d: "placed N c d" and ms: "traffic_ok N ms"
    and f: "lookup_file (tree q) (dir_name d @ rel) = Some f" "Suc j < length (flat f)"
    and op: "op = Remove_new (dir_name d @ rel) (fst (flat f ! Suc j)) (snd (flat f ! Suc j)) hint"
  shows "\<exists>q' x. remove_ide_operation op q = Some q' \<and> sent_since q q' = [REMOVE x] \<and>
    x = op\<lparr>rm_file_path := rel\<rparr> \<and> extends N ms (REMOVE x) \<and> replica_ok d c p (ms @ [REMOVE x]) (insert (REMOVE x) M) q'"
proof -
  let ?b = "dir_name d" and ?k = "flat f ! Suc j"
  note facts = replica_facts [OF r d ms]
  have calm: "calm q" "ide_remove_callback q" "peer q = p" "network_worklist q = []" "c \<le> counter q"
    and served: "served ?b (links d) (nodes d) (tombs d) (universe ?b ms) M q"
    using r by (simp_all add: replica_ok_def calm_def)
  have path: "lookup_file (tree q) (tree_root q @ rel) = Some f" "rm_file_path op = tree_root q @ rel"
    "flat f ! Suc j = rm_key op"
    using f(1) facts(3) by (simp_all add: op)
  obtain q' f' where q': "remove_ide_operation op q = Some q'" "tree_inv (tree q')"
    "tree_root q' = tree_root q" "counter q' = counter q" "peer q' = peer q" "ids_counted q'"
    "calm q'" "network_backlog q' = network_backlog q" "network_worklist q' = network_worklist q"
    "lookup_file (tree q') = (lookup_file (tree q))(tree_root q @ rel \<mapsto> f')" "removed f (rm_key op) f'"
    "events q' = events q @ [Ide_removed (op\<lparr>rm_file_path := rel\<rparr>)]"
    using remove_ide_done [OF facts(1,2) calm(2) path(1,2) f(2) path(3)] calm(1)
    by (elim exE conjE) (erule that; simp)
  define x where "x = op\<lparr>rm_file_path := rel\<rparr>"
  have x: "rm_file_path x = rel" "rm_key x = ?k" using path(3) by (simp_all add: x_def rm_key_def)
  have sent: "sent_since q q' = [REMOVE x]" using q'(12) by (simp add: sent_since_def to_peers_def x_def)
  note wf = tree_inv_file [OF facts(1) f(1)]
  have "?k \<in> live_keys (characters f)" using f(2) wf_fileD(4) [OF wf] by (metis nth_mem)
  then have k: "?k \<in> dom (characters f)" using live_keys_dom by blast
  obtain ks where ks: "flat f = root # ks" "root \<notin> set ks" using wf_flat_root [OF wf] by blast
  then have "?k = ks ! j" "j < length ks" using f(2) by simp_all
  then have nonroot: "?k \<noteq> root" using ks(2) by (metis nth_mem)
  note shown = shown_reachable [OF r d ms f(1) k]
  have log: "extends N ms (REMOVE x)" using shown x by (simp add: extends_def op_dep_empty)
  have more: "universe ?b ms \<subseteq> universe ?b (ms @ [REMOVE x])" "REMOVE x \<in> universe ?b (ms @ [REMOVE x])"
    by (auto simp: universe_def)
  have "removed f ?k f'" using q'(11) path(3) by simp
  note sets = deleted_sets [OF q'(10) path(1) this k]
  have "served ?b (links d) (nodes d) (tombs d) (universe ?b (ms @ [REMOVE x])) (insert (REMOVE x) M) q'"
  proof (rule served_deleted [OF served_more [OF served more(1)] more(2)])
    show "join ?b (rm_file_path x) = ?b @ rel" using join_plain [OF _ shown(2)] d x(1) by (simp add: placed_def)
  qed (use q' sets facts(3) x(2) nonroot in auto)
  then have "replica_ok d c p (ms @ [REMOVE x]) (insert (REMOVE x) M) q'"
    using r q'(4,5,7,9) calm by (auto simp: replica_ok_def)
  with q'(1) sent log x_def show ?thesis by blast
qed

text \<open>The conditions of the queue's lemmas, for the messages of an orderly log.\<close>

lemma placed_orderly:
  assumes d: "placed N c d" and ms: "traffic_ok N ms" and log: "orderly_log (rel_links d) (rel_tombs d) ms"
  shows "orderly_run (dir_name d) (links d) (tombs d) ms"
proof -
  have "tree_inv d" "is_absolute (dir_name d)" "plain_log ms"
    using d ms by (simp_all add: placed_def traffic_ok_def)
  then show ?thesis using log_orderly_run [OF log] shifted_links shifted_tombs by metis
qed

lemma receipt_keeps:
  assumes r: "replica_ok d c p ms M q" and d: "placed N c d" and ms: "traffic_ok N ms"
    and log: "orderly_log (rel_links d) (rel_tombs d) ms" and m: "m \<in> set ms"
  shows "\<exists>q'. receive m q = Some q' \<and> replica_ok d c p ms (insert m M) q'"
proof -
  have M: "M \<subseteq> universe (dir_name d) ms" "m \<in> universe (dir_name d) ms" "network_worklist q = []"
    using r m by (auto simp: replica_ok_def universe_def)
  from receive_serves [OF universe_orderly [OF placed_orderly [OF d ms log]] M(1,2) _ M(3)] r
  obtain q' where q': "receive m q = Some q'" "network_worklist q' = []"
    "served (dir_name d) (links d) (nodes d) (tombs d) (universe (dir_name d) ms) (insert m M) q'"
    unfolding replica_ok_def by blast
  have "calm q" "peer q = p" "c \<le> counter q" using r by (simp_all add: replica_ok_def)
  with net_moves_calm [OF moves.related_receive [OF q'(1)]] have
    "calm q'" "peer q' = p" "c \<le> counter q'" "counter q \<le> counter q'" by (auto intro: order.trans)
  with q' m r show ?thesis unfolding replica_ok_def by (auto intro: order.trans)
qed

end
