(* ===== verification/Traffic.thy ===== *)
theory Traffic
  imports Network
begin

text \<open>
  Answers among the messages of a network: what a replica answers says nothing but what the opening
  and the log say, so that adding it to the log changes neither what the messages insert and remove
  nor the conditions on them.
\<close>

section \<open>Joining the log\<close>

lemma extends_ok:
  assumes "extends N ms m" "traffic_ok N ms"
  shows "traffic_ok N (ms @ [m])"
proof -
  have "op_dep [] x \<in> reachable [] N (set (ms @ [m]))" if "x \<in> set (ms @ [m])" for x
    by (rule reachable_mono [of _ _ _ "set ms"])
      (use that assms in \<open>auto simp: extends_def traffic_ok_def\<close>)
  moreover have "set (added_keys (ms @ [m])) \<inter> insert root (snd ` N) = {}"
    using assms by (cases m) (auto simp: extends_def traffic_ok_def)
  ultimately show ?thesis using assms by (auto simp: extends_def traffic_ok_def plain_log_def)
qed

lemma extends_log:
  assumes "extends N ms m" "log_ok N ms"
  shows "log_ok N (ms @ [m])"
  using assms extends_ok [OF assms(1)] by (cases m) (auto simp: log_ok_def extends_def)

lemma extends_fresh: "extends N ms m \<Longrightarrow> fresh_op N m"
  by (force simp: extends_def fresh_op_def)

lemma log_fresh:
  assumes "traffic_ok N ms" "m \<in> set ms"
  shows "fresh_op N m"
  unfolding fresh_op_def
proof (intro allI impI notI)
  fix a assume a: "m = ADD a" "(na_file_path a, crdt_key (na_crdt a)) \<in> N"
  then have "crdt_key (na_crdt a) \<in> set (added_keys ms)" using assms(2) by (auto simp: added_keys_in)
  moreover have "crdt_key (na_crdt a) \<in> snd ` N" using a(2) by force
  ultimately show False using assms(1) by (auto simp: traffic_ok_def)
qed

lemma echoes_more: "echoes L T bs m \<Longrightarrow> set bs \<subseteq> set bs' \<Longrightarrow> echoes L T bs' m"
  unfolding echoes_def links_of_def removal_targets_def
  by (cases m) (auto split: network_op.splits)

section \<open>What the traffic says\<close>

lemma echo_ADD:
  assumes "echoes (rel_links d) T bs (ADD a)" "fresh_op (rel_nodes d) (ADD a)"
  obtains b where "ADD b \<in> set bs" "na_file_path b = na_file_path a" "crdt_key (na_crdt b) = crdt_key (na_crdt a)"
    "cr_value (crdt_relation (na_crdt b)) = cr_value (crdt_relation (na_crdt a))"
    "parent_key (crdt_relation (na_crdt b)) = parent_key (crdt_relation (na_crdt a))"
    "crdt_key (na_crdt b) \<noteq> root"
proof -
  have "((na_file_path a, crdt_key (na_crdt a)), cr_value (crdt_relation (na_crdt a)),
      parent_key (crdt_relation (na_crdt a))) \<notin> rel_links d"
    using assms(2) rel_node_link unfolding fresh_op_def by blast
  then have "((na_file_path a, crdt_key (na_crdt a)), cr_value (crdt_relation (na_crdt a)),
      parent_key (crdt_relation (na_crdt a))) \<in> links_of [] (set bs)"
    using assms(1) by (simp add: echoes_def)
  then show ?thesis unfolding links_of_iff prod.inject join_empty by (elim exE conjE) (rule that; simp)
qed

lemma echo_REMOVE:
  assumes "echoes L T bs (REMOVE r)"
  shows "op_dep [] (REMOVE r) \<in> T \<union> removal_targets [] (set bs)" "rm_key r \<noteq> root"
  using assms by (simp_all add: echoes_def op_dep_empty)

lemma links_of_Un: "links_of b (S \<union> S') = links_of b S \<union> links_of b S'"
  unfolding links_of_def by blast

lemma removal_targets_Un: "removal_targets b (S \<union> S') = removal_targets b S \<union> removal_targets b S'"
  unfolding removal_targets_def by blast

text \<open>The log \<open>bs\<close> with the messages \<open>es\<close> of answers.\<close>

lemma traffic_says:
  assumes bs: "traffic_ok (rel_nodes d) bs"
    and all: "\<forall>m \<in> set es. echoes (rel_links d) (rel_tombs d) bs m \<and> fresh_op (rel_nodes d) m"
  shows "links_of [] (set (bs @ es)) = links_of [] (set bs)"
    "rel_tombs d \<union> removal_targets [] (set (bs @ es)) = rel_tombs d \<union> removal_targets [] (set bs)"
    "set (added_keys (bs @ es)) = set (added_keys bs)"
    "reachable [] (rel_nodes d) (set (bs @ es)) = reachable [] (rel_nodes d) (set bs)"
proof -
  note es = bspec [OF all]
  have "links_of [] (set es) \<subseteq> links_of [] (set bs)"
  proof
    fix x assume "x \<in> links_of [] (set es)"
    then obtain a where a: "ADD a \<in> set es" "x = ((na_file_path a, crdt_key (na_crdt a)),
      cr_value (crdt_relation (na_crdt a)), parent_key (crdt_relation (na_crdt a)))"
      unfolding links_of_def join_empty by blast
    obtain b where "ADD b \<in> set bs" "na_file_path b = na_file_path a" "crdt_key (na_crdt b) = crdt_key (na_crdt a)"
      "cr_value (crdt_relation (na_crdt b)) = cr_value (crdt_relation (na_crdt a))"
      "parent_key (crdt_relation (na_crdt b)) = parent_key (crdt_relation (na_crdt a))"
      "crdt_key (na_crdt b) \<noteq> root"
      by (rule echo_ADD) (use es [OF a(1)] in blast)+
    then show "x \<in> links_of [] (set bs)" unfolding a(2) links_of_iff join_empty by metis
  qed
  then show "links_of [] (set (bs @ es)) = links_of [] (set bs)"
    unfolding set_append links_of_Un by blast
  have "removal_targets [] (set es) \<subseteq> rel_tombs d \<union> removal_targets [] (set bs)"
    using es echo_REMOVE(1) unfolding removal_targets_def by blast
  then show "rel_tombs d \<union> removal_targets [] (set (bs @ es)) = rel_tombs d \<union> removal_targets [] (set bs)"
    unfolding set_append removal_targets_Un by blast
  have "k \<in> set (added_keys bs)" if k: "k \<in> set (added_keys es)" for k
  proof -
    obtain a where a: "ADD a \<in> set es" "k = crdt_key (na_crdt a)" using k unfolding added_keys_in by blast
    obtain b where "ADD b \<in> set bs" "crdt_key (na_crdt b) = crdt_key (na_crdt a)"
      by (rule echo_ADD) (use es [OF a(1)] in blast)+
    then show ?thesis unfolding added_keys_in a(2) by metis
  qed
  then show "set (added_keys (bs @ es)) = set (added_keys bs)" by auto
  have "x \<in> reachable [] (rel_nodes d) (set bs)" if "x \<in> reachable [] (rel_nodes d) (set (bs @ es))" for x
    using that
  proof (induction rule: reachable.induct)
    case (reach_new a)
    show ?case
    proof (cases "ADD a \<in> set bs")
      case True
      then show ?thesis using reach_new.IH reach_new.hyps(3) by (rule reachable.reach_new)
    next
      case False
      then have a: "ADD a \<in> set es" using reach_new.hyps(1) by simp
      obtain b where b: "ADD b \<in> set bs" "na_file_path b = na_file_path a" "crdt_key (na_crdt b) = crdt_key (na_crdt a)"
        "parent_key (crdt_relation (na_crdt b)) = parent_key (crdt_relation (na_crdt a))"
        "crdt_key (na_crdt b) \<noteq> root"
        by (rule echo_ADD) (use es [OF a] in blast)+
      have "op_dep [] (ADD b) \<in> reachable [] (rel_nodes d) (set bs)"
        using reach_new.IH b(2,4) by (simp add: op_dep_empty)
      from reachable.reach_new [OF b(1) this b(5)] show ?thesis unfolding b(2,3) .
    qed
  qed (rule reach_old)
  moreover have "reachable [] (rel_nodes d) (set bs) \<subseteq> reachable [] (rel_nodes d) (set (bs @ es))"
    using reachable_mono [where S = "set bs" and S' = "set (bs @ es)"] by auto
  ultimately show "reachable [] (rel_nodes d) (set (bs @ es)) = reachable [] (rel_nodes d) (set bs)" by blast
qed

lemma tombs_below: "rel_tombs d \<subseteq> rel_nodes d"
  using tombs_nodes by (auto simp: rel_tombs_def rel_nodes_def)

lemma traffic_kept:
  assumes bs: "traffic_ok (rel_nodes d) bs"
    and all: "\<forall>m \<in> set es. echoes (rel_links d) (rel_tombs d) bs m \<and> fresh_op (rel_nodes d) m"
  shows "traffic_ok (rel_nodes d) (bs @ es)"
    "orderly_log (rel_links d) (rel_tombs d) bs \<Longrightarrow> orderly_log (rel_links d) (rel_tombs d) (bs @ es)"
proof -
  note es = bspec [OF all] and says = traffic_says [OF bs all]
  have dep: "op_dep [] m \<in> reachable [] (rel_nodes d) (set bs)" if m: "m \<in> set (bs @ es)" for m
  proof (cases "m \<in> set bs")
    case True
    then show ?thesis using bs by (simp add: traffic_ok_def)
  next
    case False
    with m have m': "echoes (rel_links d) (rel_tombs d) bs m \<and> fresh_op (rel_nodes d) m" using es by simp
    show ?thesis
    proof (cases m)
      case (ADD a)
      obtain b where b: "ADD b \<in> set bs" "na_file_path b = na_file_path a"
        "parent_key (crdt_relation (na_crdt b)) = parent_key (crdt_relation (na_crdt a))"
        by (rule echo_ADD) (use m' ADD in blast)+
      then have "op_dep [] (ADD b) = op_dep [] m" by (simp add: ADD op_dep_empty)
      then show ?thesis using bs b(1) unfolding traffic_ok_def by metis
    next
      case (REMOVE r)
      with m' echo_REMOVE(1) consider "op_dep [] m \<in> rel_tombs d" | "op_dep [] m \<in> removal_targets [] (set bs)"
        by blast
      then show ?thesis
      proof cases
        case 1
        then show ?thesis using tombs_below by (blast intro: reach_old)
      next
        case 2
        then obtain x where "REMOVE x \<in> set bs" "op_dep [] m = op_dep [] (REMOVE x)"
          unfolding removal_targets_def mem_Collect_eq by (elim exE conjE) (rule that)
        then show ?thesis using bs unfolding traffic_ok_def by metis
      qed
    qed
  qed
  have pb: "m \<in> set bs \<Longrightarrow> plain_path (op_file m)" "ADD a \<in> set bs \<Longrightarrow> \<not> cr_deleted (crdt_relation (na_crdt a))"
    for m a using bs by (simp_all add: traffic_ok_def plain_log_def)
  have pe: "m \<in> set es \<Longrightarrow> plain_path (op_file m)" "ADD a \<in> set es \<Longrightarrow> \<not> cr_deleted (crdt_relation (na_crdt a))"
    for m a using es [of m] es [of "ADD a"] by (simp_all add: echoes_def)
  have "plain_log (bs @ es)"
    unfolding plain_log_def set_append ball_Un Un_iff
    by (intro conjI ballI allI impI) (auto intro: pb(1) pe(1) dest: pb(2) pe(2))
  moreover have "set (added_keys (bs @ es)) \<inter> insert root (snd ` rel_nodes d) = {}"
    using bs unfolding traffic_ok_def by (simp only: says(3) simp_thms)
  moreover have "\<forall>m \<in> set (bs @ es). op_dep [] m \<in> reachable [] (rel_nodes d) (set (bs @ es))"
    using dep by (simp only: says(4) ball_simps) blast
  ultimately show "traffic_ok (rel_nodes d) (bs @ es)" unfolding traffic_ok_def by (intro conjI)
  assume log: "orderly_log (rel_links d) (rel_tombs d) bs"
  have "accepts (rel_links d \<union> links_of [] (set bs)) (rel_tombs d \<union> removal_targets [] (set bs))
      (na_file_path a) (crdt_relation (na_crdt a))" if a: "ADD a \<in> set (bs @ es)" for a
  proof (cases "ADD a \<in> set bs")
    case True
    then show ?thesis using log by (simp add: orderly_log_def)
  next
    case False
    then have m: "ADD a \<in> set es" using a by simp
    obtain b where b: "ADD b \<in> set bs" "na_file_path b = na_file_path a"
      "cr_value (crdt_relation (na_crdt b)) = cr_value (crdt_relation (na_crdt a))"
      "parent_key (crdt_relation (na_crdt b)) = parent_key (crdt_relation (na_crdt a))"
      by (rule echo_ADD) (use es [OF m] in blast)+
    have "accepts (rel_links d \<union> links_of [] (set bs)) (rel_tombs d \<union> removal_targets [] (set bs))
        (na_file_path b) (crdt_relation (na_crdt b))" using log b(1) by (simp add: orderly_log_def)
    then show ?thesis unfolding accepts_def b(2-4) .
  qed
  then show "orderly_log (rel_links d) (rel_tombs d) (bs @ es)"
    unfolding orderly_log_def by (simp only: says(1,2)) blast
qed

section \<open>What a replica answers\<close>

lemma replica_links:
  assumes r: "replica_ok d c p ms M q" and d: "placed N c d" and ms: "traffic_ok N ms"
  shows "rel_links (tree q) \<subseteq> rel_links d \<union> links_of [] (set ms)"
    "rel_tombs (tree q) \<subseteq> rel_tombs d \<union> removal_targets [] (set ms)"
proof -
  let ?b = "dir_name d"
  have abs: "is_absolute ?b" "tree_inv d" using d by (simp_all add: placed_def)
  have plain: "\<forall>m \<in> set ms. plain_path (op_file m)" using ms by (simp add: traffic_ok_def plain_log_def)
  then have shar: "\<forall>m \<in> set ms. in_shar ?b m" using in_shar_plain [OF abs(1)] by blast
  have root: "dir_name (tree q) = ?b" using replica_facts(3) [OF r d ms] by (simp add: tree_root_def)
  have inv: "links (tree q) \<subseteq> links d \<union> links_of ?b (set ms)" "tombs (tree q) \<subseteq> tombs d \<union> removal_targets ?b (set ms)"
    using r unfolding replica_ok_def served_def queue_inv_def universe_same [OF abs(1) shar] by blast+
  have "links d \<union> links_of ?b (set ms) = shift_link ?b ` (rel_links d \<union> links_of [] (set ms))"
    unfolding links_of_shift [of ?b "set ms", OF abs(1) plain] image_Un using shifted_links [OF abs(2)] by simp
  then show "rel_links (tree q) \<subseteq> rel_links d \<union> links_of [] (set ms)"
    using inv(1) unfolding rel_links_def [of "tree q"] root by auto
  have "tombs d \<union> removal_targets ?b (set ms) = shift ?b ` (rel_tombs d \<union> removal_targets [] (set ms))"
    unfolding removal_targets_shift [of ?b "set ms", OF abs(1) plain] image_Un using shifted_tombs [OF abs(2)] by simp
  then show "rel_tombs (tree q) \<subseteq> rel_tombs d \<union> removal_targets [] (set ms)"
    using inv(2) unfolding rel_tombs_def [of "tree q"] root by auto
qed

text \<open>The messages of an answer, below the root.\<close>

lemma answer_cases:
  assumes q: "tree_inv (tree q)" "lists_state l (queue_full_state q)" and m: "m \<in> set (to_network_ops l)"
  obtains rel k r where "lookup_file (tree q) (tree_root q @ rel) \<noteq> None" "k \<noteq> root" "m \<in> set (char_ops rel (k, r))"
    "((rel, k), cr_value r, parent_key r) \<in> rel_links (tree q)" "cr_deleted r \<longrightarrow> (rel, k) \<in> rel_tombs (tree q)"
proof -
  obtain f k r where f: "f \<in> set (all_files (tree q))" "characters f k = Some r" "k \<noteq> root"
    "m \<in> set (char_ops (to_relative_path q (file_path f)) (k, r))"
    using m state_ops_iff [OF q(2)] by blast
  have look: "lookup_file (tree q) (file_path f) = Some f"
    using q(1) f(1) by (simp add: tree_inv_def lookup_file_iff)
  then have "(file_path f, k) \<in> nodes (tree q)" using f(2) by (auto simp: nodes_def)
  then obtain y where "(file_path f, k) = shift (dir_name (tree q)) y" using node_below [OF q(1)] by blast
  then obtain rel where rel: "file_path f = dir_name (tree q) @ rel" by (metis prod.collapse prod.inject shift_simps(1))
  then have "m \<in> set (char_ops rel (k, r))" using f(4) by (simp add: to_relative_path_def tree_root_def)
  moreover have "((rel, k), cr_value r, parent_key r) \<in> rel_links (tree q)"
    unfolding rel_links_def using look f(2) rel by (simp add: links_iff)
  moreover have "cr_deleted r \<longrightarrow> (rel, k) \<in> rel_tombs (tree q)"
    unfolding rel_tombs_def using look f(2) rel by (simp add: tombs_def)
  moreover have "lookup_file (tree q) (tree_root q @ rel) \<noteq> None" using look rel by (simp add: tree_root_def)
  ultimately show ?thesis using that f(3) by blast
qed

lemma answer_lists:
  assumes q: "tree_inv (tree q)" "lists_state l (queue_full_state q)"
    and k: "((rel, k), v, par) \<in> rel_links (tree q)" "k \<noteq> root"
  shows "((rel, k), v, par) \<in> links_of [] (set (to_network_ops l))"
    "(rel, k) \<in> rel_tombs (tree q) \<Longrightarrow> (rel, k) \<in> removal_targets [] (set (to_network_ops l))"
proof -
  obtain f r where f: "lookup_file (tree q) (tree_root q @ rel) = Some f" "characters f k = Some r"
    "v = cr_value r" "par = parent_key r"
    using k(1) by (auto simp: rel_links_def links_iff tree_root_def)
  let ?a = "NetworkAdd_new rel (CRDT_new (fst k) (snd k) (r\<lparr>cr_deleted := False\<rparr>)) 0"
  have "ADD ?a \<in> set (to_network_ops l)" by (rule state_op_in(1) [OF q f(1,2) k(2)])
  then show "((rel, k), v, par) \<in> links_of [] (set (to_network_ops l))"
    unfolding links_of_iff by (intro exI [of _ ?a]) (use f(3,4) k(2) in simp)
  assume "(rel, k) \<in> rel_tombs (tree q)"
  then have "cr_deleted r" using f by (auto simp: rel_tombs_def tombs_def tree_root_def)
  from state_op_in(2) [OF q f(1,2) k(2) this] show "(rel, k) \<in> removal_targets [] (set (to_network_ops l))"
    using k(2) by (force simp: removal_targets_def op_dep_empty)
qed

lemma answer_echoes:
  assumes r: "replica_ok d c p ms M q" and d: "placed N c d" and ms: "traffic_ok N ms"
    and l: "lists_state l (queue_full_state q)" "m \<in> set (to_network_ops l)"
  shows "echoes (rel_links d) (rel_tombs d) ms m"
proof -
  note facts = replica_facts [OF r d ms]
  obtain rel k x where x: "lookup_file (tree q) (tree_root q @ rel) \<noteq> None" "k \<noteq> root" "m \<in> set (char_ops rel (k, x))"
    "((rel, k), cr_value x, parent_key x) \<in> rel_links (tree q)" "cr_deleted x \<longrightarrow> (rel, k) \<in> rel_tombs (tree q)"
    by (rule answer_cases [OF facts(1) l])
  obtain f where f: "lookup_file (tree q) (dir_name d @ rel) = Some f" using x(1) facts(3) by auto
  have "root \<in> dom (characters f)"
    using wf_chars_root [OF wf_fileD(1) [OF tree_inv_file [OF facts(1) f]]] by auto
  from shown_reachable(2) [OF r d ms f this] have "plain_path rel" .
  then show ?thesis
    using x replica_links [OF r d ms] unfolding echoes_def
    by (cases m) (auto simp: char_ops_ADD char_ops_REMOVE)
qed

text \<open>Inserting what is there changes nothing.\<close>

lemma receive_known:
  assumes q: "tree_inv (tree q)" "ids_counted q" "is_absolute (tree_root q)" "plain_path (na_file_path a)"
    and k: "(na_file_path a, crdt_key (na_crdt a)) \<in> rel_nodes (tree q)" "crdt_key (na_crdt a) \<noteq> root"
    and par: "(na_file_path a, parent_key (crdt_relation (na_crdt a))) \<in> rel_nodes (tree q)"
  shows "receive (ADD a) q = Some q"
proof -
  let ?p = "dir_name (tree q) @ na_file_path a"
  have "join (tree_root q) (na_file_path a) = ?p" using join_plain [OF q(3,4)] by (simp add: tree_root_def)
  moreover have "dir_add_crdt (tree q) ?p (na_row a) (na_crdt a) = Some (tree q, Inr None)"
    by (rule store.add_known [OF q(1)]) (use k(1) par in \<open>simp_all add: rel_nodes_def\<close>)
  moreover have "(?p, crdt_key (na_crdt a)) \<in> nodes (tree q)" using k(1) by (simp add: rel_nodes_def)
  with q(2) have "crdt_id (na_crdt a) \<le> counter q" by (force simp: ids_counted_def crdt_key_def)
  ultimately show ?thesis
    using k(2) by (simp add: receive_def add_network_operation_def network_insert_def Let_def to_local_path_def max_absorb1)
qed

end
