(* ===== verification/NetworkRuns.thy ===== *)
theory NetworkRuns
  imports Traffic
begin

text \<open>
  Every run of a network of replicas keeps the invariant, as long as each insertion of the log is
  accepted beside all of it; and what follows for the replicas: identities are given once, no call
  panics or runs for ever, replicas that were told of the whole log hold the same content, and the
  answer of one of them brings any other one level with it.
\<close>

section \<open>Every run keeps the invariant\<close>

abbreviation orderly_network :: "(nat \<Rightarrow> shar_directory) \<Rightarrow> network \<Rightarrow> bool" where
  "orderly_network ds s \<equiv> orderly_log (rel_links (ds 0)) (rel_tombs (ds 0)) (broadcasts s)"

lemma network_traffic:
  assumes "network_ok n ds c ps s"
  shows "links_of [] (set (traffic (rel_nodes (ds 0)) s)) = links_of [] (set (broadcasts s))"
    "rel_tombs (ds 0) \<union> removal_targets [] (set (traffic (rel_nodes (ds 0)) s)) =
       rel_tombs (ds 0) \<union> removal_targets [] (set (broadcasts s))"
    "set (added_keys (traffic (rel_nodes (ds 0)) s)) = set (added_keys (broadcasts s))"
    "reachable [] (rel_nodes (ds 0)) (set (traffic (rel_nodes (ds 0)) s)) =
       reachable [] (rel_nodes (ds 0)) (set (broadcasts s))"
    "traffic_ok (rel_nodes (ds 0)) (traffic (rel_nodes (ds 0)) s)"
    "orderly_network ds s \<Longrightarrow>
       orderly_log (rel_links (ds 0)) (rel_tombs (ds 0)) (traffic (rel_nodes (ds 0)) s)"
proof -
  have bs: "traffic_ok (rel_nodes (ds 0)) (broadcasts s)"
    using network_okD(1) [OF assms] by (simp add: log_ok_def)
  have es: "\<forall>m \<in> set (filter (fresh_op (rel_nodes (ds 0))) (answered s)).
      echoes (rel_links (ds 0)) (rel_tombs (ds 0)) (broadcasts s) m \<and> fresh_op (rel_nodes (ds 0)) m"
    using network_okD(2) [OF assms] by auto
  note all = traffic_says [OF bs es] traffic_kept [OF bs es]
  show "links_of [] (set (traffic (rel_nodes (ds 0)) s)) = links_of [] (set (broadcasts s))"
    "rel_tombs (ds 0) \<union> removal_targets [] (set (traffic (rel_nodes (ds 0)) s)) =
       rel_tombs (ds 0) \<union> removal_targets [] (set (broadcasts s))"
    "set (added_keys (traffic (rel_nodes (ds 0)) s)) = set (added_keys (broadcasts s))"
    "reachable [] (rel_nodes (ds 0)) (set (traffic (rel_nodes (ds 0)) s)) =
       reachable [] (rel_nodes (ds 0)) (set (broadcasts s))"
    "traffic_ok (rel_nodes (ds 0)) (traffic (rel_nodes (ds 0)) s)"
    unfolding traffic_def by (rule all(1-5))+
  show "orderly_network ds s \<Longrightarrow>
       orderly_log (rel_links (ds 0)) (rel_tombs (ds 0)) (traffic (rel_nodes (ds 0)) s)"
    unfolding traffic_def by (fact all(6))
qed

lemma opened_ok:
  assumes "alike n ds c ps"
  shows "network_ok n ds c ps (opened ds c ps)"
proof -
  have "replica_ok (ds i) c (ps i) [] {} (queue_of (ds i) c (ps i))" if i: "i < n" for i
  proof -
    note d = alike_placed [OF assms i]
    have "fst (snd x) \<le> c" if "x \<in> nodes (ds i)" for x
      using that d unfolding placed_nodes [OF d] by (auto simp: placed_def)
    then have "served (dir_name (ds i)) (links (ds i)) (nodes (ds i)) (tombs (ds i)) {} {}
        (queue_of (ds i) c (ps i))"
      using d by (intro queue_of_served) (auto simp: placed_def)
    then show ?thesis by (simp add: replica_ok_def universe_def calm_def queue_of_def)
  qed
  then show ?thesis
    by (simp add: network_ok_def opened_def log_ok_def traffic_ok_def plain_log_def traffic_def heard_def)
qed

text \<open>A step by one replica that appends one message to the log.\<close>

lemma edited_ok:
  assumes s: "network_ok n ds c ps s" and alike: "alike n ds c ps" and i: "i < n"
    and q': "sent_since (replicas s i) q' = [m]" "extends (rel_nodes (ds 0)) (traffic (rel_nodes (ds 0)) s) m"
      "replica_ok (ds i) c (ps i) (traffic (rel_nodes (ds 0)) s @ [m])
         (insert m (heard (rel_nodes (ds 0)) i s)) q'"
      "\<forall>k \<in> set (added_key m). snd k = ps i"
  shows "network_ok n ds c ps (edited i q' s)" "broadcasts (edited i q' s) = broadcasts s @ [m]"
proof -
  let ?N = "rel_nodes (ds 0)" and ?s = "edited i q' s"
  show b: "broadcasts ?s = broadcasts s @ [m]" using q'(1) by (simp add: edited_def Let_def)
  have fields: "answered ?s = answered s" "replicas ?s = (replicas s)(i := q')"
    "received ?s = (received s)(i := insert m (received s i))"
    using q'(1) by (simp_all add: edited_def Let_def)
  note says = network_traffic [OF s]
  have "extends ?N (traffic ?N s) m = extends ?N (broadcasts s) m" by (simp only: extends_def says(3,4))
  then have "extends ?N (broadcasts s) m" using q'(2) by simp
  then have log: "log_ok ?N (broadcasts s @ [m])" using network_okD(1) [OF s] by (rule extends_log)
  have set: "set (traffic ?N ?s) = set (traffic ?N s @ [m])"
    "set (added_keys (traffic ?N ?s)) = set (added_keys (traffic ?N s @ [m]))"
    by (auto simp: traffic_def b fields)
  have heard: "heard ?N j ?s = (if j = i then insert m (heard ?N i s) else heard ?N j s)" for j
    using extends_fresh [OF q'(2)] by (auto simp: heard_def fields)
  have "replica_ok (ds j) c (ps j) (traffic ?N ?s) (heard ?N j ?s) (replicas ?s j)" if j: "j < n" for j
  proof (cases "j = i")
    case True
    then show ?thesis
      unfolding heard using replica_ok_more [OF q'(3), of "traffic ?N ?s"] set by (simp add: fields)
  next
    case False
    have other: "snd k \<noteq> ps j" if "k \<in> set (added_key m)" for k
    proof -
      have "ps i \<noteq> ps j" using alike i j False by (auto simp: alike_def dest: inj_onD)
      then show ?thesis using q'(4) that by auto
    qed
    have "replica_ok (ds j) c (ps j) (traffic ?N ?s) (heard ?N j s) (replicas s j)"
      by (rule replica_ok_more [OF network_okD(3) [OF s j]]) (use set other in auto)
    then show ?thesis using False by (simp add: heard fields)
  qed
  moreover have "echoes (rel_links (ds 0)) (rel_tombs (ds 0)) (broadcasts s @ [m]) x" if "x \<in> set (answered s)" for x
    by (rule echoes_more [OF network_okD(2) [OF s that]]) auto
  ultimately show "network_ok n ds c ps ?s" using log unfolding network_ok_def b fields(1) by blast
qed

text \<open>An answer adds nothing but echoes.\<close>

lemma answer_step:
  assumes s: "network_ok n ds c ps s" and alike: "alike n ds c ps" and i: "i < n"
    and l: "lists_state l (queue_full_state (replicas s i))"
  shows "network_ok n ds c ps (s\<lparr>answered := answered s @ to_network_ops l\<rparr>)"
proof -
  let ?N = "rel_nodes (ds 0)" and ?s = "s\<lparr>answered := answered s @ to_network_ops l\<rparr>"
  note says = network_traffic [OF s]
  have same: "rel_links (ds i) = rel_links (ds 0)" "rel_tombs (ds i) = rel_tombs (ds 0)"
    using alike i unfolding alike_def same_content_def by blast+
  have echo: "echoes (rel_links (ds 0)) (rel_tombs (ds 0)) (broadcasts s) m" if m: "m \<in> set (to_network_ops l)" for m
    using answer_echoes [OF network_okD(3) [OF s i] alike_placed [OF alike i] says(5) l m]
    unfolding same echoes_def by (simp only: says(1,2))
  have bs: "traffic_ok ?N (broadcasts s)" using network_okD(1) [OF s] by (simp add: log_ok_def)
  have "\<forall>m \<in> set (filter (fresh_op ?N) (answered s @ to_network_ops l)).
      echoes (rel_links (ds 0)) (rel_tombs (ds 0)) (broadcasts s) m \<and> fresh_op ?N m"
    using network_okD(2) [OF s] echo by auto
  from traffic_says(3) [OF bs this] have keys: "set (added_keys (traffic ?N ?s)) = set (added_keys (broadcasts s))"
    by (simp add: traffic_def)
  have "replica_ok (ds j) c (ps j) (traffic ?N ?s) (heard ?N j ?s) (replicas ?s j)" if j: "j < n" for j
  proof -
    have "replica_ok (ds j) c (ps j) (traffic ?N ?s) (heard ?N j s) (replicas s j)"
      by (rule replica_ok_more [OF network_okD(3) [OF s j]]) (use keys in \<open>auto simp: traffic_def\<close>)
    then show ?thesis by (simp add: heard_def)
  qed
  then show ?thesis using network_okD(1,2) [OF s] echo unfolding network_ok_def by auto
qed

lemma replica_root:
  assumes "network_ok n ds c ps s" "alike n ds c ps" "i < n"
  shows "tree_root (replicas s i) = dir_name (ds i)"
  using replica_facts(3) [OF network_okD(3) [OF assms(1,3)] alike_placed [OF assms(2,3)] network_traffic(5) [OF assms(1)]] .

text \<open>The three kinds of steps can always be taken, and keep the invariant.\<close>

lemma typing_step:
  assumes s: "network_ok n ds c ps s" and alike: "alike n ds c ps" and i: "i < n"
    and bound: "unat (counter (replicas s i)) + 1 < 2 ^ 32"
    and f: "lookup_file (tree (replicas s i)) (tree_root (replicas s i) @ rel) = Some f" "j < length (flat f)"
    and op: "op = IdeAdd_new (tree_root (replicas s i) @ rel) (Some (fst (flat f ! j))) (Some (snd (flat f ! j))) pt v tag hint"
  shows "\<exists>q' a. add_ide_operation op (replicas s i) = Some q' \<and> sent_since (replicas s i) q' = [ADD a] \<and>
    na_file_path a = rel \<and> na_crdt a = typed_crdt op (flat f ! j) (replicas s i) \<and>
    network_ok n ds c ps (edited i q' s) \<and> broadcasts (edited i q' s) = broadcasts s @ [ADD a]"
proof -
  let ?q = "replicas s i"
  note root = replica_root [OF s alike i]
  obtain q' a where a: "add_ide_operation op ?q = Some q'" "sent_since ?q q' = [ADD a]" "na_file_path a = rel"
    "na_crdt a = typed_crdt op (flat f ! j) ?q" "crdt_key (na_crdt a) = (counter ?q + 1, ps i)"
    "extends (rel_nodes (ds 0)) (traffic (rel_nodes (ds 0)) s) (ADD a)"
    "replica_ok (ds i) c (ps i) (traffic (rel_nodes (ds 0)) s @ [ADD a])
       (insert (ADD a) (heard (rel_nodes (ds 0)) i s)) q'"
    using typing_keeps [OF network_okD(3) [OF s i] alike_placed [OF alike i] network_traffic(5) [OF s] bound
        f [unfolded root] op [unfolded root]] by blast
  have "\<forall>k \<in> set (added_key (ADD a)). snd k = ps i" using a(5) by simp
  from edited_ok [OF s alike i a(2,6,7) this] a(1-4) show ?thesis by blast
qed

lemma deletion_step:
  assumes s: "network_ok n ds c ps s" and alike: "alike n ds c ps" and i: "i < n"
    and f: "lookup_file (tree (replicas s i)) (tree_root (replicas s i) @ rel) = Some f" "Suc j < length (flat f)"
    and op: "op = Remove_new (tree_root (replicas s i) @ rel) (fst (flat f ! Suc j)) (snd (flat f ! Suc j)) hint"
  shows "\<exists>q' x. remove_ide_operation op (replicas s i) = Some q' \<and> sent_since (replicas s i) q' = [REMOVE x] \<and>
    x = op\<lparr>rm_file_path := rel\<rparr> \<and>
    network_ok n ds c ps (edited i q' s) \<and> broadcasts (edited i q' s) = broadcasts s @ [REMOVE x]"
proof -
  let ?q = "replicas s i"
  note root = replica_root [OF s alike i]
  obtain q' x where x: "remove_ide_operation op ?q = Some q'" "sent_since ?q q' = [REMOVE x]"
    "x = op\<lparr>rm_file_path := rel\<rparr>" "extends (rel_nodes (ds 0)) (traffic (rel_nodes (ds 0)) s) (REMOVE x)"
    "replica_ok (ds i) c (ps i) (traffic (rel_nodes (ds 0)) s @ [REMOVE x])
       (insert (REMOVE x) (heard (rel_nodes (ds 0)) i s)) q'"
    using deletion_keeps [OF network_okD(3) [OF s i] alike_placed [OF alike i] network_traffic(5) [OF s]
        f [unfolded root] op [unfolded root]] by blast
  have "\<forall>k \<in> set (added_key (REMOVE x)). snd k = ps i" by simp
  from edited_ok [OF s alike i x(2,4,5) this] x(1-3) show ?thesis by blast
qed

lemma rel_link_parent:
  assumes d: "tree_inv d" and l: "((p, k), v, par) \<in> rel_links d"
  shows "(p, par) \<in> rel_nodes d"
proof -
  obtain f r where f: "lookup_file d (dir_name d @ p) = Some f" "characters f k = Some r" "par = parent_key r"
    using l by (auto simp: rel_links_def links_iff)
  have "parent_key r \<in> dom (characters f)" by (rule wf_parent [OF wf_fileD(1) [OF tree_inv_file [OF d f(1)]] f(2)])
  then show ?thesis using f(1,3) by (simp add: rel_nodes_def nodes_def)
qed

lemma delivered_simps [simp]:
  "broadcasts (delivered i m q' s) = broadcasts s" "answered (delivered i m q' s) = answered s"
  "replicas (delivered i m q' s) = (replicas s)(i := q')"
  by (simp_all add: delivered_def)

lemma receipt_step:
  assumes s: "network_ok n ds c ps s" and alike: "alike n ds c ps" and i: "i < n"
    and log: "orderly_network ds s" and m: "m \<in> set (broadcasts s) \<union> set (answered s)"
  shows "\<exists>q'. receive m (replicas s i) = Some q' \<and> network_ok n ds c ps (delivered i m q' s)"
proof -
  let ?N = "rel_nodes (ds 0)" and ?q = "replicas s i"
  note r = network_okD(3) [OF s i] and d = alike_placed [OF alike i] and says = network_traffic [OF s]
  have bs: "traffic_ok ?N (broadcasts s)" using network_okD(1) [OF s] by (simp add: log_ok_def)
  have traffic: "traffic ?N (delivered i m q' s) = traffic ?N s" for q' by (simp add: traffic_def delivered_def)
  show ?thesis
  proof (cases "fresh_op ?N m")
    case True
    have "rel_links (ds i) = rel_links (ds 0)" "rel_tombs (ds i) = rel_tombs (ds 0)"
      using alike i unfolding alike_def same_content_def by blast+
    then have "orderly_log (rel_links (ds i)) (rel_tombs (ds i)) (traffic ?N s)" using says(6) log by simp
    moreover have "m \<in> set (traffic ?N s)" using m True by (auto simp: traffic_def)
    ultimately obtain q' where q': "receive m ?q = Some q'"
      "replica_ok (ds i) c (ps i) (traffic ?N s) (insert m (heard ?N i s)) q'"
      using receipt_keeps [OF r d says(5)] by blast
    have heard: "heard ?N j (delivered i m q' s) = (if j = i then insert m (heard ?N i s) else heard ?N j s)" for j
      using True by (auto simp: heard_def delivered_def)
    have "network_ok n ds c ps (delivered i m q' s)"
      using s q'(2) unfolding network_ok_def traffic heard delivered_simps by simp
    with q'(1) show ?thesis by blast
  next
    case False
    then obtain a where a: "m = ADD a" "(na_file_path a, crdt_key (na_crdt a)) \<in> ?N" by (auto simp: fresh_op_def)
    have "m \<in> set (answered s)" using m False log_fresh [OF bs] by blast
    then have echo: "echoes (rel_links (ds 0)) (rel_tombs (ds 0)) (broadcasts s) (ADD a)"
      using network_okD(2) [OF s] a(1) by simp
    have "crdt_key (na_crdt a) \<in> snd ` ?N" using a(2) by force
    then have "crdt_key (na_crdt a) \<notin> set (added_keys (broadcasts s))" using bs by (auto simp: traffic_ok_def)
    then have "((na_file_path a, crdt_key (na_crdt a)), cr_value (crdt_relation (na_crdt a)),
        parent_key (crdt_relation (na_crdt a))) \<notin> links_of [] (set (broadcasts s))"
      unfolding links_of_iff added_keys_in by (metis prod.inject)
    then have "((na_file_path a, crdt_key (na_crdt a)), cr_value (crdt_relation (na_crdt a)),
        parent_key (crdt_relation (na_crdt a))) \<in> rel_links (ds 0)" using echo by (simp add: echoes_def)
    moreover have "tree_inv (ds 0)" using alike i unfolding alike_def by (metis not_gr_zero not_less_zero)
    ultimately have par: "(na_file_path a, parent_key (crdt_relation (na_crdt a))) \<in> ?N" by (rule rel_link_parent [rotated])
    have root: "dir_name (tree ?q) = dir_name (ds i)" using replica_facts(3) [OF r d says(5)] by (simp add: tree_root_def)
    have "nodes (ds i) \<subseteq> nodes (tree ?q)"
      using r by (simp add: replica_ok_def served_def queue_inv_def)
    then have "?N \<subseteq> rel_nodes (tree ?q)" using d root unfolding placed_def by (auto simp: rel_nodes_def)
    then have "receive (ADD a) ?q = Some ?q"
      using replica_facts(1-3) [OF r d says(5)] d a(2) par echo
      by (intro receive_known) (auto simp: echoes_def placed_def)
    moreover have heard: "heard ?N j (delivered i m ?q s) = heard ?N j s" for j
      using False by (auto simp: heard_def delivered_def)
    have "network_ok n ds c ps (delivered i m ?q s)"
      using s unfolding network_ok_def traffic heard delivered_simps by simp
    ultimately show ?thesis unfolding a(1) by blast
  qed
qed

lemma step_keeps:
  assumes step: "network_step n s s'" and s: "network_ok n ds c ps s" and alike: "alike n ds c ps"
    and log: "orderly_network ds s'"
  shows "network_ok n ds c ps s'"
  using step
proof cases
  case (types_char i rel f j pt v tag hint q')
  from typing_step [OF s alike types_char(2-5) refl, of pt v tag hint] types_char(1,6) show ?thesis by auto
next
  case (deletes_char i rel f j hint q')
  from deletion_step [OF s alike deletes_char(2-4) refl, of hint] deletes_char(1,5) show ?thesis by auto
next
  case (answers_state i l)
  then show ?thesis using answer_step [OF s alike] by blast
next
  case (receives i m q')
  then have "orderly_network ds s" using log by simp
  from receipt_step [OF s alike receives(2) this receives(3)] receives(1,4) show ?thesis by auto
qed

lemma run_keeps:
  assumes "network_run n s0 s" "network_ok n ds c ps s0" "alike n ds c ps" "orderly_network ds s"
  shows "network_ok n ds c ps s"
  using assms
proof (induction rule: network_run.induct)
  case (more_steps s0 s1 s2)
  have "\<exists>ms. broadcasts s2 = broadcasts s1 @ ms"
    using more_steps.hyps(2) by cases (auto simp: edited_def delivered_def Let_def)
  then have "orderly_network ds s1" using more_steps.prems(3) by (auto dest: orderly_prefix)
  with more_steps step_keeps show ?case by blast
qed

lemmas network_keeps = run_keeps [OF _ opened_ok]

section \<open>What every state has\<close>

lemma log_single_valued:
  assumes d: "tree_inv d" and ms: "log_ok (rel_nodes d) ms"
  shows "single_valued (rel_links d \<union> links_of [] (set ms))"
proof -
  have keys: "snd x \<in> snd ` rel_nodes d" if "(x, u) \<in> rel_links d" for x u
    using that rel_node_link by blast
  have added: "\<exists>a. ADD a \<in> set ms \<and> (x, u) = ((na_file_path a, crdt_key (na_crdt a)),
      cr_value (crdt_relation (na_crdt a)), parent_key (crdt_relation (na_crdt a)))"
    if "(x, u) \<in> links_of [] (set ms)" for x u
    using that by (auto simp: links_of_def)
  have once: "a = b" if "ADD a \<in> set ms" "ADD b \<in> set ms" "crdt_key (na_crdt a) = crdt_key (na_crdt b)" for a b
  proof -
    have "distinct (added_keys ms)" using ms by (simp add: log_ok_def)
    with that show ?thesis
    proof (induction ms)
      case (Cons m ms)
      then show ?case by (cases m) (auto simp: added_keys_in)
    qed simp
  qed
  have disjoint: "set (added_keys ms) \<inter> snd ` rel_nodes d = {}" using ms unfolding log_ok_def traffic_ok_def by blast
  show ?thesis
  proof (rule single_valuedI)
    fix x u w assume xu: "(x, u) \<in> rel_links d \<union> links_of [] (set ms)"
      and xw: "(x, w) \<in> rel_links d \<union> links_of [] (set ms)"
    have fresh: "snd y \<notin> snd ` rel_nodes d" if "(y, v) \<in> links_of [] (set ms)" for y v
    proof -
      have "snd y \<in> set (added_keys ms)" using added [OF that] unfolding added_keys_in by auto
      then show ?thesis using disjoint by blast
    qed
    consider "(x, u) \<in> rel_links d" "(x, w) \<in> rel_links d"
      | "(x, u) \<in> links_of [] (set ms)" "(x, w) \<in> links_of [] (set ms)"
      using xu xw keys fresh by blast
    then show "u = w"
    proof cases
      case 1
      then show ?thesis using links_single by (auto simp: rel_links_def)
    next
      case 2
      then show ?thesis using added [OF 2(1)] added [OF 2(2)] once by auto
    qed
  qed
qed

text \<open>
  Told of the whole log: of every insertion by a message that says the same, and of every removal
  that the opening does not have.
\<close>

definition informed :: "(path \<times> key) set \<Rightarrow> network_op list \<Rightarrow> network_op set \<Rightarrow> bool" where
  "informed T ms M \<longleftrightarrow> links_of [] (set ms) \<subseteq> links_of [] M \<and>
     removal_targets [] (set ms) \<subseteq> T \<union> removal_targets [] M"

lemma informed_all: "set ms \<subseteq> M \<Longrightarrow> informed T ms M"
  unfolding informed_def links_of_def removal_targets_def by blast

text \<open>The content of a replica that was told of everything, said below the root.\<close>

lemma caught_up:
  assumes r: "replica_ok d c p ms M q" and d: "placed N c d" and ms: "traffic_ok N ms"
    and log: "orderly_log (rel_links d) (rel_tombs d) ms" and M: "informed (rel_tombs d) ms M"
    and single: "single_valued (rel_links d \<union> links_of [] (set ms))"
  shows "rel_nodes (tree q) = reachable [] N (set ms)"
    "rel_tombs (tree q) = rel_tombs d \<union> removal_targets [] (set ms)"
    "rel_links (tree q) = rel_links d \<union> links_of [] (set ms)" "pending_ops q = {}"
proof -
  let ?b = "dir_name d"
  note run = placed_orderly [OF d ms log]
  have q: "served ?b (links d) (nodes d) (tombs d) (universe ?b ms) M q" "network_worklist q = []"
    and sub: "M \<subseteq> set ms" using r by (simp_all add: replica_ok_def)
  have abs: "is_absolute ?b" "tree_inv d" using d by (simp_all add: placed_def)
  have plain: "\<forall>m \<in> set ms. plain_path (op_file m)" using ms by (simp add: traffic_ok_def plain_log_def)
  then have plainM: "\<forall>m \<in> M. plain_path (op_file m)" using sub by blast
  have told: "links_of ?b (set ms) \<subseteq> links_of ?b M" "removal_targets ?b (set ms) \<subseteq> tombs d \<union> removal_targets ?b M"
    using M shifted_tombs [OF abs(2)] unfolding informed_def links_of_shift [of ?b, OF abs(1) plain]
      links_of_shift [of ?b, OF abs(1) plainM] removal_targets_shift [of ?b, OF abs(1) plain]
      removal_targets_shift [of ?b, OF abs(1) plainM] by (blast, metis image_Un image_mono)
  have root: "dir_name (tree q) = ?b" using replica_facts(3) [OF r d ms] by (simp add: tree_root_def)
  have nodes: "nodes (tree q) = shift ?b ` reachable [] N (set ms)"
    using informed_nodes [OF run q sub told(1)] reachable_shift [OF abs(1) plain, of N] by (simp add: placed_nodes [OF d])
  then show rel: "rel_nodes (tree q) = reachable [] N (set ms)" by (simp add: rel_nodes_def root)
  have dep: "op_dep [] m \<in> reachable [] N (set ms)" if "m \<in> set ms" for m
    using ms that by (simp add: traffic_ok_def)
  have "removal_targets [] (set ms) \<subseteq> reachable [] N (set ms)"
    using dep by (auto simp: removal_targets_def)
  then have "removal_targets ?b (set ms) \<subseteq> nodes (tree q)"
    unfolding removal_targets_shift [of ?b "set ms", OF abs(1) plain] nodes by blast
  then have "tombs (tree q) = shift ?b ` (rel_tombs d \<union> removal_targets [] (set ms))"
    using informed_tombs [OF run q sub told(2)] removal_targets_shift [of ?b "set ms", OF abs(1) plain] shifted_tombs [OF abs(2)]
    by (auto simp: image_Un)
  then show "rel_tombs (tree q) = rel_tombs d \<union> removal_targets [] (set ms)"
    unfolding rel_tombs_def [of "tree q"] root by auto
  have all: "fst l \<in> reachable [] N (set ms)" if "l \<in> rel_links d \<union> links_of [] (set ms)" for l
    using that
  proof
    assume "l \<in> rel_links d"
    then have "fst l \<in> N" using d rel_node_link by (metis placed_def prod.collapse)
    then show ?thesis by (rule reach_old)
  next
    assume "l \<in> links_of [] (set ms)"
    then obtain a where a: "ADD a \<in> set ms" "crdt_key (na_crdt a) \<noteq> root"
      "fst l = (join [] (na_file_path a), crdt_key (na_crdt a))" by (auto simp: links_of_def)
    then show ?thesis using reach_new [OF a(1) dep [OF a(1)] a(2)] by simp
  qed
  have links: "links d \<union> links_of ?b (set ms) = shift_link ?b ` (rel_links d \<union> links_of [] (set ms))"
    unfolding links_of_shift [of ?b "set ms", OF abs(1) plain] image_Un using shifted_links [OF abs(2)] by simp
  then have "single_valued (links d \<union> links_of ?b (set ms))" using single by (simp add: single_valued_shift)
  from run_links [OF run q(1) this] have "links (tree q) = {l \<in> shift_link ?b ` (rel_links d \<union> links_of [] (set ms)).
      fst l \<in> shift ?b ` reachable [] N (set ms)}" unfolding links nodes .
  also have "\<dots> = shift_link ?b ` (rel_links d \<union> links_of [] (set ms))"
    using all by (force simp: shift_link_def)
  finally show "rel_links (tree q) = rel_links d \<union> links_of [] (set ms)"
    unfolding rel_links_def [of "tree q"] root by auto
  have inv: "queue_inv ?b (links d) (nodes d) (tombs d) (universe ?b ms) q" using q(1) by (simp add: served_def)
  have "op_dep ?b x \<in> nodes (tree q)" if x: "x \<in> universe ?b ms" for x
    using x
  proof (rule universe_cases)
    fix y assume y: "y \<in> set ms" "x = y \<or> x = localised ?b y"
    then have "op_dep ?b x = op_dep ?b y"
      using localised_simps(1) [OF abs(1) in_shar_plain [OF abs(1) bspec [OF plain y(1)]]] y(2) by auto
    also have "\<dots> = shift ?b (op_dep [] y)" by (rule op_dep_plain [OF abs(1) bspec [OF plain y(1)]])
    finally show ?thesis using dep [OF y(1)] nodes by simp
  qed
  then show "pending_ops q = {}"
    using pending_waits [OF q(2)] inv unfolding queue_inv_def by blast
qed

text \<open>A replica of a network that was told of the whole log, by gossip or by answers.\<close>

lemma informed_heard:
  assumes s: "network_ok n ds c ps s" and M: "informed (rel_tombs (ds 0)) (broadcasts s) (received s i)"
  shows "informed (rel_tombs (ds 0)) (traffic (rel_nodes (ds 0)) s) (heard (rel_nodes (ds 0)) i s)"
proof -
  let ?N = "rel_nodes (ds 0)"
  note says = network_traffic [OF s]
  have "x \<in> links_of [] (heard ?N i s)" if x: "x \<in> links_of [] (set (broadcasts s))" for x
  proof -
    obtain b where b: "ADD b \<in> set (broadcasts s)" "snd (fst x) = crdt_key (na_crdt b)"
      using x unfolding links_of_def by auto
    have "snd (fst x) \<in> set (added_keys (broadcasts s))" using b unfolding added_keys_in by metis
    then have new: "snd (fst x) \<notin> snd ` ?N"
      using network_okD(1) [OF s] unfolding log_ok_def traffic_ok_def by blast
    have "x \<in> links_of [] (received s i)" using x M by (auto simp: informed_def)
    then obtain a where a: "ADD a \<in> received s i" "crdt_key (na_crdt a) \<noteq> root"
      "x = ((na_file_path a, crdt_key (na_crdt a)), cr_value (crdt_relation (na_crdt a)),
        parent_key (crdt_relation (na_crdt a)))"
      unfolding links_of_def join_empty by blast
    then have "fresh_op ?N (ADD a)" using new unfolding fresh_op_def by (force simp: image_iff)
    then have "ADD a \<in> heard ?N i s" using a(1) by (simp add: heard_def)
    then show ?thesis using a(2,3) unfolding links_of_def join_empty by blast
  qed
  moreover have "removal_targets [] (received s i) \<subseteq> removal_targets [] (heard ?N i s)"
    unfolding removal_targets_def heard_def fresh_op_def by blast
  ultimately show ?thesis using M says(1,2) unfolding informed_def by blast
qed

lemma network_content:
  assumes s: "network_ok n ds c ps s" and alike: "alike n ds c ps" and log: "orderly_network ds s"
    and l: "l < n" "informed (rel_tombs (ds 0)) (broadcasts s) (received s l)"
  shows "rel_nodes (tree (replicas s l)) = reachable [] (rel_nodes (ds 0)) (set (broadcasts s))"
    "rel_tombs (tree (replicas s l)) = rel_tombs (ds 0) \<union> removal_targets [] (set (broadcasts s))"
    "rel_links (tree (replicas s l)) = rel_links (ds 0) \<union> links_of [] (set (broadcasts s))"
    "pending_ops (replicas s l) = {}"
proof -
  note says = network_traffic [OF s]
  have same: "rel_links (ds l) = rel_links (ds 0)" "rel_tombs (ds l) = rel_tombs (ds 0)"
    using alike l(1) unfolding alike_def same_content_def by blast+
  have "tree_inv (ds 0)" using alike l(1) unfolding alike_def by (metis not_gr_zero not_less_zero)
  from log_single_valued [OF this network_okD(1) [OF s]]
  have "single_valued (rel_links (ds l) \<union> links_of [] (set (traffic (rel_nodes (ds 0)) s)))"
    unfolding same says(1) .
  from caught_up [OF network_okD(3) [OF s l(1)] alike_placed [OF alike l(1)] says(5) _ _ this]
    says(6) [OF log] informed_heard [OF s l(2)]
  show "rel_nodes (tree (replicas s l)) = reachable [] (rel_nodes (ds 0)) (set (broadcasts s))"
    "rel_tombs (tree (replicas s l)) = rel_tombs (ds 0) \<union> removal_targets [] (set (broadcasts s))"
    "rel_links (tree (replicas s l)) = rel_links (ds 0) \<union> links_of [] (set (broadcasts s))"
    "pending_ops (replicas s l) = {}" unfolding same by (simp_all only: says(1,2,4))
qed

section \<open>An answer received\<close>

lemma receive_answers:
  assumes "alike n ds c ps" "i < n"
  shows "network_ok n ds c ps s \<Longrightarrow> orderly_network ds s \<Longrightarrow> set ms \<subseteq> set (answered s) \<Longrightarrow>
    \<exists>s'. receive_all ms (replicas s i) = Some (replicas s' i) \<and> network_ok n ds c ps s' \<and>
      broadcasts s' = broadcasts s \<and> received s' i = received s i \<union> set ms"
proof (induction ms arbitrary: s)
  case Nil
  then show ?case by (intro exI [of _ s]) simp
next
  case (Cons m ms)
  have "m \<in> set (broadcasts s) \<union> set (answered s)" using Cons.prems(3) by simp
  from receipt_step [OF Cons.prems(1) assms Cons.prems(2) this] obtain q' where
    q': "receive m (replicas s i) = Some q'" "network_ok n ds c ps (delivered i m q' s)" by blast
  let ?s = "delivered i m q' s"
  have "orderly_network ds ?s" "set ms \<subseteq> set (answered ?s)" using Cons.prems(2,3) by simp_all
  from Cons.IH [OF q'(2) this] obtain s' where "receive_all ms (replicas ?s i) = Some (replicas s' i)"
    "network_ok n ds c ps s'" "broadcasts s' = broadcasts s" "received s' i = received ?s i \<union> set ms" by auto
  then show ?case using q'(1) by (intro exI [of _ s']) (simp add: delivered_def)
qed

lemma answer_informs:
  assumes s: "network_ok n ds c ps s" and alike: "alike n ds c ps" and log: "orderly_network ds s"
    and j: "j < n" "informed (rel_tombs (ds 0)) (broadcasts s) (received s j)"
    and l: "lists_state l (queue_full_state (replicas s j))" and M: "set (to_network_ops l) \<subseteq> M"
  shows "informed (rel_tombs (ds 0)) (broadcasts s) M"
proof -
  let ?t = "tree (replicas s j)" and ?bs = "broadcasts s"
  note content = network_content [OF s alike log j]
  have inv: "tree_inv ?t"
    by (rule replica_facts(1) [OF network_okD(3) [OF s j(1)] alike_placed [OF alike j(1)] network_traffic(5) [OF s]])
  have "x \<in> links_of [] M" if x: "x \<in> links_of [] (set ?bs)" for x
  proof -
    obtain p k v par where xs: "x = ((p, k), v, par)" by (metis prod.collapse)
    have "k \<noteq> root" using x unfolding xs links_of_def by auto
    moreover have "((p, k), v, par) \<in> rel_links ?t" using x content(3) xs by simp
    ultimately have "x \<in> links_of [] (set (to_network_ops l))" unfolding xs by (intro answer_lists(1) [OF inv l])
    then show ?thesis using M unfolding links_of_def by blast
  qed
  moreover have "x \<in> removal_targets [] M" if x: "x \<in> removal_targets [] (set ?bs)" for x
  proof -
    obtain p k where xs: "x = (p, k)" by (metis prod.collapse)
    have k: "k \<noteq> root" using x unfolding xs removal_targets_def by (auto simp: op_dep_empty)
    have tomb: "(p, k) \<in> rel_tombs ?t" using x content(2) xs by simp
    then have "(p, k) \<in> rel_nodes ?t" using tombs_below by blast
    then obtain v par where "((p, k), v, par) \<in> rel_links ?t" using rel_node_link by (metis prod.collapse)
    from answer_lists(2) [OF inv l this k tomb] show ?thesis
      unfolding xs using M unfolding removal_targets_def by blast
  qed
  ultimately show ?thesis unfolding informed_def by blast
qed

text \<open>Asking a replica that was told of the whole log brings any other one level with it.\<close>

lemma answer_brings_level:
  assumes s: "network_ok n ds c ps s" and alike: "alike n ds c ps" and log: "orderly_network ds s"
    and i: "i < n" and j: "j < n" "informed (rel_tombs (ds 0)) (broadcasts s) (received s j)"
    and l: "lists_state l (queue_full_state (replicas s j))"
  shows "\<exists>q'. receive_all (to_network_ops l) (replicas s i) = Some q' \<and>
    same_content (tree q') (tree (replicas s j)) \<and>
    rel_links (tree q') = rel_links (ds 0) \<union> links_of [] (set (broadcasts s)) \<and> pending_ops q' = {}"
proof -
  let ?s = "s\<lparr>answered := answered s @ to_network_ops l\<rparr>"
  have "orderly_network ds ?s" "set (to_network_ops l) \<subseteq> set (answered ?s)" using log by simp_all
  from receive_answers [OF alike i answer_step [OF s alike j(1) l] this] obtain s' where
    s': "receive_all (to_network_ops l) (replicas s i) = Some (replicas s' i)" "network_ok n ds c ps s'"
      "broadcasts s' = broadcasts s" "received s' i = received s i \<union> set (to_network_ops l)" by auto
  have told: "informed (rel_tombs (ds 0)) (broadcasts s') (received s' i)"
    unfolding s'(3,4) by (rule answer_informs [OF s alike log j l]) simp
  have "orderly_network ds s'" using log s'(3) by simp
  note mine = network_content [OF s'(2) alike this i told, unfolded s'(3)]
    and theirs = network_content [OF s alike log j]
  show ?thesis using s'(1) mine theirs by (simp add: same_content_def)
qed

end
