(* ===== verification/OpenNetwork.thy ===== *)
theory OpenNetwork
  imports OpenQueue NetworkRuns
begin

text \<open>
  Instances that open the same files at different places: they start with the same content, so that
  what is known of a network of replicas holds of them.
\<close>

section \<open>Loading at two places\<close>

text \<open>Two lists of files with the same characters, at the same places below two roots.\<close>

definition moved_file :: "path \<Rightarrow> path \<Rightarrow> shar_file \<Rightarrow> shar_file \<Rightarrow> bool" where
  "moved_file p p' f g \<longleftrightarrow>
     (\<exists>rel. file_path f = p @ rel \<and> file_path g = p' @ rel \<and> characters f = characters g)"

abbreviation moved_files :: "path \<Rightarrow> path \<Rightarrow> shar_file list \<Rightarrow> shar_file list \<Rightarrow> bool" where
  "moved_files p p' \<equiv> list_all2 (moved_file p p')"

lemma moved_file_below: "moved_file (p @ r) (p' @ r) f g \<Longrightarrow> moved_file p p' f g"
  unfolding moved_file_def by (metis append.assoc)

lemma moved_files_below: "moved_files (p @ r) (p' @ r) fs gs \<Longrightarrow> moved_files p p' fs gs"
  by (erule list_all2_mono) (rule moved_file_below)

lemma SharFile_new_moved:
  assumes "unat c + length cs < 2 ^ 32"
  obtains f g where "SharFile_new (\<lambda>_. Inr cs) (p @ [name]) c = Some (Inr (f, c + of_nat (length cs)))"
    "SharFile_new (\<lambda>_. Inr cs) (p' @ [name]) c = Some (Inr (g, c + of_nat (length cs)))"
    "moved_file p p' f g"
proof -
  let ?chars = "chained [root \<mapsto> CrdtRelation_new 0 0 0] c 0 cs"
  have new: "\<exists>f. SharFile_new (\<lambda>_. Inr cs) x c = Some (Inr (f, c + of_nat (length cs))) \<and>
      file_path f = x \<and> characters f = ?chars" for x
    using SharFile_new_loaded [of "\<lambda>_. Inr cs" x cs c, OF refl assms] loaded_text(2) by blast
  from new [of "p @ [name]"] new [of "p' @ [name]"] that show ?thesis
    unfolding moved_file_def by metis
qed

lemma SharDirectory_new_moved:
  "readable l \<Longrightarrow> unat c + fs_size l < 2 ^ 32 \<Longrightarrow>
     \<exists>d d'. SharDirectory_new p l c = Some (Inr d, c + of_nat (fs_size l)) \<and>
       SharDirectory_new p' l c = Some (Inr d', c + of_nat (fs_size l)) \<and>
       moved_files p p' (all_files d) (all_files d')"
  "readable_entries es \<Longrightarrow> unat c + entries_size es < 2 ^ 32 \<Longrightarrow>
     moved_files p p' fs fs' \<Longrightarrow> moved_files p p' (dirs_files ds) (dirs_files ds') \<Longrightarrow>
     \<exists>d d'. load_entries p es c ds fs = Some (Inr d, c + of_nat (entries_size es)) \<and>
       load_entries p' es c ds' fs' = Some (Inr d', c + of_nat (entries_size es)) \<and>
       moved_files p p' (all_files d) (all_files d')"
proof (induction p l c and p es c ds fs arbitrary: p' and p' ds' fs' rule: SharDirectory_new_load_entries.induct)
  case (2 p es c)
  then show ?case by simp
next
  case (3 p c ds fs)
  then show ?case by (auto intro: list_all2_appendI)
next
  case (6 p name sub es c ds fs)
  let ?c = "c + of_nat (fs_size sub)"
  from 6(3,4) 6(1) [of "p' @ [name]"] obtain d d' where
    d: "SharDirectory_new (p @ [name]) sub c = Some (Inr d, ?c)"
      "SharDirectory_new (p' @ [name]) sub c = Some (Inr d', ?c)"
      "moved_files (p @ [name]) (p' @ [name]) (all_files d) (all_files d')" by auto
  have "moved_files p p' (dirs_files (ds @ [d])) (dirs_files (ds' @ [d']))"
    using 6(6) moved_files_below [OF d(3)] by (auto simp: dirs_files_eq intro: list_all2_appendI)
  moreover have "unat ?c + entries_size es < 2 ^ 32" using 6(4) by (simp add: unat_add_of_nat)
  ultimately have "\<exists>e e'. load_entries p es ?c (ds @ [d]) fs = Some (Inr e, ?c + of_nat (entries_size es)) \<and>
      load_entries p' es ?c (ds' @ [d']) fs' = Some (Inr e', ?c + of_nat (entries_size es)) \<and>
      moved_files p p' (all_files e) (all_files e')"
    using 6(2) [OF d(1) refl refl] 6(3,5) by simp
  then show ?case using d(1,2) by (simp add: add.assoc)
next
  case (7 p name contents es c ds fs)
  obtain cs where cs: "contents = Inr cs" using 7(2) by (cases contents) auto
  let ?c = "c + of_nat (length cs)"
  have "unat c + length cs < 2 ^ 32" using 7(3) cs by simp
  then obtain f g where f: "SharFile_new (\<lambda>_. contents) (p @ [name]) c = Some (Inr (f, ?c))"
    "SharFile_new (\<lambda>_. contents) (p' @ [name]) c = Some (Inr (g, ?c))" "moved_file p p' f g"
    unfolding cs by (rule SharFile_new_moved)
  have "moved_files p p' (fs @ [f]) (fs' @ [g])" using 7(4) f(3) by (auto intro: list_all2_appendI)
  moreover have "unat ?c + entries_size es < 2 ^ 32" using 7(3) cs by (simp add: unat_add_of_nat)
  ultimately have "\<exists>e e'. load_entries p es ?c ds (fs @ [f]) = Some (Inr e, ?c + of_nat (entries_size es)) \<and>
      load_entries p' es ?c ds' (fs' @ [g]) = Some (Inr e', ?c + of_nat (entries_size es)) \<and>
      moved_files p p' (all_files e) (all_files e')"
    using 7(1) [OF f(1) refl refl] 7(2,5) by simp
  then show ?case using f(1,2) cs by (simp add: add.assoc)
qed auto

lemma moved_files_lookup:
  "moved_files p p' fs gs \<Longrightarrow>
     map_option characters (map_of (map (\<lambda>f. (file_path f, f)) fs) (p @ rel)) =
     map_option characters (map_of (map (\<lambda>f. (file_path f, f)) gs) (p' @ rel))"
  by (induction rule: list_all2_induct) (auto simp: moved_file_def)

section \<open>Opening at many places\<close>

text \<open>No entry of the directory is named like the root directory or the current one.\<close>

fun plain_names :: "fs_dir \<Rightarrow> bool" where
  "plain_names (Unreadable e) = True"
| "plain_names (Listing es) \<longleftrightarrow> (\<forall>name \<in> set (file_names es @ dir_names es). name \<notin> {''/'', ''.''})"

lemma fs_texts_below:
  "(x, t) \<in> set (fs_texts p l) \<Longrightarrow> \<exists>rel. x = p @ rel"
  "(x, t) \<in> set (sub_texts p es) \<Longrightarrow> \<exists>name \<in> set (dir_names es). \<exists>rel. x = p @ name # rel"
proof (induction p l and p es rule: fs_texts_sub_texts.induct)
  case (2 p es)
  have "\<exists>rel. x = p @ rel" if "(x, t) \<in> set (own_texts p es)"
    using that by (induction p es rule: own_texts.induct) auto
  with 2 show ?case by fastforce
qed fastforce+

lemma own_texts_below: "(x, t) \<in> set (own_texts p es) \<Longrightarrow> \<exists>name \<in> set (file_names es). x = p @ [name]"
  by (induction p es rule: own_texts.induct) auto

lemma plain_texts:
  assumes "plain_names l" "(p @ rel, t) \<in> set (fs_texts p l)"
  shows "plain_path rel"
proof (cases l)
  case (Listing es)
  then consider "(p @ rel, t) \<in> set (own_texts p es)" | "(p @ rel, t) \<in> set (sub_texts p es)"
    using assms(2) by auto
  then obtain name rest where "rel = name # rest" "name \<in> set (file_names es @ dir_names es)"
    by cases (auto dest: own_texts_below fs_texts_below(2))
  then show ?thesis using assms(1) Listing by (simp add: plain_path_def)
qed (use assms(2) in simp)

lemma opened_placed:
  assumes l: "readable l" "fs_size l < 2 ^ 32" "names_ok p l" "plain_names l" "is_absolute p"
  obtains d where "SharQueue_new p l i = Some (Inr (queue_of d (of_nat (fs_size l)) i))"
    "placed (rel_nodes d) (of_nat (fs_size l)) d" "dir_name d = p"
    "map (\<lambda>f. (file_path f, text_of f)) (all_files d) = fs_texts p l"
proof -
  obtain q where q: "SharQueue_new p l i = Some (Inr q)" "q = queue_of (tree q) (counter q) i"
    "tree_inv (tree q)" "tree_root q = p" "ids_counted q" "unat (counter q) = fs_size l"
    "map (\<lambda>f. (file_path f, text_of f)) (all_files (tree q)) = fs_texts p l"
    using SharQueue_new_opens [OF l(1,3,2)] by blast
  have c: "counter q = of_nat (fs_size l)" by (simp flip: q(6))
  have p: "dir_name (tree q) = p" using q(4) by (simp add: tree_root_def)
  have "plain_path (fst x) \<and> fst (snd x) \<le> of_nat (fs_size l)" if x: "x \<in> rel_nodes (tree q)" for x
  proof
    have node: "shift p x \<in> nodes (tree q)" using x p by (simp add: rel_nodes_def)
    then obtain f where "lookup_file (tree q) (p @ fst x) = Some f" by (auto simp: nodes_def shift_def)
    then have f: "f \<in> set (all_files (tree q))" "file_path f = p @ fst x"
      using lookup_file_iff q(3) by (auto simp: tree_inv_def)
    have "(file_path f, text_of f) \<in> set (fs_texts p l)" unfolding q(7) [symmetric] using f(1) by simp
    then show "plain_path (fst x)" using plain_texts [OF l(4)] f(2) by simp
    show "fst (snd x) \<le> of_nat (fs_size l)" using q(5) node c by (auto simp: ids_counted_def)
  qed
  then have "placed (rel_nodes (tree q)) (of_nat (fs_size l)) (tree q)"
    using q(3) l(5) p by (simp add: placed_def)
  with that q(1,2,7) p c show ?thesis by metis
qed

text \<open>
  C19. The same start. Any number of instances open the same readable files, each at an absolute place of
  its own and with a peer id of its own. The operating system lists the files in the same order to
  all of them, which it need not; the files have fewer than \<open>2 ^ 32\<close> characters together; no two files
  and no two directories beside each other have the same name, no directory has the name of one above it, and no name is \<open>.\<close> or
  \<open>/\<close>. Then all succeed, hold the same content and the same counter, and show every file's text: they
  are a network of replicas at its start. In another order the same identities would be given to other
  characters.
\<close>

theorem openings_alike:
  assumes "readable l" "fs_size l < 2 ^ 32" "plain_names l" "inj_on ps {..<n}"
    and "\<And>i. i < n \<Longrightarrow> is_absolute (b i) \<and> names_ok (b i) l"
  shows "\<exists>ds. (\<forall>i < n. SharQueue_new (b i) l (ps i) = Some (Inr (replicas (opened ds (of_nat (fs_size l)) ps) i)) \<and>
      dir_name (ds i) = b i \<and> map (\<lambda>f. (file_path f, text_of f)) (all_files (ds i)) = fs_texts (b i) l) \<and>
    alike n ds (of_nat (fs_size l)) ps"
proof -
  let ?c = "of_nat (fs_size l) :: u32"
  define P where "P i d \<longleftrightarrow> SharQueue_new (b i) l (ps i) = Some (Inr (queue_of d ?c (ps i))) \<and>
      placed (rel_nodes d) ?c d \<and> dir_name d = b i \<and>
      map (\<lambda>f. (file_path f, text_of f)) (all_files d) = fs_texts (b i) l" for i d
  have "\<exists>d. P i d" if "i < n" for i
    using opened_placed [OF assms(1,2) _ assms(3), of "b i" "ps i"] assms(5) [OF that]
    unfolding P_def by blast
  then have "\<forall>i. \<exists>d. i < n \<longrightarrow> P i d" by blast
  from choice [OF this] obtain ds where P: "\<And>i. i < n \<Longrightarrow> P i (ds i)" by blast
  note ds = P [unfolded P_def]
  have same: "same_content (ds i) (ds 0)" if i: "i < n" for i
  proof (rule same_content_lookup)
    fix rel
    have zero: "0 < n" using i by simp
    obtain d e c where d: "SharDirectory_new (b i) l 0 = Some (Inr d, c)" "SharDirectory_new (b 0) l 0 = Some (Inr e, c)"
      "moved_files (b i) (b 0) (all_files d) (all_files e)"
      using SharDirectory_new_moved(1) [OF assms(1), of 0 "b i" "b 0"] assms(2) by auto
    have "d = ds i" "e = ds 0" using ds [OF i] ds [OF zero] d(1,2) by (auto simp: SharQueue_new_def queue_of_def)
    then show "map_option characters (lookup_file (ds i) (dir_name (ds i) @ rel)) =
        map_option characters (lookup_file (ds 0) (dir_name (ds 0) @ rel))"
      using moved_files_lookup [OF d(3), of rel] ds [OF i] ds [OF zero] by (simp add: lookup_file_def)
  qed
  have "alike n ds ?c ps"
    unfolding alike_def using assms(4) ds [unfolded placed_def] same by blast
  then show ?thesis using ds by (intro exI [of _ ds]) (simp add: opened_def)
qed

theorem openings_alike_witness:
  "\<exists>ds. alike 2 ds 2 (\<lambda>i. of_nat i) \<and> map (\<lambda>f. (file_path f, text_of f)) (all_files (ds 1)) =
     [([''/'', ''q'', ''t''], [97, 98])]"
proof -
  let ?l = "Listing [File_entry ''t'' (Inr [97, 98])]"
  let ?b = "\<lambda>i :: nat. if i = 0 then [''/'', ''p''] else [''/'', ''q'']"
  have "inj_on (\<lambda>i. of_nat i :: u32) {..<2}" by (auto simp: inj_on_def less_2_cases_iff)
  from openings_alike [of ?l "\<lambda>i. of_nat i" 2 ?b, OF _ _ _ this] show ?thesis
    by (fastforce simp: is_absolute_def fresh_name_def)
qed

end
