(* ===== verification/Encoding.thy ===== *)
theory Encoding
  imports Callbacks
begin

text \<open>
  Serialisation as the source uses it: \<open>serialize\<close>, \<open>deserialize\<close>, \<open>to_bytes\<close> and \<open>from_bytes\<close> of
  \<open>src/types.rs\<close>, with the panics of their \<open>expect\<close>s. The JSON library is a parameter; what it is relied
  on to do is \<open>serde_contract\<close>: it encodes exactly the values it can represent, and decodes what it
  encoded. A path is representable when its components are UTF-8, which the standard library's check
  decides; the characters of a component are its bytes.
\<close>

section \<open>UTF-8\<close>

definition continuation :: "nat \<Rightarrow> bool" where
  "continuation b \<longleftrightarrow> 128 \<le> b \<and> b \<le> 191"

text \<open>\<open>std::str::from_utf8\<close>: no overlong forms, no surrogates, nothing above \<open>U+10FFFF\<close>.\<close>

fun valid_utf8 :: "nat list \<Rightarrow> bool" where
  "valid_utf8 [] = True"
| "valid_utf8 (b # bs) =
     (if b < 128 then valid_utf8 bs
      else case bs of
          [] \<Rightarrow> False
        | c # cs \<Rightarrow>
            if 194 \<le> b \<and> b \<le> 223 then continuation c \<and> valid_utf8 cs
            else case cs of
                [] \<Rightarrow> False
              | d # ds \<Rightarrow>
                  if 224 \<le> b \<and> b \<le> 239
                  then continuation c \<and> (b = 224 \<longrightarrow> 160 \<le> c) \<and> (b = 237 \<longrightarrow> c \<le> 159) \<and>
                    continuation d \<and> valid_utf8 ds
                  else case ds of
                      [] \<Rightarrow> False
                    | e # es \<Rightarrow>
                        240 \<le> b \<and> b \<le> 244 \<and> continuation c \<and> (b = 240 \<longrightarrow> 144 \<le> c) \<and>
                        (b = 244 \<longrightarrow> c \<le> 143) \<and> continuation d \<and> continuation e \<and> valid_utf8 es)"

definition utf8_path :: "path \<Rightarrow> bool" where
  "utf8_path p \<longleftrightarrow> (\<forall>c \<in> set p. valid_utf8 (map of_char c))"

lemma utf8_path_append [simp]: "utf8_path (p @ q) \<longleftrightarrow> utf8_path p \<and> utf8_path q"
  by (auto simp: utf8_path_def)

section \<open>Encoding and decoding\<close>

text \<open>\<open>Result::expect\<close>.\<close>

definition expect :: "'e + 'a \<Rightarrow> 'a option" where
  "expect r = (case r of Inl e \<Rightarrow> None | Inr x \<Rightarrow> Some x)"

lemma expect_simps [simp]: "expect (Inl e) = None" "expect (Inr x) = Some x"
  by (simp_all add: expect_def)

definition NetworkOp_serialize :: "(network_op \<Rightarrow> string + 'b) \<Rightarrow> network_op \<Rightarrow> 'b option" where
  "NetworkOp_serialize to_vec op = expect (to_vec op)"

definition NetworkOp_deserialize :: "('b \<Rightarrow> string + network_op) \<Rightarrow> 'b \<Rightarrow> string + network_op" where
  "NetworkOp_deserialize from_slice bytes = from_slice bytes"

section \<open>What the library is relied on to do\<close>

definition serde_contract :: "('m \<Rightarrow> bool) \<Rightarrow> ('m \<Rightarrow> string + 'b) \<Rightarrow> ('b \<Rightarrow> string + 'm) \<Rightarrow> bool" where
  "serde_contract encodable to_vec from_slice \<longleftrightarrow>
     (\<forall>m. if encodable m then \<exists>b. to_vec m = Inr b \<and> from_slice b = Inr m else \<exists>e. to_vec m = Inl e)"

definition op_encodable :: "network_op \<Rightarrow> bool" where
  "op_encodable m \<longleftrightarrow> utf8_path (op_file m)"

definition ops_encodable :: "network_op list \<Rightarrow> bool" where
  "ops_encodable ms \<longleftrightarrow> (\<forall>m \<in> set ms. op_encodable m)"

lemma serde_encodes:
  assumes "serde_contract encodable to_vec from_slice" "encodable m"
  obtains b where "to_vec m = Inr b" "from_slice b = Inr m"
  using assms unfolding serde_contract_def by meson

lemma serde_refuses:
  assumes "serde_contract encodable to_vec from_slice" "\<not> encodable m"
  obtains e where "to_vec m = Inl e"
  using assms unfolding serde_contract_def by meson

end
