(* ===== verification/Session.thy ===== *)
theory Session
  imports Encoding
begin

text \<open>
  A running instance: \<open>src/main.rs\<close> (the handlers of the IDE's socket, the gossip subscriber, the
  discovery of peers) and both sides of a state request of \<open>src/state_request.rs\<close>. The peers, the
  gossip library, the HTTP proxy and the JSON codec are arguments. Every step is one call that holds
  the queue's lock, so steps of different tasks do not overlap.
\<close>

record server =
  wrap :: queue_wrap
  out :: outside

text \<open>A call on the wrapped queue, with the callbacks of the events it adds to the log.\<close>

definition with_callbacks ::
  "(nat \<Rightarrow> bool) \<Rightarrow> (queue_wrap \<Rightarrow> queue_wrap option) \<Rightarrow> server \<Rightarrow> server option"
where
  "with_callbacks ok call srv =
     Option.bind (call (wrap srv)) (\<lambda>w'.
       map_option (\<lambda>o'. \<lparr>wrap = w', out = o'\<rparr>)
         (callbacks ok (drop (length (events (queue (wrap srv)))) (events (queue w'))) (out srv)))"

lemma with_callbacks_delivers:
  assumes "\<And>n. \<exists>m \<ge> n. ok m" "listening (out srv)" "call (wrap srv) = Some w'"
    and "es = drop (length (events (queue (wrap srv)))) (events (queue w'))"
  shows "\<exists>k. with_callbacks ok call srv = Some \<lparr>wrap = w', out = (out srv)\<lparr>attempts := k,
    emitted := emitted (out srv) @ concat (map to_ide es),
    channel := channel (out srv) @ concat (map to_peers es)\<rparr>\<rparr>"
  using callbacks_deliver_all [where ok = ok, OF assms(1,2), of es] assms(3,4)
  by (auto simp: with_callbacks_def)

section \<open>The socket of the IDE\<close>

text \<open>
  The handlers of \<open>ide-add\<close> and \<open>remove\<close>. \<open>add_ide_operation\<close> has no error to return, so the branch
  that emits \<open>ide-add-failed\<close> has no counterpart.
\<close>

definition on_ide_add :: "(nat \<Rightarrow> bool) \<Rightarrow> ide_add \<Rightarrow> server \<Rightarrow> server option" where
  "on_ide_add ok data = with_callbacks ok (wrap_add_ide_operation data)"

definition on_remove :: "(nat \<Rightarrow> bool) \<Rightarrow> remove \<Rightarrow> server \<Rightarrow> server option" where
  "on_remove ok data = with_callbacks ok (wrap_remove_ide_operation data)"

text \<open>
  The contents of every file, each emitted once, whether or not it succeeds. \<open>json!\<close> panics on a path
  that is not UTF-8.
\<close>

fun emit_states ::
  "(nat \<Rightarrow> bool) \<Rightarrow> (path \<times> (key \<times> uchar) list list) list \<Rightarrow> outside \<Rightarrow> outside option"
where
  "emit_states ok [] s = Some s"
| "emit_states ok ((p, rows) # xs) s =
     (if \<not> utf8_path p then None
      else emit_states ok xs
        (s\<lparr>attempts := Suc (attempts s),
           emitted := emitted s @ (if ok (attempts s) then [Msg_initial_state p rows] else [])\<rparr>))"

text \<open>
  The handler of \<open>join\<close>. The random id and what the file system shows are arguments. An error of
  \<open>new\<close> is only logged.
\<close>

definition on_join ::
  "(nat \<Rightarrow> bool) \<Rightarrow> u32 \<Rightarrow> fs_dir \<Rightarrow> connect \<Rightarrow> server \<Rightarrow> server option"
where
  "on_join ok this_id listing data srv =
     (if cn_local data then
        Option.bind
          (with_callbacks ok (\<lambda>w. map_option fst (QueueWrap_new (cn_path data) listing this_id w))
            (srv\<lparr>out := (out srv)\<lparr>rooms := [''local'']\<rparr>\<rparr>))
          (\<lambda>srv'. Option.bind (wrap_identities (wrap srv')) (\<lambda>xs.
             map_option (\<lambda>o'. srv'\<lparr>out := o'\<rparr>) (emit_states ok xs (out srv'))))
      else Some (srv\<lparr>out := (out srv)\<lparr>rooms := [''network'']\<rparr>\<rparr>))"

section \<open>State requests\<close>

text \<open>
  \<open>accept\<close>: the stream that answers a request; \<open>None\<close> is the panic of its \<open>expect\<close>. \<open>order\<close> is the
  order in which the maps of the state are iterated.
\<close>

definition accept ::
  "((path \<times> (key \<rightharpoonup> crdt_relation)) list \<Rightarrow> state_listing) \<Rightarrow>
     (network_op list \<Rightarrow> string + byte list) \<Rightarrow> server \<Rightarrow> byte list option"
where
  "accept order to_vec srv =
     map_option send_state (expect (to_vec (to_network_ops (order (wrap_full_state (wrap srv))))))"

text \<open>What becomes of dialling a peer: no connection, no stream, or the bytes it sends.\<close>

datatype dial =
    No_connection string
  | No_stream string
  | Answer "byte list"

text \<open>The library's part: decoding, printing of a number, the text of a read error.\<close>

record codec =
  cd_from_slice :: "byte list \<Rightarrow> string + network_op list"
  cd_show :: "nat \<Rightarrow> string"
  cd_io_error :: string

definition dial_state :: "codec \<Rightarrow> dial \<Rightarrow> error + network_op list" where
  "dial_state cd d =
     (case d of
        No_connection e \<Rightarrow> Inl (Generic (''couldn't connect to peer: '' @ e))
      | No_stream e \<Rightarrow> Inl (Generic (''couldn't open stream: '' @ e))
      | Answer stream \<Rightarrow> receive_state (cd_from_slice cd) (cd_show cd) (cd_io_error cd) stream)"

fun deliver_all :: "(nat \<Rightarrow> bool) \<Rightarrow> network_op list \<Rightarrow> server \<Rightarrow> server option" where
  "deliver_all ok [] srv = Some srv"
| "deliver_all ok (op # ops) srv =
     Option.bind (with_callbacks ok (wrap_receive op) srv) (deliver_all ok ops)"

definition request_state ::
  "(nat \<Rightarrow> bool) \<Rightarrow> codec \<Rightarrow> dial \<Rightarrow> server \<Rightarrow> (server \<times> (error + unit)) option"
where
  "request_state ok cd d srv =
     (case dial_state cd d of
        Inl e \<Rightarrow> Some (srv, Inl e)
      | Inr state \<Rightarrow> map_option (\<lambda>srv'. (srv', Inr ())) (deliver_all ok state srv))"

section \<open>Discovery\<close>

text \<open>
  The loop over the shuffled peers: \<open>remove(0)\<close> panics on an empty list. The subtraction is on a
  positive number.
\<close>

fun discovery_loop ::
  "(nat \<Rightarrow> bool) \<Rightarrow> codec \<Rightarrow> dial list \<Rightarrow> nat \<Rightarrow> server \<Rightarrow> server option"
where
  "discovery_loop ok cd peers 0 srv = Some srv"
| "discovery_loop ok cd [] (Suc n) srv = None"
| "discovery_loop ok cd (random_peer # peers) (Suc n) srv =
     (case request_state ok cd random_peer srv of
        None \<Rightarrow> None
      | Some (srv', Inr _) \<Rightarrow> discovery_loop ok cd peers n srv'
      | Some (srv', Inl e) \<Rightarrow> discovery_loop ok cd peers (min (Suc n) (length peers)) srv')"

definition discover :: "(nat \<Rightarrow> bool) \<Rightarrow> codec \<Rightarrow> dial list \<Rightarrow> server \<Rightarrow> server option" where
  "discover ok cd discovery_peers srv =
     discovery_loop ok cd discovery_peers (min 3 (length discovery_peers)) srv"

section \<open>Gossip\<close>

datatype 'b gossip_event =
    Received 'b
  | Neighbor_up dial
  | Other_event
  | Receiver_error string

text \<open>
  The bytes of a message are opaque here, of a type of their own: only the codec looks into them.
  The subscriber: a message that does not decode is the panic of its \<open>expect\<close>.
\<close>

fun gossip_subscriber ::
  "(nat \<Rightarrow> bool) \<Rightarrow> codec \<Rightarrow> ('b \<Rightarrow> string + network_op) \<Rightarrow> 'b gossip_event list \<Rightarrow> server \<Rightarrow>
     server option"
where
  "gossip_subscriber ok cd from_slice [] srv = Some srv"
| "gossip_subscriber ok cd from_slice (Received msg # es) srv =
     (case NetworkOp_deserialize from_slice msg of
        Inl e \<Rightarrow> None
      | Inr data \<Rightarrow>
          Option.bind (with_callbacks ok (wrap_receive data) srv)
            (gossip_subscriber ok cd from_slice es))"
| "gossip_subscriber ok cd from_slice (Neighbor_up d # es) srv =
     Option.bind (map_option fst (request_state ok cd d srv)) (gossip_subscriber ok cd from_slice es)"
| "gossip_subscriber ok cd from_slice (Other_event # es) srv =
     gossip_subscriber ok cd from_slice es srv"
| "gossip_subscriber ok cd from_slice (Receiver_error e # es) srv =
     gossip_subscriber ok cd from_slice es srv"

text \<open>
  The loop that broadcasts what the callbacks sent, message by message. A message that cannot be
  encoded panics: the task ends, and with it the receiving end of the channel and what it held.
\<close>

fun broadcast_from :: "(network_op \<Rightarrow> string + 'b) \<Rightarrow> network_op list \<Rightarrow> 'b list \<times> bool" where
  "broadcast_from to_vec [] = ([], True)"
| "broadcast_from to_vec (m # ms) =
     (case NetworkOp_serialize to_vec m of
        None \<Rightarrow> ([], False)
      | Some b \<Rightarrow> (let (bs, alive) = broadcast_from to_vec ms in (b # bs, alive)))"

definition broadcast_loop :: "(network_op \<Rightarrow> string + 'b) \<Rightarrow> server \<Rightarrow> server \<times> 'b list" where
  "broadcast_loop to_vec srv =
     (let (bs, alive) = broadcast_from to_vec (channel (out srv)) in
      (srv\<lparr>out := (out srv)\<lparr>channel := [], listening := listening (out srv) \<and> alive\<rparr>\<rparr>, bs))"

end
