(* ===== verification/SessionProperties.thy ===== *)
theory SessionProperties
  imports Session Propagation QueueProperties
begin

text \<open>
  The properties of a running instance: callbacks are delivered when sockets recover, discovery asks
  peers until three have answered, and what one user types another one sees.
\<close>

section \<open>Delivery\<close>

text \<open>
  C25. When every socket works again and again and the consumer of the channel listens, the
  callbacks of any log return: every event reaches the IDE once, in the order of the log, and every
  broadcast the channel. A callback that emits returns exactly when a later attempt succeeds: on a
  socket that is gone it retries for ever.
\<close>

theorem callbacks_deliver:
  assumes "\<And>n. \<exists>m \<ge> n. ok m" "listening s"
  shows "(\<exists>n. callbacks ok es s = Some (s\<lparr>attempts := n, emitted := emitted s @ concat (map to_ide es),
      channel := channel s @ concat (map to_peers es)\<rparr>)) \<and>
    (\<forall>ok' s' op. callback ok' (Network_added op) s' \<noteq> None \<longleftrightarrow> (\<exists>m \<ge> attempts s'. ok' m))"
proof
  show "\<exists>n. callbacks ok es s = Some (s\<lparr>attempts := n, emitted := emitted s @ concat (map to_ide es),
      channel := channel s @ concat (map to_peers es)\<rparr>)"
    by (rule callbacks_deliver_all [OF assms])
  show "\<forall>ok' s' op. callback ok' (Network_added op) s' \<noteq> None \<longleftrightarrow> (\<exists>m \<ge> attempts s'. ok' m)"
    using emit_until_ok_returns_iff by (simp add: callback_def do_network_add_def emit_message_def)
qed

definition quiet_outside :: outside where
  "quiet_outside = \<lparr>attempts = 0, emitted = [], channel = [], listening = True, rooms = [''local'']\<rparr>"

lemma every_third: "\<exists>m \<ge> n. m mod 3 = (2 :: nat)"
  by (rule exI [of _ "3 * n + 2"]) presburger

theorem callbacks_deliver_witness:
  "\<exists>n. callbacks (\<lambda>n. n mod 3 = 2)
     [Network_removed (Remove_new [] 1 1 0), Ide_removed (Remove_new [] 2 1 0)] quiet_outside =
     Some (quiet_outside\<lparr>attempts := n, emitted := [Msg_network_remove (Remove_new [] 1 1 0)],
       channel := [REMOVE (Remove_new [] 2 1 0)]\<rparr>)"
  using callbacks_deliver [of "\<lambda>n. n mod 3 = 2" quiet_outside
      "[Network_removed (Remove_new [] 1 1 0), Ide_removed (Remove_new [] 2 1 0)]", OF every_third]
  by (auto simp: quiet_outside_def to_ide_def to_peers_def)

section \<open>Discovery\<close>

text \<open>The states of the peers that answer, in the order in which they are asked.\<close>

definition answers :: "codec \<Rightarrow> dial list \<Rightarrow> network_op list list" where
  "answers cd ds = concat (map (\<lambda>d. case dial_state cd d of Inl e \<Rightarrow> [] | Inr ops \<Rightarrow> [ops]) ds)"

lemma length_answers: "length (answers cd ds) \<le> length ds"
  by (induction ds) (auto simp: answers_def split: sum.splits)

lemma answers_Cons [simp]:
  "answers cd (d # ds) =
     (case dial_state cd d of Inl e \<Rightarrow> answers cd ds | Inr ops \<Rightarrow> ops # answers cd ds)"
  "answers cd [] = []"
  by (auto simp: answers_def split: sum.splits)

abbreviation buffered :: "network_op list \<Rightarrow> server \<Rightarrow> server" where
  "buffered ops srv \<equiv> srv\<lparr>wrap := (wrap srv)\<lparr>buffer := buffer (wrap srv) @ ops\<rparr>\<rparr>"

lemma deliver_all_closed:
  "\<not> queue_initialized (wrap srv) \<Longrightarrow> deliver_all ok ops srv = Some (buffered ops srv)"
proof (induction ops arbitrary: srv)
  case (Cons op ops)
  have "with_callbacks ok (wrap_receive op) srv = Some (buffered [op] srv)"
    using wrap_receive_closed [OF Cons.prems] by (simp add: with_callbacks_def)
  then show ?case using Cons by simp
qed simp

lemma request_state_closed:
  "\<not> queue_initialized (wrap srv) \<Longrightarrow> request_state ok cd d srv =
     (case dial_state cd d of Inl e \<Rightarrow> Some (srv, Inl e) | Inr ops \<Rightarrow> Some (buffered ops srv, Inr ()))"
  by (auto simp: request_state_def deliver_all_closed split: sum.splits)

lemma discovery_loop_closed:
  "n \<le> length ds \<Longrightarrow> \<not> queue_initialized (wrap srv) \<Longrightarrow>
     discovery_loop ok cd ds n srv = Some (buffered (concat (take n (answers cd ds))) srv)"
proof (induction ds arbitrary: n srv)
  case (Cons d ds)
  show ?case
  proof (cases n)
    case (Suc k)
    show ?thesis
    proof (cases "dial_state cd d")
      case (Inl e)
      have "min (Suc k) (length ds) \<le> length ds" by simp
      from Cons.IH [OF this Cons.prems(2)]
      show ?thesis
        using Inl Suc Cons.prems(2) length_answers [of cd ds] by (simp add: request_state_closed min_def)
    next
      case (Inr ops)
      have "k \<le> length ds" "\<not> queue_initialized (wrap (buffered ops srv))"
        using Cons.prems Suc by simp_all
      from Cons.IH [OF this] show ?thesis
        using Inr Suc Cons.prems(2) by (simp add: request_state_closed)
    qed
  qed simp
qed simp

lemma discover_closed:
  "\<not> queue_initialized (wrap srv) \<Longrightarrow>
     discover ok cd ds srv = Some (buffered (concat (take 3 (answers cd ds))) srv)"
  using discovery_loop_closed [of "min 3 (length ds)" ds srv ok cd] length_answers [of cd ds]
  by (simp add: discover_def min_def)

text \<open>
  Discovery. Before the IDE opens a directory, the loop over the peers never removes
  from an empty list, ends, and takes over the states of the first three peers that answer, in the
  order in which they were asked: fewer when fewer answer, and none from a peer that cannot be
  reached, breaks off, claims an oversized state, or sends what does not decode.
\<close>

theorem discovery_hydrates:
  assumes "\<not> queue_initialized (wrap srv)"
  shows "discover ok cd ds srv = Some (buffered (concat (take 3 (answers cd ds))) srv)"
  by (rule discover_closed [OF assms])

definition closed_server :: server where
  "closed_server = \<lparr>wrap = QueueWrap_default, out = quiet_outside\<rparr>"

definition toy_codec :: codec where
  "toy_codec = \<lparr>cd_from_slice = (\<lambda>bs. if bs = [7] then Inr [m1] else Inl ''eof''),
     cd_show = (\<lambda>_. []), cd_io_error = []\<rparr>"

theorem discovery_hydrates_witness:
  "map_option (\<lambda>s. buffer (wrap s)) (discover (\<lambda>n. n mod 3 = 2) toy_codec
     [No_connection ''off'', Answer [0, 0, 0, 0, 0, 0, 0, 1, 7], Answer [0, 0]] closed_server) = Some [m1]"
  using discovery_hydrates [of closed_server "\<lambda>n. n mod 3 = 2" toy_codec
      "[No_connection ''off'', Answer [0, 0, 0, 0, 0, 0, 0, 1, 7], Answer [0, 0]]"]
  by (simp add: closed_server_def QueueWrap_default_def dial_state_def receive_state_def
      read_exact_def from_be_bytes_def MAX_STATE_BYTES_def toy_codec_def)

end
