(* ===== verification/PeerProperties.thy ===== *)
theory PeerProperties
  imports SessionProperties Hydration
begin

text \<open>
  Two instances. What is typed at one of them goes through its callbacks, the broadcast and the
  gossip subscriber of the other one, and both show the same text; and any sequence of such edits,
  at either side, is the same sequence of edits of one text.
\<close>

section \<open>Samples\<close>

text \<open>The sample directory at another place.\<close>

definition other_file :: shar_file where
  "other_file = sample_file\<lparr>file_path := [''/'', ''q'', ''t'']\<rparr>"

definition other_queue :: shar_queue where
  "other_queue = queue_of (SharDirectory [''/'', ''q''] [] [other_file]) 4 2"

lemma other_queue_inv: "tree_inv (tree other_queue)"
proof -
  have "wf_file other_file" using sample_wf by (simp add: other_file_def wf_file_def)
  then show ?thesis
    by (simp add: other_queue_def queue_of_def tree_inv_def fresh_name_def)
      (simp add: other_file_def)
qed

lemma other_queue_simps:
  "tree_root other_queue = [''/'', ''q'']" "counter other_queue = 4"
  "lookup_file (tree other_queue) [''/'', ''q'', ''t''] = Some other_file"
  by (simp_all add: other_queue_def queue_of_def tree_root_def lookup_file_def other_file_def)

lemma other_nodes:
  "nodes (tree other_queue) = {[''/'', ''q'', ''t'']} \<times> dom (characters sample_file)"
  by (auto simp: nodes_def other_queue_def queue_of_def lookup_file_def other_file_def split: if_splits)

lemma samples_in_step: "in_step [''t''] [97, 10, 99] (sample_queue, other_queue)"
proof -
  have "ids_counted other_queue"
    using sample_counted
    unfolding ids_counted_def other_nodes other_queue_simps sample_queue_simps sample_nodes
    by (auto simp: sample_dom)
  moreover have "idle sample_queue" "idle other_queue"
    by (simp_all add: idle_def calm_def sample_queue_def other_queue_def queue_of_def)
  ultimately have "shares [''t''] sample_queue sample_file" "shares [''t''] other_queue other_file"
    using sample_dir_inv sample_counted other_queue_inv other_queue_simps
    by (simp_all add: shares_def sample_queue_simps sample_dir_lookup is_absolute_def)
  moreover have "shar_file_eq sample_file other_file" "text_of sample_file = [97, 10, 99]"
    by (simp_all add: shar_file_eq_def other_file_def flat_def text_of_def char_at_def)
  ultimately show ?thesis unfolding in_step_def fst_conv snd_conv by blast
qed

section \<open>Taking turns\<close>

text \<open>
  Two replicas edit one text. Two idle replicas hold equal copies of a file; users on
  either side type and delete at indices that are in range, and each edit's broadcast reaches the
  other side before the next edit. Every call returns, and in the end both copies are equal and
  both texts are what the edits make of the one text, whatever the line hints and tags.
\<close>

theorem turns_follow_text:
  assumes "in_step rel t (q, r)" "rel = [] \<or> hd rel \<notin> {''/'', ''.''}" "edits_fit es t"
    and "top_id (q, r) + length es < 2 ^ 32"
  shows "\<exists>q' r' f g. take_turns rel es (q, r) = Some (q', r') \<and>
    lookup_file (tree q') (tree_root q' @ rel) = Some f \<and>
    lookup_file (tree r') (tree_root r' @ rel) = Some g \<and> shar_file_eq f g \<and>
    text_of f = fold (\<lambda>x. edit_text (snd x)) es t \<and> text_of g = text_of f"
proof -
  obtain q' r' where "take_turns rel es (q, r) = Some (q', r')"
    "in_step rel (fold (\<lambda>x. edit_text (snd x)) es t) (q', r')"
    using turns_in_step [OF assms(2,1,3,4)] by (metis surj_pair)
  moreover from this(2) obtain f g where "shares rel q' f" "shares rel r' g" "shar_file_eq f g"
    "text_of f = fold (\<lambda>x. edit_text (snd x)) es t" by (auto simp: in_step_def)
  ultimately show ?thesis using same_file(3) [of f g] unfolding shares_def by auto
qed

theorem turns_follow_text_witness:
  "\<exists>q' r' g. take_turns [''t''] [(True, Type_char 3 120 0 0), (False, Delete_char 1 7)]
       (sample_queue, other_queue) = Some (q', r') \<and>
     lookup_file (tree r') (tree_root r' @ [''t'']) = Some g \<and> text_of g = [97, 99, 120]"
proof -
  have "edits_fit [(True, Type_char 3 120 0 0), (False, Delete_char 1 7)] [97, 10, 99]"
    "top_id (sample_queue, other_queue) +
       length [(True, Type_char 3 120 0 0), (False, Delete_char 1 7)] < 2 ^ 32"
    by (simp_all add: top_id_def sample_queue_simps other_queue_simps)
  from turns_follow_text [OF samples_in_step _ this] show ?thesis by fastforce
qed

section \<open>The whole way of a keystroke\<close>

text \<open>
  C4. A keystroke reaches the peer. An IDE asks its instance to insert a character behind
  an element of a file; the callbacks send the IDE the confirmation and the completion and put one
  message on the channel; the broadcast serialises it; the peer's subscriber decodes it, inserts the
  character and tells its own IDE, with the path of its own copy and the same element before. Both
  copies are equal again, with the character in place. The codec encodes what has a path in UTF-8,
  as this one, and decodes what it encoded; sockets recover.
\<close>

theorem keystroke_reaches_peer:
  assumes "in_step rel t (queue (wrap a), queue (wrap b))" "rel = [] \<or> hd rel \<notin> {''/'', ''.''}"
    and "i \<le> length t" "top_id (queue (wrap a), queue (wrap b)) + 1 < 2 ^ 32"
    and "lookup_file (tree (queue (wrap a))) (tree_root (queue (wrap a)) @ rel) = Some f"
    and "\<And>n. \<exists>m \<ge> n. ok m" "listening (out a)" "listening (out b)" "channel (out a) = []"
    and "queue_initialized (wrap b)" "serde_contract op_encodable to_vec from_slice" "utf8_path rel"
  shows "\<exists>a1 a2 b' msgs m. on_ide_add ok
      (IdeAdd_new (tree_root (queue (wrap a)) @ rel) (Some (fst (flat f ! i))) (Some (snd (flat f ! i)))
        None v tag hint) a = Some a1 \<and>
    broadcast_loop to_vec a1 = (a2, msgs) \<and> listening (out a2) \<and>
    gossip_subscriber ok cd from_slice (map Received msgs) b = Some b' \<and>
    in_step rel (take i t @ v # drop i t) (queue (wrap a2), queue (wrap b')) \<and>
    emitted (out b') = emitted (out b) @ [Msg_network_add m] \<and>
    na_file_path m = tree_root (queue (wrap b)) @ rel \<and>
    parent_key (crdt_relation (na_crdt m)) = flat f ! i \<and> cr_value (crdt_relation (na_crdt m)) = v"
proof -
  let ?q = "queue (wrap a)" and ?r = "queue (wrap b)"
  let ?op = "IdeAdd_new (tree_root ?q @ rel) (Some (fst (flat f ! i))) (Some (snd (flat f ! i))) None v tag hint"
  obtain g where f: "shares rel ?q f" "shares rel ?r g" "shar_file_eq f g" "text_of f = t"
    using assms(1,5) by (auto simp: in_step_def shares_def)
  have bound: "unat (counter ?q) + 1 < 2 ^ 32" using assms(4) by (simp add: top_id_def max_def split: if_splits)
  obtain q' r' f' g' c n where t: "add_ide_operation ?op ?q = Some q'"
    "events q' = events ?q @ [Ide_add_confirmed (IdeAddConfirmed_new tag (counter ?q + 1) (peer ?q)),
       Ide_added (NetworkAdd_new rel c n) (NetworkAdd_new rel c n)]"
    "add_network_operation (NetworkAdd_new rel c n) ?r = Some r'"
    "events r' = events ?r @ [Network_added (NetworkAdd_new (tree_root ?r @ rel) c n)]"
    "shares rel q' f'" "shares rel r' g'" "shar_file_eq f' g'"
    "text_of f' = take i t @ v # drop i t"
    "parent_key (crdt_relation c) = flat f ! i" "cr_value (crdt_relation c) = v"
    by (rule typing_transfer [OF f(1-3) assms(2) assms(3) [folded f(4)] bound refl]) (simp add: f(4))
  let ?m = "NetworkAdd_new rel c n" and ?m' = "NetworkAdd_new (tree_root ?r @ rel) c n"
  have "wrap_add_ide_operation ?op (wrap a) = Some ((wrap a)\<lparr>queue := q'\<rparr>)"
    using t(1) by (simp add: wrap_add_ide_operation_def)
  from with_callbacks_delivers [where ok = ok and call = "wrap_add_ide_operation ?op", OF assms(6,7) this refl]
  obtain a1 where a1: "on_ide_add ok ?op a = Some a1" "queue (wrap a1) = q'" "channel (out a1) = [ADD ?m]"
    "listening (out a1)" using t(2) assms(7,9) by (auto simp: on_ide_add_def to_peers_def)
  let ?a2 = "a1\<lparr>out := (out a1)\<lparr>channel := []\<rparr>\<rparr>"
  have "op_encodable (ADD ?m)" using assms(12) by (simp add: op_encodable_def)
  then obtain y where y: "to_vec (ADD ?m) = Inr y" "from_slice y = Inr (ADD ?m)"
    by (rule serde_encodes [OF assms(11)])
  have cast: "broadcast_loop to_vec a1 = (?a2, [y])" "listening (out ?a2)"
    using a1(3,4) y(1) by (simp_all add: broadcast_loop_def NetworkOp_serialize_def)
  have "wrap_receive (ADD ?m) (wrap b) = Some ((wrap b)\<lparr>queue := r'\<rparr>)"
    using t(3) wrap_receive_open [OF assms(10), of "ADD ?m"] by (simp add: receive_def)
  from with_callbacks_delivers [where ok = ok and call = "wrap_receive (ADD ?m)", OF assms(6,8) this refl]
  obtain b' where b': "with_callbacks ok (wrap_receive (ADD ?m)) b = Some b'" "queue (wrap b') = r'"
    "emitted (out b') = emitted (out b) @ [Msg_network_add ?m']"
    using t(4) by (auto simp: to_ide_def)
  then have "gossip_subscriber ok cd from_slice (map Received [y]) b = Some b'"
    using y(2) by (simp add: NetworkOp_deserialize_def)
  moreover have "in_step rel (take i t @ v # drop i t) (queue (wrap ?a2), queue (wrap b'))"
    unfolding in_step_def using t(5-8) a1(2) b'(2) by auto
  ultimately show ?thesis using a1(1) cast b'(3) t(9,10)
    by (intro exI [of _ a1] exI [of _ ?a2] exI [of _ b'] exI [of _ "[y]"]
        exI [of _ ?m']) simp
qed

definition server_of :: "shar_queue \<Rightarrow> server" where
  "server_of q = \<lparr>wrap = \<lparr>queue = q, queue_initialized = True, buffer = []\<rparr>, out = quiet_outside\<rparr>"

text \<open>A codec that keeps a message as it is, when it can be encoded.\<close>

definition plain_codec :: "network_op \<Rightarrow> string + network_op" where
  "plain_codec m = (if op_encodable m then Inr m else Inl ''invalid'')"

lemma plain_codec_contract: "serde_contract op_encodable plain_codec Inr"
  by (simp add: serde_contract_def plain_codec_def)

theorem keystroke_reaches_peer_witness:
  "\<exists>a1 a2 b' msgs m. on_ide_add (\<lambda>n. n mod 3 = 2)
      (IdeAdd_new [''/'', ''p'', ''t''] (Some 4) (Some 0) None 122 9 0) (server_of sample_queue) = Some a1 \<and>
    broadcast_loop plain_codec a1 = (a2, msgs) \<and>
    gossip_subscriber (\<lambda>n. n mod 3 = 2) toy_codec Inr (map Received msgs) (server_of other_queue) = Some b' \<and>
    in_step [''t''] [97, 10, 99, 122] (queue (wrap a2), queue (wrap b')) \<and>
    emitted (out b') = [Msg_network_add m] \<and> na_file_path m = [''/'', ''q'', ''t'']"
proof -
  let ?a = "server_of sample_queue" and ?b = "server_of other_queue"
  have s: "queue (wrap ?a) = sample_queue" "queue (wrap ?b) = other_queue" "listening (out ?a)"
    "listening (out ?b)" "channel (out ?a) = []" "emitted (out ?b) = []" "queue_initialized (wrap ?b)"
    by (simp_all add: server_of_def quiet_outside_def)
  have step: "in_step [''t''] [97, 10, 99] (queue (wrap ?a), queue (wrap ?b))"
    using samples_in_step s(1,2) by simp
  have top: "top_id (queue (wrap ?a), queue (wrap ?b)) + 1 < 2 ^ 32"
    by (simp add: s(1,2) top_id_def sample_queue_simps other_queue_simps)
  have look: "lookup_file (tree (queue (wrap ?a))) (tree_root (queue (wrap ?a)) @ [''t'']) = Some sample_file"
    by (simp add: s(1) sample_queue_simps sample_dir_lookup)
  have par: "flat sample_file ! 3 = (4, 0)" by (simp add: flat_def)
  have utf8: "utf8_path [''t'']" by (simp add: utf8_path_def)
  from keystroke_reaches_peer [where to_vec = plain_codec and from_slice = Inr and i = 3 and v = 122
      and ok = "\<lambda>n. n mod 3 = 2", OF step _ _ top look every_third s(3-5,7) plain_codec_contract
      utf8, of 9 0 toy_codec]
  show ?thesis
    unfolding s(1,2,6) par sample_queue_simps other_queue_simps by (simp, blast)
qed

section \<open>Catching up\<close>





text \<open>A sender with the text \<open>ac\<close>, the \<open>c\<close> below a removed \<open>b\<close>, and a receiver whose file is empty.\<close>

definition leaf_chars :: "key \<rightharpoonup> crdt_relation" where
  "leaf_chars = [root \<mapsto> CrdtRelation_new 0 0 0, (1, 0) \<mapsto> CrdtRelation_new 97 0 0,
     (2, 0) \<mapsto> (CrdtRelation_new 98 1 0)\<lparr>cr_deleted := True\<rparr>, (3, 0) \<mapsto> CrdtRelation_new 99 2 0]"

definition leaf_file :: shar_file where
  "leaf_file = \<lparr>file_path = [''/'', ''p'', ''t''], characters = leaf_chars, projection = [[root, (1, 0), (3, 0)]]\<rparr>"






lemma leaf_file_simps [simp]:
  "characters leaf_file = leaf_chars" "file_path leaf_file = [''/'', ''p'', ''t'']"
  by (simp_all add: leaf_file_def)






end
