(* ===== verification/NetworkProperties.thy ===== *)
theory NetworkProperties
  imports OpenNetwork PeerProperties
begin

text \<open>
  The properties of a network of replicas, in every state it can reach: identities are given once, no
  operation of a user and no message stops a replica, replicas that were told of the whole log hold
  the same content, and one that missed something catches up by asking for a state.
\<close>

section \<open>A sample network\<close>

text \<open>The sample directory at two places.\<close>

definition sample_dirs :: "nat \<Rightarrow> shar_directory" where
  "sample_dirs i = (if i = 0 then sample_dir else tree other_queue)"

definition sample_peers :: "nat \<Rightarrow> u32" where
  "sample_peers i = (if i = 0 then 1 else 2)"

lemma sample_dirs_lookup:
  "lookup_file (sample_dirs 0) (dir_name (sample_dirs 0) @ rel) = (if rel = [''t''] then Some sample_file else None)"
  "lookup_file (sample_dirs (Suc i)) (dir_name (sample_dirs (Suc i)) @ rel) = (if rel = [''t''] then Some other_file else None)"
  by (auto simp: sample_dirs_def sample_dir_lookup)
    (auto simp: other_queue_def queue_of_def lookup_file_def other_file_def)

lemma sample_rel_nodes: "rel_nodes (sample_dirs 0) = {[''t'']} \<times> {root, (1, 0), (2, 0), (3, 0), (4, 0)}"
proof -
  have "x \<in> rel_nodes (sample_dirs 0) \<longleftrightarrow> ([''/'', ''p''] @ fst x, snd x) \<in> nodes sample_dir" for x
    by (simp add: rel_nodes_def sample_dirs_def shift_def)
  then have "x \<in> rel_nodes (sample_dirs 0) \<longleftrightarrow>
      fst x = [''t''] \<and> snd x \<in> {root, (1, 0), (2, 0), (3, 0), (4, 0)}" for x
    unfolding sample_nodes mem_Times_iff fst_conv snd_conv by simp
  then show ?thesis unfolding set_eq_iff mem_Times_iff singleton_iff by blast
qed

lemma sample_alike: "alike 2 sample_dirs 4 sample_peers"
proof -
  have "same_content (sample_dirs i) (sample_dirs 0)" for i
    by (cases i) (auto intro!: same_content_lookup simp: sample_dirs_lookup other_file_def)
  moreover from this have "rel_nodes (sample_dirs i) = rel_nodes (sample_dirs 0)" for i
    by (simp add: same_content_def)
  moreover have "tree_inv (sample_dirs i)" "is_absolute (dir_name (sample_dirs i))" for i
    using sample_dir_inv other_queue_inv by (auto simp: sample_dirs_def is_absolute_def other_queue_def queue_of_def)
  moreover have "plain_path (fst x) \<and> fst (snd x) \<le> 4" if "x \<in> rel_nodes (sample_dirs 0)" for x
    using that unfolding sample_rel_nodes by (auto simp: plain_path_def word_le_nat_alt)
  moreover have "inj_on sample_peers {..<2}" by (auto simp: inj_on_def sample_peers_def less_2_cases_iff)
  ultimately show ?thesis unfolding alike_def by metis
qed

text \<open>
  A run: the first replica types \<open>z\<close> behind \<open>c\<close> while the second one deletes \<open>c\<close>, and then each
  receives what the other did.
\<close>

lemma sample_log_orderly:
  assumes "na_file_path a = [''t'']" "crdt_key (na_crdt a) = (5, 1)"
    "parent_key (crdt_relation (na_crdt a)) = (4, 0)" "cr_value (crdt_relation (na_crdt a)) = 122"
    and "rm_file_path x = [''t'']" "rm_key x = (4, 0)"
  shows "orderly_log (rel_links (sample_dirs 0)) (rel_tombs (sample_dirs 0)) [ADD a, REMOVE x]"
proof -
  have tombs: "rel_tombs (sample_dirs 0) = {([''t''], (2, 0))}"
    by (auto simp: rel_tombs_def sample_dirs_def sample_tombs shift_def)
  have link: "v = 99 \<and> par = (3, 0)" if "(([''t''], (4, 0)), v, par) \<in> rel_links (sample_dirs 0)" for v par
    using that by (auto simp: rel_links_def sample_dirs_def links_iff sample_dir_lookup)
  have "\<not> sunk (rel_links (sample_dirs 0) \<union> links_of [] (set [ADD a, REMOVE x]))
      (rel_tombs (sample_dirs 0) \<union> removal_targets [] (set [ADD a, REMOVE x])) ([''t''], (4, 0))"
    by (rule not_sunk_below) (use assms in \<open>auto simp: tombs dest!: link\<close>)
  then show ?thesis using assms(1,3,4) by (simp add: orderly_log_def accepts_def is_line_break_def)
qed

text \<open>Before the last message: the first replica has everything, the second one lacks the insertion.\<close>

lemma sample_half_run:
  "\<exists>s m. network_run 2 (opened sample_dirs 4 sample_peers) s \<and> orderly_network sample_dirs s \<and>
     network_ok 2 sample_dirs 4 sample_peers s \<and> length (broadcasts s) = 2 \<and>
     set (broadcasts s) \<subseteq> received s 0 \<and> m \<in> set (broadcasts s) \<and> m \<notin> received s 1 \<and>
     set (broadcasts s) \<subseteq> insert m (received s 1)"
proof -
  define s0 where "s0 = opened sample_dirs 4 sample_peers"
  define op where "op = IdeAdd_new [''/'', ''p'', ''t''] (Some 4) (Some 0) None 122 9 0"
  define del where "del = Remove_new [''/'', ''q'', ''t''] 4 0 0"
  have two: "(0::nat) < 2" "(1::nat) < 2" by simp_all
  have ok0: "network_ok 2 sample_dirs 4 sample_peers s0" unfolding s0_def by (rule opened_ok [OF sample_alike])
  have r0: "replicas s0 0 = sample_queue" "replicas s0 1 = other_queue" "broadcasts s0 = []" "received s0 = (\<lambda>_. {})"
    by (simp_all add: s0_def opened_def sample_dirs_def sample_peers_def sample_queue_def other_queue_def queue_of_def)
  have flat: "flat sample_file = [root, (1, 0), (3, 0), (4, 0)]" "flat other_file = [root, (1, 0), (3, 0), (4, 0)]"
    by (simp_all add: flat_def other_file_def)
  have op: "unat (counter (replicas s0 0)) + 1 < 2 ^ 32"
    "lookup_file (tree (replicas s0 0)) (tree_root (replicas s0 0) @ [''t'']) = Some sample_file"
    "3 < length (flat sample_file)" "op = IdeAdd_new (tree_root (replicas s0 0) @ [''t''])
      (Some (fst (flat sample_file ! 3))) (Some (snd (flat sample_file ! 3))) None 122 9 0"
    by (simp_all add: r0 flat sample_queue_simps sample_dir_lookup op_def)
  from typing_step [OF ok0 sample_alike _ op] r0 flat obtain q' a where
    a: "add_ide_operation op (replicas s0 0) = Some q'" "sent_since (replicas s0 0) q' = [ADD a]"
      "na_file_path a = [''t'']" "na_crdt a = typed_crdt op (4, 0) sample_queue"
      "network_ok 2 sample_dirs 4 sample_peers (edited 0 q' s0)" "broadcasts (edited 0 q' s0) = [ADD a]" by auto
  define s1 where "s1 = edited 0 q' s0"
  have step1: "network_step 2 s0 s1"
    unfolding s1_def by (rule types_char [OF _ op(1-3) a(1) [unfolded op(4)]]) simp
  have r1: "replicas s1 1 = other_queue" "received s1 0 = {ADD a}" "received s1 1 = {}"
    using r0 a(2) by (simp_all add: s1_def edited_def Let_def)
  have del: "lookup_file (tree (replicas s1 1)) (tree_root (replicas s1 1) @ [''t'']) = Some other_file"
    "Suc 2 < length (flat other_file)" "del = Remove_new (tree_root (replicas s1 1) @ [''t''])
      (fst (flat other_file ! Suc 2)) (snd (flat other_file ! Suc 2)) 0"
    unfolding r1(1) flat(2) by (simp_all add: other_queue_simps del_def)
  from deletion_step [OF a(5) [folded s1_def] sample_alike _ del] a(6) obtain p' x where
    x: "remove_ide_operation del (replicas s1 1) = Some p'" "sent_since (replicas s1 1) p' = [REMOVE x]"
      "x = del\<lparr>rm_file_path := [''t'']\<rparr>" "network_ok 2 sample_dirs 4 sample_peers (edited 1 p' s1)"
      "broadcasts (edited 1 p' s1) = [ADD a, REMOVE x]" by (auto simp: s1_def)
  define s2 where "s2 = edited 1 p' s1"
  have step2: "network_step 2 s1 s2"
    unfolding s2_def by (rule deletes_char [OF _ del(1,2) x(1) [unfolded del(3)]]) simp
  have r2: "received s2 0 = {ADD a}" "received s2 1 = {REMOVE x}"
    using r1 x(2) by (simp_all add: s2_def edited_def Let_def)
  have log: "orderly_log (rel_links (sample_dirs 0)) (rel_tombs (sample_dirs 0)) [ADD a, REMOVE x]"
    by (rule sample_log_orderly)
      (use a(3,4) x(3) in \<open>simp_all add: typed_crdt_def op_def IdeAdd_new_def del_def Remove_new_def rm_key_def
        sample_queue_simps\<close>)
  have s2: "network_ok 2 sample_dirs 4 sample_peers s2" "orderly_network sample_dirs s2"
    "REMOVE x \<in> set (broadcasts s2)" using x(4,5) log by (simp_all add: s2_def)
  obtain q2 where q2: "receive (REMOVE x) (replicas s2 0) = Some q2"
    "network_ok 2 sample_dirs 4 sample_peers (delivered 0 (REMOVE x) q2 s2)"
    using receipt_step [OF s2(1) sample_alike two(1) s2(2)] s2(3) by blast
  define s3 where "s3 = delivered 0 (REMOVE x) q2 s2"
  have s3: "network_ok 2 sample_dirs 4 sample_peers s3" "orderly_network sample_dirs s3"
    "ADD a \<in> set (broadcasts s3)" using q2(2) s2(2) x(5) by (simp_all add: s3_def s2_def)
  have step3: "network_step 2 s2 s3" unfolding s3_def by (rule receives [OF two(1) _ q2(1)]) (use s2(3) in simp)
  have "network_run 2 s0 s3"
    by (rule more_steps [OF more_steps [OF more_steps [OF no_steps step1] step2] step3])
  moreover have "received s3 0 = {REMOVE x, ADD a}" "received s3 1 = {REMOVE x}"
    using r2 by (simp_all add: delivered_def s3_def)
  moreover have "broadcasts s3 = [ADD a, REMOVE x]" using x(5) by (simp add: s3_def s2_def)
  ultimately show ?thesis
    using s3(1,2) unfolding s0_def by (intro exI [of _ s3] exI [of _ "ADD a"]) simp
qed

lemma sample_network_run:
  "\<exists>s. network_run 2 (opened sample_dirs 4 sample_peers) s \<and> orderly_network sample_dirs s \<and>
     set (broadcasts s) \<subseteq> received s 0 \<and> set (broadcasts s) \<subseteq> received s 1 \<and>
     length (broadcasts s) = 2"
proof -
  obtain s m where s: "network_run 2 (opened sample_dirs 4 sample_peers) s" "orderly_network sample_dirs s"
    "network_ok 2 sample_dirs 4 sample_peers s" "length (broadcasts s) = 2" "set (broadcasts s) \<subseteq> received s 0"
    "m \<in> set (broadcasts s)" "set (broadcasts s) \<subseteq> insert m (received s 1)"
    using sample_half_run by blast
  have two: "(1::nat) < 2" and m: "m \<in> set (broadcasts s) \<union> set (answered s)" using s(6) by simp_all
  obtain q where q: "receive m (replicas s 1) = Some q"
    using receipt_step [OF s(3) sample_alike two s(2) m] by blast
  have "network_run 2 (opened sample_dirs 4 sample_peers) (delivered 1 m q s)"
    by (rule more_steps [OF s(1) receives [OF two m q]])
  then show ?thesis
    using s(2,4,5,7) by (intro exI [of _ "delivered 1 m q s"]) (simp add: delivered_def)
qed

section \<open>Properties\<close>

text \<open>
  C2. Convergence on orderly logs. Any number of replicas open the same content; their users type and
  delete at any time, any of them may answer with its whole state, and messages of the log and of the
  answers arrive anywhere in any order and any number of times. The log of the state is assumed to be
  orderly: it has no line break whose parent is removed, in the opening or by any message of the log,
  earlier or later, and no insertion whose parent is removed and has no live ancestor but the sentinel.
  Then two replicas that were told of the whole log, each insertion by itself or by an answer with the
  same character, hold the same characters in the same files, each with the same value and the same
  parent, and the same tombstones: those of the opening and exactly those of the log; and nothing waits
  at them. The order in which they show the characters may differ. A log where \<open>x\<close>, a line break behind
  it, and the deletion of \<open>x\<close> were sent is not orderly: the line break may arrive after the deletion,
  and then calls can panic (\<open>break_below_tombstone_panics\<close>).
\<close>

theorem network_converges:
  assumes "alike n ds c ps" "network_run n (opened ds c ps) s"
    and "orderly_log (rel_links (ds 0)) (rel_tombs (ds 0)) (broadcasts s)" "i < n" "j < n"
    and "informed (rel_tombs (ds 0)) (broadcasts s) (received s i)"
    and "informed (rel_tombs (ds 0)) (broadcasts s) (received s j)"
  shows "same_content (tree (replicas s i)) (tree (replicas s j)) \<and>
    rel_links (tree (replicas s i)) = rel_links (ds 0) \<union> links_of [] (set (broadcasts s)) \<and>
    rel_tombs (tree (replicas s i)) = rel_tombs (ds 0) \<union> removal_targets [] (set (broadcasts s)) \<and>
    pending_ops (replicas s i) = {}"
proof -
  note content = network_content [OF network_keeps [OF assms(2,1,1,3)] assms(1,3)]
  show ?thesis using content [OF assms(4,6)] content [OF assms(5,7)] by (simp add: same_content_def)
qed

theorem network_converges_witness:
  "\<exists>s. network_run 2 (opened sample_dirs 4 sample_peers) s \<and> length (broadcasts s) = 2 \<and>
     same_content (tree (replicas s 0)) (tree (replicas s 1))"
proof -
  obtain s where s: "network_run 2 (opened sample_dirs 4 sample_peers) s" "orderly_network sample_dirs s"
    "set (broadcasts s) \<subseteq> received s 0" "set (broadcasts s) \<subseteq> received s 1" "length (broadcasts s) = 2"
    using sample_network_run by blast
  have "(0::nat) < 2" "(1::nat) < 2" by simp_all
  from network_converges [OF sample_alike s(1,2) this informed_all [OF s(3)] informed_all [OF s(4)]] s(1,5) show ?thesis by blast
qed

text \<open>
  C3. A latecomer catches up, when the log is orderly as in the previous property: no line break whose
  parent any message removes, nothing whose removed ancestors lead up to the sentinel. Whatever of the log
  a replica of such a network has not received, and whatever waits at it, asking a replica that was told
  of the whole log for its state brings it level: the replay of the answer, in whatever order its maps
  are iterated, ends; the replica then holds the same characters in the same files, with the same
  values and parents, and the same tombstones, its own additions included; and nothing waits at it any
  more.
\<close>

theorem latecomer_catches_up:
  assumes "alike n ds c ps" "network_run n (opened ds c ps) s"
    and "orderly_log (rel_links (ds 0)) (rel_tombs (ds 0)) (broadcasts s)" "i < n" "j < n"
    and "informed (rel_tombs (ds 0)) (broadcasts s) (received s j)"
    and "lists_state l (queue_full_state (replicas s j))"
  shows "\<exists>q'. replay (to_network_ops l) (replicas s i) = Some q' \<and>
    same_content (tree q') (tree (replicas s j)) \<and>
    rel_links (tree q') = rel_links (ds 0) \<union> links_of [] (set (broadcasts s)) \<and> pending_ops q' = {}"
  using answer_brings_level [OF network_keeps [OF assms(2,1,1,3)] assms(1,3-7)] by (simp add: replay_receive_all)

theorem latecomer_catches_up_witness:
  "\<exists>s l q'. network_run 2 (opened sample_dirs 4 sample_peers) s \<and> \<not> set (broadcasts s) \<subseteq> received s 1 \<and>
     replay (to_network_ops l) (replicas s 1) = Some q' \<and> same_content (tree q') (tree (replicas s 0))"
proof -
  obtain s m where s: "network_run 2 (opened sample_dirs 4 sample_peers) s" "orderly_network sample_dirs s"
    "network_ok 2 sample_dirs 4 sample_peers s" "set (broadcasts s) \<subseteq> received s 0"
    "m \<in> set (broadcasts s)" "m \<notin> received s 1"
    using sample_half_run by blast
  have two: "(1::nat) < 2" "(0::nat) < 2" by simp_all
  have "tree_inv (tree (replicas s 0))"
    by (rule replica_facts(1) [OF network_okD(3) [OF s(3) two(2)] alike_placed [OF sample_alike two(2)]
          network_traffic(5) [OF s(3)]])
  then obtain l where "lists_state l (queue_full_state (replicas s 0))" using state_listed by blast
  from latecomer_catches_up [OF sample_alike s(1,2) two informed_all [OF s(4)] this] s(1,5,6)
  show ?thesis by blast
qed

text \<open>
  C16. Identities. In every state of such a network whose log is orderly (no line break whose parent any
  message removes, nothing whose removed ancestors lead up to the sentinel), no two insertions of the
  log have the same identity, whichever replicas they come from, and none has that of the sentinel or of
  a character of the opening; every message depends on a character of the opening or one that the log
  inserts; and every replica's tree is well-formed, with its ids up to its counter.
\<close>

theorem network_identities:
  assumes "alike n ds c ps" "network_run n (opened ds c ps) s"
    and "orderly_log (rel_links (ds 0)) (rel_tombs (ds 0)) (broadcasts s)"
  shows "distinct (added_keys (broadcasts s)) \<and>
    set (added_keys (broadcasts s)) \<inter> insert root (snd ` rel_nodes (ds 0)) = {} \<and>
    (\<forall>m \<in> set (broadcasts s). op_dep [] m \<in> reachable [] (rel_nodes (ds 0)) (set (broadcasts s))) \<and>
    (\<forall>i < n. tree_inv (tree (replicas s i)) \<and> ids_counted (replicas s i))"
proof -
  note s = network_keeps [OF assms(2,1,1,3)]
  have "tree_inv (tree (replicas s i)) \<and> ids_counted (replicas s i)" if i: "i < n" for i
    using replica_facts(1,2) [OF network_okD(3) [OF s i] alike_placed [OF assms(1) i] network_traffic(5) [OF s]]
    by simp
  with network_okD(1) [OF s] show ?thesis unfolding log_ok_def traffic_ok_def by blast
qed

theorem network_identities_witness:
  "\<exists>s. network_run 2 (opened sample_dirs 4 sample_peers) s \<and> length (broadcasts s) = 2 \<and>
     distinct (added_keys (broadcasts s))"
proof -
  obtain s where s: "network_run 2 (opened sample_dirs 4 sample_peers) s" "orderly_network sample_dirs s"
    "length (broadcasts s) = 2"
    using sample_network_run by blast
  from network_identities [OF sample_alike s(1,2)] s(1,3) show ?thesis by blast
qed

text \<open>
  C8. No replica gets stuck on an orderly log. In every state of such a network whose log is orderly (no
  line break whose parent any message removes, nothing whose removed ancestors lead up to the sentinel)
  these calls return: each message of the log and of the answers, at each replica, whether it came
  before or not; what a user types behind an element that a file shows, with ids left, which appears
  right there in the user's own copy; and what a user deletes, which disappears from it.
\<close>

theorem network_never_stuck:
  assumes "alike n ds c ps" "network_run n (opened ds c ps) s"
    and "orderly_log (rel_links (ds 0)) (rel_tombs (ds 0)) (broadcasts s)" "i < n"
  shows "(\<forall>m \<in> set (broadcasts s) \<union> set (answered s). \<exists>q'. receive m (replicas s i) = Some q') \<and>
    (\<forall>rel f j v tag hint.
       lookup_file (tree (replicas s i)) (tree_root (replicas s i) @ rel) = Some f \<and> j < length (flat f) \<and>
       unat (counter (replicas s i)) + 1 < 2 ^ 32 \<longrightarrow>
       (\<exists>q' f'. add_ide_operation (IdeAdd_new (tree_root (replicas s i) @ rel) (Some (fst (flat f ! j)))
           (Some (snd (flat f ! j))) None v tag hint) (replicas s i) = Some q' \<and>
         lookup_file (tree q') (tree_root (replicas s i) @ rel) = Some f' \<and>
         text_of f' = take j (text_of f) @ v # drop j (text_of f))) \<and>
    (\<forall>rel f j hint.
       lookup_file (tree (replicas s i)) (tree_root (replicas s i) @ rel) = Some f \<and> Suc j < length (flat f) \<longrightarrow>
       (\<exists>q' f'. remove_ide_operation (Remove_new (tree_root (replicas s i) @ rel) (fst (flat f ! Suc j))
           (snd (flat f ! Suc j)) hint) (replicas s i) = Some q' \<and>
         lookup_file (tree q') (tree_root (replicas s i) @ rel) = Some f' \<and>
         text_of f' = take j (text_of f) @ drop (Suc j) (text_of f)))"
proof -
  let ?q = "replicas s i"
  note s = network_keeps [OF assms(2,1,1,3)]
  note q = replica_facts(1,2) [OF network_okD(3) [OF s assms(4)] alike_placed [OF assms(1,4)] network_traffic(5) [OF s]]
  have calm: "calm ?q" "ide_remove_callback ?q"
    using network_okD(3) [OF s assms(4)] by (simp_all add: replica_ok_def calm_def)
  have "\<exists>q'. receive m ?q = Some q'" if "m \<in> set (broadcasts s) \<union> set (answered s)" for m
    using receipt_step [OF s assms(1,4,3) that] by blast
  moreover have "\<exists>q' f'. add_ide_operation (IdeAdd_new (tree_root ?q @ rel) (Some (fst (flat f ! j)))
        (Some (snd (flat f ! j))) None v tag hint) ?q = Some q' \<and>
      lookup_file (tree q') (tree_root ?q @ rel) = Some f' \<and>
      text_of f' = take j (text_of f) @ v # drop j (text_of f)"
    if f: "lookup_file (tree ?q) (tree_root ?q @ rel) = Some f" "j < length (flat f)"
      "unat (counter ?q) + 1 < 2 ^ 32" for rel f j v tag hint
  proof -
    let ?op = "IdeAdd_new (tree_root ?q @ rel) (Some (fst (flat f ! j))) (Some (snd (flat f ! j))) None v tag hint"
    have op: "ia_file_path ?op = tree_root ?q @ rel" "ia_parent_id ?op = Some (fst (flat f ! j))"
      "ia_parent_peer ?op = Some (snd (flat f ! j))" "ia_val ?op = v" by (simp_all add: IdeAdd_new_def)
    from add_ide_typed [OF q f(3) calm_quiet [OF calm(1)] f(1) op(1-3) f(2) refl] show ?thesis
      unfolding op(4) by (elim exE conjE) (intro exI conjI; assumption?; simp)
  qed
  moreover have "\<exists>q' f'. remove_ide_operation (Remove_new (tree_root ?q @ rel) (fst (flat f ! Suc j))
        (snd (flat f ! Suc j)) hint) ?q = Some q' \<and>
      lookup_file (tree q') (tree_root ?q @ rel) = Some f' \<and>
      text_of f' = take j (text_of f) @ drop (Suc j) (text_of f)"
    if f: "lookup_file (tree ?q) (tree_root ?q @ rel) = Some f" "Suc j < length (flat f)" for rel f j hint
  proof -
    let ?op = "Remove_new (tree_root ?q @ rel) (fst (flat f ! Suc j)) (snd (flat f ! Suc j)) hint"
    have op: "rm_file_path ?op = tree_root ?q @ rel" "flat f ! Suc j = rm_key ?op" by simp_all
    from remove_ide_done [OF q calm(2) f(1) op(1) f(2) op(2)] show ?thesis
      by (elim exE conjE) (intro exI conjI; assumption?; simp)
  qed
  ultimately show ?thesis by blast
qed

theorem network_never_stuck_witness:
  "\<exists>s. network_run 2 (opened sample_dirs 4 sample_peers) s \<and> length (broadcasts s) = 2 \<and>
     (\<forall>m \<in> set (broadcasts s). \<exists>q'. receive m (replicas s 1) = Some q')"
proof -
  obtain s where s: "network_run 2 (opened sample_dirs 4 sample_peers) s" "orderly_network sample_dirs s"
    "length (broadcasts s) = 2"
    using sample_network_run by blast
  have "(1::nat) < 2" by simp
  from network_never_stuck [OF sample_alike s(1,2) this, THEN conjunct1] have
    "\<exists>q'. receive m (replicas s 1) = Some q'" if "m \<in> set (broadcasts s)" for m
    using that by (intro bspec [of _ _ m]) simp_all
  with s(1,3) show ?thesis by blast
qed

end
