(* ===== verification/Relay.thy ===== *)
theory Relay
  imports PeerProperties
begin

text \<open>
  A document that travels: any number of replicas, each behind the others by any number of messages.
  Whoever is up to date may edit; every replica takes the messages one after another, as slowly as it
  likes, and may get old ones again. Whatever a replica has taken, it shows the text after exactly
  that many edits.
\<close>

section \<open>The steps\<close>

record relay =
  rl_queues :: "nat \<Rightarrow> shar_queue"
  rl_log :: "network_op list"
  rl_edits :: "edit list"
  rl_got :: "nat \<Rightarrow> nat"

definition relay_edited :: "nat \<Rightarrow> edit \<Rightarrow> shar_queue \<Rightarrow> network_op list \<Rightarrow> relay \<Rightarrow> relay" where
  "relay_edited i e q' ms s =
     s\<lparr>rl_queues := (rl_queues s)(i := q'), rl_log := rl_log s @ ms, rl_edits := rl_edits s @ [e],
       rl_got := (rl_got s)(i := length (rl_log s @ ms))\<rparr>"

definition relay_taken :: "nat \<Rightarrow> nat \<Rightarrow> shar_queue \<Rightarrow> relay \<Rightarrow> relay" where
  "relay_taken i j q' s =
     s\<lparr>rl_queues := (rl_queues s)(i := q'), rl_got := (rl_got s)(i := max (rl_got s i) (Suc j))\<rparr>"

inductive relay_step :: "nat \<Rightarrow> path \<Rightarrow> relay \<Rightarrow> relay \<Rightarrow> bool" for n rel where
  relay_edit: "i < n \<Longrightarrow> rl_got s i = length (rl_log s) \<Longrightarrow> unat (counter (rl_queues s i)) + 1 < 2 ^ 32 \<Longrightarrow>
    lookup_file (tree (rl_queues s i)) (tree_root (rl_queues s i) @ rel) = Some f \<Longrightarrow>
    edit_fits e (text_of f) \<Longrightarrow> ide_edit rel e (rl_queues s i) = Some (q', ms) \<Longrightarrow>
    relay_step n rel s (relay_edited i e q' ms s)"
| relay_take: "i < n \<Longrightarrow> j \<le> rl_got s i \<Longrightarrow> j < length (rl_log s) \<Longrightarrow>
    receive (rl_log s ! j) (rl_queues s i) = Some q' \<Longrightarrow> relay_step n rel s (relay_taken i j q' s)"

inductive relay_run :: "nat \<Rightarrow> path \<Rightarrow> relay \<Rightarrow> relay \<Rightarrow> bool" for n rel where
  relay_start: "relay_run n rel s s"
| relay_more: "relay_run n rel s s1 \<Longrightarrow> relay_step n rel s1 s2 \<Longrightarrow> relay_run n rel s s2"

text \<open>The start: nothing was sent, and every replica has the same file with the text \<open>t\<close>, and is idle.\<close>

definition relay_opened :: "(nat \<Rightarrow> shar_queue) \<Rightarrow> relay" where
  "relay_opened qs = \<lparr>rl_queues = qs, rl_log = [], rl_edits = [], rl_got = (\<lambda>i. 0)\<rparr>"

definition copies :: "nat \<Rightarrow> path \<Rightarrow> shar_file \<Rightarrow> (nat \<Rightarrow> shar_queue) \<Rightarrow> bool" where
  "copies n rel f qs \<longleftrightarrow> wf_file f \<and> (\<forall>i < n. \<exists>g. shares rel (qs i) g \<and> shar_file_eq f g)"

section \<open>A message that was taken before\<close>

lemma receive_seen:
  assumes r: "shares rel r g" and m: "has_seen m g" "op_file m = rel"
    and rel: "rel = [] \<or> hd rel \<notin> {''/'', ''.''}"
  shows "\<exists>r'. receive m r = Some r' \<and> shares rel r' g"
proof -
  have s: "tree_inv (tree r)" "ids_counted r" "idle r" "is_absolute (tree_root r)"
    "lookup_file (tree r) (tree_root r @ rel) = Some g" using r by (simp_all add: shares_def)
  have ok: "dir_ok (tree r)" using s(1) by (simp add: tree_inv_def)
  have local: "to_local_path r rel = tree_root r @ rel"
    using join_under_root [OF s(4) rel] by (simp add: to_local_path_def)
  note same = on_file_updates [OF ok s(5) [unfolded tree_root_def]]
  show ?thesis
  proof (cases m)
    case (ADD a)
    let ?c = "na_crdt a" and ?r = "r\<lparr>counter := max (counter r) (crdt_id (na_crdt a))\<rparr>"
    have a: "na_file_path a = rel" using m(2) ADD by simp
    have "add_crdt g (na_row a) ?c = Some (g, Inr None)"
      by (rule add_crdt_duplicate) (use m(1) ADD in \<open>auto simp: has_seen_def\<close>)
    from same [where call = "\<lambda>f. add_crdt f (na_row a) ?c", OF this refl]
    have "dir_add_crdt (tree r) (tree_root r @ rel) (na_row a) ?c = Some (tree r, Inr None)"
      unfolding dir_add_crdt_def tree_root_def by auto
    then have "add_network_operation a r = Some ?r"
      using a local by (simp add: add_network_operation_def network_insert_def Let_def)
    moreover have "shares rel ?r g"
      by (rule shares_updated [OF r]) (use s in \<open>auto simp: tree_root_def ids_counted_def idle_def calm_def le_max_iff_disj\<close>)
    ultimately show ?thesis using ADD by (auto simp: receive_def)
  next
    case (REMOVE x)
    let ?x = "x\<lparr>rm_file_path := tree_root r @ rel\<rparr>"
    have x: "rm_file_path x = rel" using m(2) REMOVE by simp
    obtain k where k: "rm_key x \<noteq> root" "characters g (rm_key x) = Some k" "cr_deleted k"
      using m(1) REMOVE by (auto simp: has_seen_def)
    from same [where call = "\<lambda>f. remove_crdt f (rm_row x) (rm_key x)", OF remove_crdt_again [OF k(2,3)] refl]
    have "dir_remove_crdt (tree r) (tree_root r @ rel) (rm_row x) (rm_key x) = Some (tree r, Inr None)"
      unfolding dir_remove_crdt_def tree_root_def by auto
    then have "remove_network_operation x r = Some r"
      using x k(1) local by (simp add: remove_network_operation_def remove_operation_def Let_def rm_key_def)
    then show ?thesis using REMOVE r by (auto simp: receive_def)
  qed
qed

section \<open>The invariant\<close>

text \<open>
  The document after every number of edits: each message leads from one to the next, each edit from
  one text to the next, and every replica has a copy of the one it has come to.
\<close>

definition chronicle :: "path \<Rightarrow> network_op list \<Rightarrow> edit list \<Rightarrow> (nat \<Rightarrow> shar_file) \<Rightarrow> bool" where
  "chronicle rel ms es H \<longleftrightarrow> length es = length ms \<and> (\<forall>k \<le> length ms. wf_file (H k)) \<and>
     (\<forall>k < length ms. follows rel (ms ! k) (H k) (H (Suc k)) \<and>
        text_of (H (Suc k)) = edit_text (es ! k) (text_of (H k)))"

definition relay_ok :: "nat \<Rightarrow> path \<Rightarrow> shar_file \<Rightarrow> (nat \<Rightarrow> shar_file) \<Rightarrow> relay \<Rightarrow> bool" where
  "relay_ok n rel f H s \<longleftrightarrow> H 0 = f \<and> chronicle rel (rl_log s) (rl_edits s) H \<and>
     (\<forall>i < n. rl_got s i \<le> length (rl_log s) \<and>
        (\<exists>g. shares rel (rl_queues s i) g \<and> shar_file_eq (H (rl_got s i)) g))"

lemma relay_okD:
  assumes "relay_ok n rel f H s" "i < n"
  obtains g where "rl_got s i \<le> length (rl_log s)" "shares rel (rl_queues s i) g"
    "shar_file_eq (H (rl_got s i)) g" "wf_file (H (rl_got s i))"
  using assms unfolding relay_ok_def chronicle_def by blast

lemma follows_wf: "follows rel m f f' \<Longrightarrow> wf_file f'"
  by (cases m) (auto simp: follows_def inserted_def removed_def)

lemma follows_file: "follows rel m f f' \<Longrightarrow> op_file m = rel"
  by (cases m) (simp_all add: follows_def)

lemma chronicle_text:
  assumes "chronicle rel ms es H"
  shows "k \<le> length ms \<Longrightarrow> text_of (H k) = fold edit_text (take k es) (text_of (H 0))"
proof (induction k)
  case (Suc k)
  then have "k < length es" "text_of (H (Suc k)) = edit_text (es ! k) (text_of (H k))"
    using assms by (simp_all add: chronicle_def)
  with Suc show ?case by (simp add: take_Suc_conv_app_nth)
qed simp

lemma chronicle_seen:
  assumes H: "chronicle rel ms es H" and j: "j < k" "k \<le> length ms"
  shows "has_seen (ms ! j) (H k)"
  using j
proof (induction k)
  case (Suc k)
  then have step: "follows rel (ms ! k) (H k) (H (Suc k))" "wf_file (H k)"
    using H by (simp_all add: chronicle_def)
  show ?case
  proof (cases "j = k")
    case True
    then show ?thesis using follows_seen(1) [OF step] by simp
  next
    case False
    with Suc have "has_seen (ms ! j) (H k)" by simp
    then show ?thesis by (rule follows_seen(2) [OF step])
  qed
qed simp

lemma chronicle_more:
  assumes "chronicle rel ms es H" "follows rel m (H (length ms)) f'"
    and "text_of f' = edit_text e (text_of (H (length ms)))"
  shows "chronicle rel (ms @ [m]) (es @ [e]) (H(Suc (length ms) := f'))"
  using assms follows_wf [OF assms(2)] by (auto simp: chronicle_def nth_append less_Suc_eq le_Suc_eq)

lemma has_seen_same: "shar_file_eq f g \<Longrightarrow> has_seen m f \<longleftrightarrow> has_seen m g"
  using same_file(1) [of f g] by (cases m) (auto simp: has_seen_def)

text \<open>The same step, on a copy at another place.\<close>

lemma follows_same:
  assumes "shar_file_eq f g" "follows rel m g g'"
  obtains f' where "follows rel m f f'" "shar_file_eq f' g'" "text_of f' = text_of g'"
proof
  let ?f = "g'\<lparr>file_path := file_path f\<rparr>"
  have wf: "wf_file ?f" using follows_wf [OF assms(2)] by (simp add: wf_file_def)
  show "follows rel m f ?f"
    using assms(2) same_file [OF assms(1)] wf
    by (cases m) (auto simp: follows_def insertable_def newest_def inserted_def removed_def flat_def)
  show "shar_file_eq ?f g'" "text_of ?f = text_of g'"
    by (simp_all add: shar_file_eq_def text_of_def flat_def char_at_def)
qed

text \<open>An edit and a receipt are always possible, and keep the invariant.\<close>

lemma relay_edit_ok:
  assumes s: "relay_ok n rel f H s" and i: "i < n" "rl_got s i = length (rl_log s)"
    and q: "unat (counter (rl_queues s i)) + 1 < 2 ^ 32" "edit_fits e (text_of (H (rl_got s i)))"
  shows "\<exists>q' m H'. ide_edit rel e (rl_queues s i) = Some (q', [m]) \<and>
    relay_ok n rel f H' (relay_edited i e q' [m] s) \<and> (\<forall>k \<le> length (rl_log s). H' k = H k) \<and>
    unat (counter q') \<le> unat (counter (rl_queues s i)) + 1"
proof -
  obtain g where g: "shares rel (rl_queues s i) g" "shar_file_eq (H (length (rl_log s))) g"
    "wf_file (H (length (rl_log s)))" using relay_okD [OF s i(1)] i(2) by metis
  have "edit_fits e (text_of g)" using q(2) i(2) same_file(3) [OF g(2)] by simp
  from edit_follows [OF g(1) this q(1)] obtain q' m g' where
    q': "ide_edit rel e (rl_queues s i) = Some (q', [m])" "shares rel q' g'" "follows rel m g g'"
      "text_of g' = edit_text e (text_of g)" "unat (counter q') \<le> unat (counter (rl_queues s i)) + 1" by blast
  obtain f' where f': "follows rel m (H (length (rl_log s))) f'" "shar_file_eq f' g'" "text_of f' = text_of g'"
    by (rule follows_same [OF g(2) q'(3)])
  let ?H = "H(Suc (length (rl_log s)) := f')"
  from f'(1) have "chronicle rel (rl_log s @ [m]) (rl_edits s @ [e]) ?H"
    using s q'(4) same_file(3) [OF g(2)] f'(3) by (intro chronicle_more) (simp_all add: relay_ok_def)
  then have "relay_ok n rel f ?H (relay_edited i e q' [m] s)"
    using s q'(2) f'(2) by (fastforce simp: relay_ok_def relay_edited_def)
  with q'(1,5) show ?thesis by (intro exI [of _ q'] exI [of _ m] exI [of _ ?H]) auto
qed

lemma relay_take_ok:
  assumes s: "relay_ok n rel f H s" and rel: "rel = [] \<or> hd rel \<notin> {''/'', ''.''}"
    and i: "i < n" "j \<le> rl_got s i" "j < length (rl_log s)"
  shows "\<exists>q'. receive (rl_log s ! j) (rl_queues s i) = Some q' \<and> relay_ok n rel f H (relay_taken i j q' s)"
proof -
  obtain g where g: "rl_got s i \<le> length (rl_log s)" "shares rel (rl_queues s i) g"
    "shar_file_eq (H (rl_got s i)) g" by (rule relay_okD [OF s i(1)])
  have H: "chronicle rel (rl_log s) (rl_edits s) H" using s by (simp add: relay_ok_def)
  then have step: "follows rel (rl_log s ! j) (H j) (H (Suc j))" using i(3) by (simp add: chronicle_def)
  have "\<exists>q' g'. receive (rl_log s ! j) (rl_queues s i) = Some q' \<and> shares rel q' g' \<and>
    shar_file_eq (H (max (rl_got s i) (Suc j))) g'"
  proof (cases "j = rl_got s i")
    case True
    with receive_follows [OF g(2,3) step [unfolded True] rel] show ?thesis by (auto simp: max_def)
  next
    case False
    with i(2) have j: "j < rl_got s i" by simp
    have "has_seen (rl_log s ! j) g"
      using chronicle_seen [OF H j g(1)] has_seen_same [OF g(3)] by simp
    from receive_seen [OF g(2) this follows_file [OF step] rel] g(3) j show ?thesis by (auto simp: max_absorb1)
  qed
  then obtain q' g' where q': "receive (rl_log s ! j) (rl_queues s i) = Some q'" "shares rel q' g'"
    "shar_file_eq (H (max (rl_got s i) (Suc j))) g'" by blast
  have "relay_ok n rel f H (relay_taken i j q' s)"
    using s i(3) q'(2,3) by (auto simp: relay_ok_def relay_taken_def)
  with q'(1) show ?thesis by blast
qed

lemma relay_step_ok:
  assumes "relay_step n rel s s'" "relay_ok n rel f H s" "rel = [] \<or> hd rel \<notin> {''/'', ''.''}"
  shows "\<exists>H'. relay_ok n rel f H' s'"
  using assms(1)
proof cases
  case (relay_edit i h e q' ms)
  obtain g where "shares rel (rl_queues s i) g" "shar_file_eq (H (rl_got s i)) g"
    by (rule relay_okD [OF assms(2) relay_edit(2)])
  then have "edit_fits e (text_of (H (rl_got s i)))"
    using relay_edit(5,6) same_file(3) by (fastforce simp: shares_def)
  from relay_edit_ok [OF assms(2) relay_edit(2-4) this] relay_edit(1,7) show ?thesis by auto
next
  case (relay_take i j q')
  from relay_take_ok [OF assms(2,3) relay_take(2-4)] relay_take(1,5) show ?thesis by auto
qed

lemma relay_run_ok:
  assumes "relay_run n rel s s'" "relay_ok n rel f H s" "rel = [] \<or> hd rel \<notin> {''/'', ''.''}"
  shows "\<exists>H'. relay_ok n rel f H' s'"
  using assms
proof induction
  case (relay_more s s1 s2)
  then show ?case using relay_step_ok by blast
qed blast

lemma relay_opened_ok: "copies n rel f qs \<Longrightarrow> relay_ok n rel f (\<lambda>k. f) (relay_opened qs)"
  by (simp add: copies_def relay_ok_def relay_opened_def chronicle_def)

text \<open>Every replica can come to the end of the log, whatever was taken so far.\<close>

lemma relay_can_finish:
  assumes rel: "rel = [] \<or> hd rel \<notin> {''/'', ''.''}"
  shows "relay_ok n rel f H s \<Longrightarrow> \<exists>s'. relay_run n rel s s' \<and> relay_ok n rel f H s' \<and> rl_log s' = rl_log s \<and>
    rl_edits s' = rl_edits s \<and> (\<forall>i < n. rl_got s' i = length (rl_log s))"
proof (induction "\<Sum>i < n. length (rl_log s) - rl_got s i" arbitrary: s rule: less_induct)
  case less
  show ?case
  proof (cases "\<forall>i < n. rl_got s i = length (rl_log s)")
    case True
    with less.prems relay_start show ?thesis by blast
  next
    case False
    then obtain i where i: "i < n" "rl_got s i < length (rl_log s)"
      using less.prems by (metis le_neq_implies_less relay_ok_def)
    from relay_take_ok [OF less.prems rel i(1) order_refl i(2)] obtain q' where
      q': "receive (rl_log s ! rl_got s i) (rl_queues s i) = Some q'"
        "relay_ok n rel f H (relay_taken i (rl_got s i) q' s)" by blast
    define s1 where "s1 = relay_taken i (rl_got s i) q' s"
    have s1: "relay_step n rel s s1" "rl_log s1 = rl_log s" "rl_edits s1 = rl_edits s"
      "rl_got s1 = (rl_got s)(i := Suc (rl_got s i))"
      using relay_take [OF i(1) order_refl i(2) q'(1)] by (simp_all add: s1_def relay_taken_def)
    have "(\<Sum>j < n. length (rl_log s1) - rl_got s1 j) < (\<Sum>j < n. length (rl_log s) - rl_got s j)"
      by (rule sum_strict_mono_ex1) (use i s1(2,4) in \<open>auto intro: bexI [of _ i]\<close>)
    from less.hyps [OF this q'(2) [folded s1_def]] obtain s' where
      s': "relay_run n rel s1 s'" "relay_ok n rel f H s'" "rl_log s' = rl_log s" "rl_edits s' = rl_edits s"
        "\<forall>i < n. rl_got s' i = length (rl_log s)" using s1(2,3) by auto
    have "relay_run n rel s s'" using s'(1) relay_more [OF relay_start s1(1)]
    proof induction
      case (relay_more a b c)
      then show ?case by (metis relay_run.relay_more)
    qed
    with s'(2-5) show ?thesis by blast
  qed
qed

section \<open>Properties\<close>

text \<open>
  C1. Editing in turns. Copies of a file are open at any number of replicas. Only a replica that has
  taken every message of the log edits, so that no two edits are concurrent; each replica takes the
  messages in the order of the log, the next one at any time, and old ones again. In every state that is
  reached this way, a replica that has taken the first \<open>k\<close> messages shows the text after the first
  \<open>k\<close> edits, and replicas that have come equally far have equal files, tombstones included. Without the
  turns and the order this is false (\<open>replicas_diverge\<close>, \<open>late_message_diverges\<close>).
\<close>

theorem relay_follows_text:
  assumes "copies n rel f qs" "rel = [] \<or> hd rel \<notin> {''/'', ''.''}"
    and "relay_run n rel (relay_opened qs) s" "i < n"
  shows "\<exists>g. lookup_file (tree (rl_queues s i)) (tree_root (rl_queues s i) @ rel) = Some g \<and>
    text_of g = fold edit_text (take (rl_got s i) (rl_edits s)) (text_of f) \<and>
    (\<forall>j < n. rl_got s j = rl_got s i \<longrightarrow>
       (\<exists>h. lookup_file (tree (rl_queues s j)) (tree_root (rl_queues s j) @ rel) = Some h \<and> shar_file_eq g h))"
proof -
  obtain H where H: "relay_ok n rel f H s"
    using relay_run_ok [OF assms(3) relay_opened_ok [OF assms(1)] assms(2)] by blast
  then have c: "chronicle rel (rl_log s) (rl_edits s) H" "H 0 = f" by (simp_all add: relay_ok_def)
  obtain g where g: "rl_got s i \<le> length (rl_log s)" "shares rel (rl_queues s i) g"
    "shar_file_eq (H (rl_got s i)) g" by (rule relay_okD [OF H assms(4)])
  have "\<exists>h. lookup_file (tree (rl_queues s j)) (tree_root (rl_queues s j) @ rel) = Some h \<and> shar_file_eq g h"
    if j: "j < n" "rl_got s j = rl_got s i" for j
  proof -
    obtain h where "shares rel (rl_queues s j) h" "shar_file_eq (H (rl_got s i)) h"
      using relay_okD [OF H j(1)] j(2) by metis
    then show ?thesis using g(3) by (auto simp: shares_def shar_file_eq_def)
  qed
  with g chronicle_text [OF c(1) g(1)] c(2) same_file(3) [OF g(3)] show ?thesis
    by (auto simp: shares_def)
qed

text \<open>
  C7. Nothing stops replicas that edit in turns and take messages in the order of the log, as in the
  previous property. In every state that is reached this way, each replica takes its next message and
  every older one; a replica that has taken every message and has ids left carries out every edit that
  fits its text and sends one message; and all replicas can come to the end, where they all show the
  text after all edits.
\<close>

theorem relay_never_stuck:
  assumes "copies n rel f qs" "rel = [] \<or> hd rel \<notin> {''/'', ''.''}"
    and "relay_run n rel (relay_opened qs) s"
  shows "(\<forall>i < n. \<forall>j < length (rl_log s). j \<le> rl_got s i \<longrightarrow>
      (\<exists>q'. receive (rl_log s ! j) (rl_queues s i) = Some q')) \<and>
    (\<forall>i < n. \<forall>e g. rl_got s i = length (rl_log s) \<and> unat (counter (rl_queues s i)) + 1 < 2 ^ 32 \<and>
      lookup_file (tree (rl_queues s i)) (tree_root (rl_queues s i) @ rel) = Some g \<and>
      edit_fits e (text_of g) \<longrightarrow> (\<exists>q' m. ide_edit rel e (rl_queues s i) = Some (q', [m]))) \<and>
    (\<exists>s'. relay_run n rel s s' \<and> rl_edits s' = rl_edits s \<and>
      (\<forall>i < n. \<exists>g. lookup_file (tree (rl_queues s' i)) (tree_root (rl_queues s' i) @ rel) = Some g \<and>
         text_of g = fold edit_text (rl_edits s) (text_of f)))"
proof -
  obtain H where H: "relay_ok n rel f H s"
    using relay_run_ok [OF assms(3) relay_opened_ok [OF assms(1)] assms(2)] by blast
  have takes: "\<forall>i < n. \<forall>j < length (rl_log s). j \<le> rl_got s i \<longrightarrow>
      (\<exists>q'. receive (rl_log s ! j) (rl_queues s i) = Some q')"
    using relay_take_ok [OF H assms(2)] by blast
  have edits: "\<exists>q' m. ide_edit rel e (rl_queues s i) = Some (q', [m])"
    if i: "i < n" "rl_got s i = length (rl_log s)" "unat (counter (rl_queues s i)) + 1 < 2 ^ 32"
      "lookup_file (tree (rl_queues s i)) (tree_root (rl_queues s i) @ rel) = Some g" "edit_fits e (text_of g)"
    for i e g
  proof -
    obtain h where "shares rel (rl_queues s i) h" "shar_file_eq (H (rl_got s i)) h"
      by (rule relay_okD [OF H i(1)])
    then have "edit_fits e (text_of (H (rl_got s i)))" using i(4,5) same_file(3) by (fastforce simp: shares_def)
    from relay_edit_ok [OF H i(1-3) this] show ?thesis by blast
  qed
  obtain s' where s': "relay_run n rel s s'" "relay_ok n rel f H s'" "rl_log s' = rl_log s"
    "rl_edits s' = rl_edits s" "\<forall>i < n. rl_got s' i = length (rl_log s)"
    using relay_can_finish [OF assms(2) H] by blast
  have all: "fold edit_text (take (length (rl_log s)) (rl_edits s)) (text_of f) = fold edit_text (rl_edits s) (text_of f)"
    using H by (simp add: relay_ok_def chronicle_def)
  have "\<exists>g. lookup_file (tree (rl_queues s' i)) (tree_root (rl_queues s' i) @ rel) = Some g \<and>
      text_of g = fold edit_text (rl_edits s) (text_of f)" if i: "i < n" for i
  proof -
    obtain g where g: "shares rel (rl_queues s' i) g" "shar_file_eq (H (length (rl_log s))) g"
      using relay_okD [OF s'(2) i] s'(5) i by metis
    have "chronicle rel (rl_log s) (rl_edits s) H" "H 0 = f" using H by (simp_all add: relay_ok_def)
    from chronicle_text [OF this(1) order_refl] this(2) all same_file(3) [OF g(2)] g(1)
    show ?thesis by (auto simp: shares_def)
  qed
  with takes edits s'(1,4) show ?thesis by blast
qed

section \<open>Samples\<close>

text \<open>Three replicas: the first one types and then deletes, the second one has taken the first message.\<close>

definition relay_queues :: "nat \<Rightarrow> shar_queue" where
  "relay_queues i = (if i = 0 then sample_queue else other_queue)"

lemma relay_copies: "copies 3 [''t''] sample_file relay_queues"
proof -
  obtain f g where fg: "shares [''t''] sample_queue f" "shares [''t''] other_queue g" "shar_file_eq f g"
    using samples_in_step by (auto simp: in_step_def)
  then have "f = sample_file" by (simp add: shares_def sample_queue_simps sample_dir_lookup)
  then show ?thesis using fg sample_wf by (auto simp: copies_def relay_queues_def shar_file_eq_def)
qed

lemma sample_relay:
  "\<exists>s. relay_run 3 [''t''] (relay_opened relay_queues) s \<and> length (rl_log s) = 2 \<and> rl_got s 1 = 1 \<and>
     rl_edits s = [Type_char 3 120 0 0, Delete_char 1 7]"
proof -
  let ?s0 = "relay_opened relay_queues" and ?e = "Type_char 3 120 0 0" and ?d = "Delete_char 1 7"
  have s0: "relay_ok 3 [''t''] sample_file (\<lambda>k. sample_file) ?s0" by (rule relay_opened_ok [OF relay_copies])
  have start: "text_of sample_file = [97, 10, 99]" by (simp add: flat_def text_of_def char_at_def)
  have q0: "rl_queues ?s0 0 = sample_queue" "rl_got ?s0 0 = length (rl_log ?s0)"
    "unat (counter (rl_queues ?s0 0)) + 1 < 2 ^ 32" "edit_fits ?e (text_of sample_file)"
    by (simp_all add: relay_opened_def relay_queues_def sample_queue_simps start)
  obtain q1 m H where q1: "ide_edit [''t''] ?e sample_queue = Some (q1, [m])"
    "relay_ok 3 [''t''] sample_file H (relay_edited 0 ?e q1 [m] ?s0)" "unat (counter q1) \<le> 5"
    using relay_edit_ok [OF s0 _ q0(2-4)] unfolding q0(1) by (auto simp: sample_queue_simps)
  define s1 where "s1 = relay_edited 0 ?e q1 [m] ?s0"
  have s1: "relay_ok 3 [''t''] sample_file H s1" "rl_log s1 = [m]" "rl_got s1 1 = 0" "rl_got s1 0 = 1"
    "rl_queues s1 0 = q1" "rl_edits s1 = [?e]"
    using q1(2) by (simp_all add: s1_def relay_edited_def relay_opened_def)
  have step1: "relay_step 3 [''t''] ?s0 s1" unfolding s1_def
    by (rule relay_edit [where f = sample_file])
      (use q0 q1(1) in \<open>simp_all add: sample_queue_simps sample_dir_lookup\<close>)
  have take: "(1::nat) < 3" "0 \<le> rl_got s1 1" "0 < length (rl_log s1)" by (simp_all add: s1(2))
  obtain q2 where q2: "receive (rl_log s1 ! 0) (rl_queues s1 1) = Some q2"
    "relay_ok 3 [''t''] sample_file H (relay_taken 1 0 q2 s1)"
    using relay_take_ok [OF s1(1) _ take] by auto
  define s2 where "s2 = relay_taken 1 0 q2 s1"
  have s2: "relay_ok 3 [''t''] sample_file H s2" "rl_log s2 = [m]" "rl_got s2 0 = 1" "rl_got s2 1 = 1"
    "rl_queues s2 0 = q1" "rl_edits s2 = [?e]"
    using q2(2) s1 by (simp_all add: s2_def relay_taken_def)
  have step2: "relay_step 3 [''t''] s1 s2" unfolding s2_def by (rule relay_take [OF take q2(1)])
  have "text_of (H 1) = [97, 10, 99, 120]"
    using chronicle_text [of "[''t'']" "[m]" "[?e]" H 1] s2(1,2,6) start by (simp add: relay_ok_def)
  then have fit: "edit_fits ?d (text_of (H (rl_got s2 0)))" using s2(3) by simp
  have bound: "unat (counter (rl_queues s2 0)) + 1 < 2 ^ 32" using q1(3) s2(5) by simp
  obtain q3 m' where q3: "ide_edit [''t''] ?d (rl_queues s2 0) = Some (q3, [m'])"
    using relay_edit_ok [OF s2(1) _ _ bound fit] s2(2,3) by auto
  obtain g where g: "shares [''t''] q1 g" "shar_file_eq (H 1) g"
    using relay_okD [OF s2(1), of 0] s2(3,5) by auto
  have step3: "relay_step 3 [''t''] s2 (relay_edited 0 ?d q3 [m'] s2)"
    by (rule relay_edit [where f = g])
      (use s2(2,3,5) bound q3 g fit same_file(3) [OF g(2)] in \<open>simp_all add: shares_def\<close>)
  have "relay_run 3 [''t''] ?s0 (relay_edited 0 ?d q3 [m'] s2)"
    by (rule relay_more [OF relay_more [OF relay_more [OF relay_start step1] step2] step3])
  then show ?thesis using s2(2,4,6) by (intro exI conjI) (assumption, simp_all add: relay_edited_def)
qed

theorem relay_follows_text_witness:
  "\<exists>s g. relay_run 3 [''t''] (relay_opened relay_queues) s \<and> length (rl_log s) = 2 \<and>
     lookup_file (tree (rl_queues s 1)) (tree_root (rl_queues s 1) @ [''t'']) = Some g \<and>
     text_of g = [97, 10, 99, 120]"
proof -
  obtain s where s: "relay_run 3 [''t''] (relay_opened relay_queues) s" "length (rl_log s) = 2"
    "rl_got s 1 = 1" "rl_edits s = [Type_char 3 120 0 0, Delete_char 1 7]" using sample_relay by blast
  have "text_of sample_file = [97, 10, 99]" by (simp add: flat_def text_of_def char_at_def)
  with relay_follows_text [OF relay_copies _ s(1), of 1] s show ?thesis by auto
qed

theorem relay_never_stuck_witness:
  "\<exists>s s'. relay_run 3 [''t''] (relay_opened relay_queues) s \<and> relay_run 3 [''t''] s s' \<and>
     (\<forall>i < 3. \<exists>g. lookup_file (tree (rl_queues s' i)) (tree_root (rl_queues s' i) @ [''t'']) = Some g \<and>
        text_of g = [97, 99, 120])"
proof -
  obtain s where s: "relay_run 3 [''t''] (relay_opened relay_queues) s"
    "rl_edits s = [Type_char 3 120 0 0, Delete_char 1 7]" using sample_relay by blast
  have "fold edit_text (rl_edits s) (text_of sample_file) = [97, 99, 120]"
    unfolding s(2) by (simp add: flat_def text_of_def char_at_def)
  with relay_never_stuck [OF relay_copies _ s(1)] s(1) show ?thesis by auto
qed

end
