(* ===== verification/EventLog.thy ===== *)
theory EventLog
  imports QueueRuns "HOL-Library.Sublist"
begin

text \<open>
  The log of the queue, over all its operations: it only grows, a queue without callbacks logs
  nothing, and no operation sets a callback or takes one away.
\<close>

text \<open>Which callbacks are set.\<close>

definition wiring :: "shar_queue \<Rightarrow> bool list" where
  "wiring q =
     [network_add_callback q, network_remove_callback q, ide_add_confirm_callback q,
      ide_add_callback q, ide_remove_callback q]"

definition log_grows :: "shar_queue \<Rightarrow> shar_queue \<Rightarrow> bool" where
  "log_grows q q' \<longleftrightarrow>
     wiring q' = wiring q \<and> prefix (events q) (events q') \<and>
     (True \<notin> set (wiring q) \<longrightarrow> events q' = events q)"

lemma log_grows_refl [simp]: "log_grows q q"
  by (simp add: log_grows_def)

lemma log_grows_trans: "log_grows q r \<Longrightarrow> log_grows r s \<Longrightarrow> log_grows q s"
  by (auto simp: log_grows_def intro: prefix_order.trans)

lemma log_grows_quiet: "wiring q' = wiring q \<Longrightarrow> events q' = events q \<Longrightarrow> log_grows q q'"
  by (simp add: log_grows_def)

lemma log_grows_frame [simp]:
  "log_grows (q\<lparr>network_worklist := w\<rparr>) q' = log_grows q q'"
  "log_grows (q\<lparr>ide_worklist := i\<rparr>) q' = log_grows q q'"
  "log_grows q (q\<lparr>network_worklist := w\<rparr>)" "log_grows q (q\<lparr>ide_worklist := i\<rparr>)"
  "log_grows q (queue_dependants k q') = log_grows q q'"
  "log_grows (queue_dependants k q) q' = log_grows q q'"
  "log_grows q (queue_ide_dependants k q') = log_grows q q'"
  "log_grows (queue_ide_dependants k q) q' = log_grows q q'"
  "log_grows (queue_tag_dependants t q) q' = log_grows q q'"
  by (simp_all add: log_grows_def wiring_def queue_dependants_def queue_ide_dependants_def
      queue_tag_dependants_def)

section \<open>The network\<close>

lemma remove_operation_grows: "remove_operation op q = Some (q', r) \<Longrightarrow> log_grows q q'"
  by (rule log_grows_quiet)
    (auto simp: remove_operation_def wiring_def split: if_splits option.splits sum.splits)

lemma remove_network_grows: "remove_network_operation op q = Some q' \<Longrightarrow> log_grows q q'"
  by (auto simp: remove_network_operation_def Let_def fire_Some split: option.splits
      dest!: remove_operation_grows) (auto simp: log_grows_def wiring_def)

lemma remove_ide_grows: "remove_ide_operation op q = Some q' \<Longrightarrow> log_grows q q'"
  by (auto simp: remove_ide_operation_def fire_Some split: option.splits
      dest!: remove_operation_grows) (auto simp: log_grows_def wiring_def)

lemma network_insert_grows: "network_insert op q = Some (q', r) \<Longrightarrow> log_grows q q'"
  by (auto simp: network_insert_def Let_def fire_Some log_grows_def wiring_def
      split: if_splits option.splits sum.splits prod.splits)

interpretation grows_net: network_relation log_grows
  by unfold_locales (simp_all add: network_insert_grows remove_network_grows, erule log_grows_trans)

section \<open>The IDE\<close>

lemma ide_insert_grows: "ide_insert op q = Some (q', r) \<Longrightarrow> log_grows q q'"
  by (rule log_grows_quiet)
    (auto simp: ide_insert_def Let_def wiring_def split: if_splits option.splits sum.splits prod.splits)

lemma ide_announce_grows: "ide_announce op c p q = Some q' \<Longrightarrow> log_grows q q'"
  by (auto simp: ide_announce_def Let_def fire_Some log_grows_def wiring_def split: option.splits)

interpretation grows_ide: ide_relation log_grows
  by unfold_locales (simp_all add: ide_insert_grows ide_announce_grows, erule log_grows_trans)

lemma assign_identity_grows: "assign_identity op q = Some q' \<Longrightarrow> log_grows q q'"
  by (auto simp: assign_identity_def Let_def fire_Some log_grows_def wiring_def)

lemma add_ide_grows:
  assumes "add_ide_operation op q = Some q'"
  shows "log_grows q q'"
proof -
  from assms obtain q1 q2 where q: "assign_identity op q = Some q1"
    "add_ide_operation_inner op (queue_tag_dependants (ia_tag op) q1) = Some q2"
    "drain_ide_worklist q2 = Some q'" by (rule add_ide_stages)
  show ?thesis
    using assign_identity_grows [OF q(1)] grows_ide.related_inner [OF q(2)]
      grows_ide.related_drain [OF q(3)] by (auto intro: log_grows_trans)
qed

end
