(* ===== verification/BroadcastNames.thy ===== *)
theory BroadcastNames
  imports QueueRuns Encoding
begin

text \<open>
  What the IDE names is UTF-8, because it comes as JSON: then everything the queue hands over for the
  peers can be encoded, also what had to wait. Over all operations of the queue.
\<close>

definition op_named :: "ide_add \<Rightarrow> bool" where
  "op_named op \<longleftrightarrow> utf8_path (ia_file_path op)"

definition names_kept :: "shar_queue \<Rightarrow> bool" where
  "names_kept q \<longleftrightarrow>
     ops_encodable (concat (map to_peers (events q))) \<and> (\<forall>op \<in> set (ide_worklist q). op_named op) \<and>
     bl.sorted_by (\<lambda>k. op_named) (ide_backlog q) \<and> bl.sorted_by (\<lambda>t. op_named) (ide_tag_backlog q)"

lemma to_relative_utf8: "utf8_path p \<Longrightarrow> utf8_path (to_relative_path q p)"
  by (auto simp: to_relative_path_def strip_prefix_Some_iff split: option.splits)

lemma ops_encodable_simps [simp]:
  "ops_encodable []"
  "ops_encodable (m # ms) \<longleftrightarrow> op_encodable m \<and> ops_encodable ms"
  "ops_encodable (ms @ ns) \<longleftrightarrow> ops_encodable ms \<and> ops_encodable ns"
  by (auto simp: ops_encodable_def)

lemma to_peers_simps [simp]:
  "to_peers (Network_added a) = []" "to_peers (Network_removed r) = []"
  "to_peers (Ide_add_confirmed c) = []" "to_peers (Ide_added b l) = [ADD b]"
  "to_peers (Ide_removed r) = [REMOVE r]"
  by (simp_all add: to_peers_def)

lemma names_kept_frame [simp]:
  "names_kept (q\<lparr>network_worklist := w\<rparr>) = names_kept q"
  "names_kept (queue_dependants k q) = names_kept q"
  by (simp_all add: names_kept_def queue_dependants_def)

section \<open>The network\<close>

lemma remove_operation_named: "remove_operation op q = Some (q', r) \<Longrightarrow> names_kept q' = names_kept q"
  by (auto simp: remove_operation_def names_kept_def split: if_splits option.splits sum.splits)

lemma remove_network_named: "remove_network_operation op q = Some q' \<Longrightarrow> names_kept q' = names_kept q"
  by (auto simp: remove_network_operation_def Let_def fire_Some split: option.splits
      dest!: remove_operation_named) (simp_all add: names_kept_def)

lemma remove_ide_named:
  assumes "remove_ide_operation op q = Some q'" "names_kept q" "utf8_path (rm_file_path op)"
  shows "names_kept q'"
proof -
  obtain q1 r where q1: "remove_operation op q = Some (q1, r)" "q' = q1 \<or>
      q' = q1\<lparr>events := events q1 @ [Ide_removed (op\<lparr>rm_file_path := to_relative_path q1 (rm_file_path op)\<rparr>)]\<rparr>"
    using assms(1) by (auto simp: remove_ide_operation_def fire_Some split: option.splits)
  have "names_kept q1" using remove_operation_named [OF q1(1)] assms(2) by simp
  with q1(2) to_relative_utf8 [OF assms(3), of q1] show ?thesis
    by (auto simp: names_kept_def op_encodable_def)
qed

lemma network_insert_named: "network_insert op q = Some (q', r) \<Longrightarrow> names_kept q' = names_kept q"
  by (auto simp: network_insert_def Let_def fire_Some names_kept_def
      split: if_splits option.splits sum.splits prod.splits)

interpretation named_net: network_relation "\<lambda>q q'. names_kept q' = names_kept q"
  by unfold_locales (simp_all add: network_insert_named remove_network_named)

section \<open>The IDE\<close>

lemma ide_insert_named:
  assumes "ide_insert op q = Some (q', r)" "names_kept q" "op_named op"
  shows "names_kept q'"
  using assms
  by (auto simp: ide_insert_def Let_def names_kept_def intro!: bl.sorted_by_push
      split: if_splits option.splits sum.splits prod.splits)

lemma ide_announce_named:
  assumes "ide_announce op c p q = Some q'" "names_kept q" "op_named op"
  shows "names_kept q'"
proof -
  obtain l where "q' = q\<lparr>events := events q @
      [Ide_added (NetworkAdd_new (to_relative_path q (ia_file_path op)) c (fst p)) l]\<rparr>"
    using assms(1) by (auto simp: ide_announce_def Let_def fire_Some split: option.splits)
  with assms(2,3) to_relative_utf8 show ?thesis by (simp add: names_kept_def op_named_def op_encodable_def)
qed

lemma ide_dependants_named: "names_kept q \<Longrightarrow> names_kept (queue_ide_dependants k q)"
  by (auto simp: names_kept_def queue_ide_dependants_def intro: bl.sorted_by_take_out
      dest: bl.sorted_by_got)

lemma tag_dependants_named: "names_kept q \<Longrightarrow> names_kept (queue_tag_dependants t q)"
  by (auto simp: names_kept_def queue_tag_dependants_def intro: bl.sorted_by_take_out
      dest: bl.sorted_by_got)

lemma ide_item_named:
  assumes "ide_item op q = Some q'" "names_kept q" "op_named op"
  shows "names_kept q'"
proof -
  from assms(1) obtain q1 r where r: "ide_insert op q = Some (q1, r)"
    "r = None \<and> q' = q1 \<or>
     (\<exists>c p. r = Some (c, p) \<and> ide_announce op c p (queue_ide_dependants (crdt_key c) q1) = Some q')"
    by (auto simp: ide_item_def split: option.splits)
  have "names_kept q1" by (rule ide_insert_named [OF r(1) assms(2,3)])
  with r(2) show ?thesis using ide_announce_named [OF _ ide_dependants_named assms(3)] by blast
qed

lemma drain_ide_named:
  assumes "drain_ide_worklist q = Some q'" "names_kept q"
  shows "names_kept q'"
proof -
  have "names_kept q' \<and> ide_worklist q' = []"
  proof (rule ide_loop.drain_invariant [where P = names_kept])
    fix s i "is" s'
    assume s: "names_kept s" "ide_worklist s = i # is"
      "ide_item i (s\<lparr>ide_worklist := tl (ide_worklist s)\<rparr>) = Some s'"
    then have "names_kept (s\<lparr>ide_worklist := tl (ide_worklist s)\<rparr>)" "op_named i"
      by (simp_all add: names_kept_def)
    with ide_item_named [OF s(3)] show "names_kept s'" by simp
  qed (use assms in simp_all)
  then show ?thesis ..
qed

lemma clear_ide_named: "clear_ide_backlog k q = Some q' \<Longrightarrow> names_kept q \<Longrightarrow> names_kept q'"
  by (auto simp: clear_ide_backlog_def split: option.splits
      intro: drain_ide_named ide_dependants_named)

lemma add_ide_named:
  assumes "add_ide_operation op q = Some q'" "names_kept q" "op_named op"
  shows "names_kept q'"
proof -
  obtain q1 q2 where q: "assign_identity op q = Some q1"
    "add_ide_operation_inner op (queue_tag_dependants (ia_tag op) q1) = Some q2"
    "drain_ide_worklist q2 = Some q'" by (rule add_ide_stages [OF assms(1)])
  have "names_kept q1"
    using q(1) assms(2) by (auto simp: assign_identity_def Let_def fire_Some names_kept_def)
  then have q1: "names_kept (queue_tag_dependants (ia_tag op) q1)" by (rule tag_dependants_named)
  obtain q3 r where r: "ide_insert op (queue_tag_dependants (ia_tag op) q1) = Some (q3, r)"
    "r = None \<and> q2 = q3 \<or>
     (\<exists>c p q4. r = Some (c, p) \<and> clear_ide_backlog (crdt_key c) q3 = Some q4 \<and>
        ide_announce op c p q4 = Some q2)"
    using q(2) by (auto simp: add_ide_operation_inner_def split: option.splits elim!: bind_SomeE)
  have "names_kept q3" by (rule ide_insert_named [OF r(1) q1 assms(3)])
  with r(2) have "names_kept q2" using ide_announce_named [OF _ clear_ide_named assms(3)] by blast
  then show ?thesis by (rule drain_ide_named [OF q(3)])
qed

lemma queue_of_named [simp]: "names_kept (queue_of d c p)"
  by (simp add: names_kept_def queue_of_def bl.sorted_by_def bl_get_def)

end
