(* ===== verification/Startup.thy ===== *)
theory Startup
  imports Session
begin

text \<open>
  How an instance starts: the arguments of \<open>src/setup.rs\<close>, the tickets of \<open>src/types.rs\<close>, and the part
  of \<open>main\<close> in \<open>src/main.rs\<close> that creates or finds a session at the discovery proxy and registers
  there. The proxy is another repository's program: it is a parameter, a record of its three
  requests on a state of its own. JSON, base32, random names and topics are parameters too.
\<close>

section \<open>The benchmark option\<close>

fun position :: "('a \<Rightarrow> bool) \<Rightarrow> 'a list \<Rightarrow> nat option" where
  "position P [] = None"
| "position P (x # xs) = (if P x then Some 0 else map_option Suc (position P xs))"

datatype outcome = Returned bool | Exited nat

text \<open>\<open>setup_benchmark\<close>: \<open>None\<close> is the panic on a missing path; \<open>run\<close> is the replay of a trace.\<close>

definition setup_benchmark :: "(string \<Rightarrow> string \<Rightarrow> string + unit) \<Rightarrow> string list \<Rightarrow> outcome option" where
  "setup_benchmark run args =
     (case position (\<lambda>a. a = ''--bench-internal'') args of
        None \<Rightarrow> Some (Returned False)
      | Some idx \<Rightarrow>
          (case vec_get args (idx + 1) of
             None \<Rightarrow> None
           | Some trace_path \<Rightarrow>
               let label = (case vec_get args (idx + 2) of None \<Rightarrow> ''bench-internal'' | Some l \<Rightarrow> l) in
               (case run trace_path label of
                  Inl e \<Rightarrow> Some (Exited 1)
                | Inr _ \<Rightarrow> Some (Returned True))))"

section \<open>Tickets\<close>

record ('t, 'p) ticket =
  tk_topic :: 't
  tk_peers :: "'p list"

text \<open>\<open>make_ascii_lowercase\<close> and \<open>to_ascii_uppercase\<close>.\<close>

definition ascii_lower :: "uchar \<Rightarrow> uchar" where
  "ascii_lower c = (if 65 \<le> c \<and> c \<le> 90 then c + 32 else c)"

definition ascii_upper :: "uchar \<Rightarrow> uchar" where
  "ascii_upper c = (if 97 \<le> c \<and> c \<le> 122 then c - 32 else c)"

text \<open>
  The bytes of a ticket, its text, and their reading. \<open>encode\<close> and \<open>decode\<close> stand for base32 on the
  bytes of the text, \<open>to_vec\<close> and \<open>from_slice\<close> for JSON; \<open>None\<close> is the panic of \<open>expect\<close>.
\<close>

definition Ticket_to_bytes :: "(('t, 'p) ticket \<Rightarrow> string + byte list) \<Rightarrow> ('t, 'p) ticket \<Rightarrow> byte list option" where
  "Ticket_to_bytes to_vec t = expect (to_vec t)"

definition Ticket_from_bytes ::
  "(byte list \<Rightarrow> string + ('t, 'p) ticket) \<Rightarrow> byte list \<Rightarrow> string + ('t, 'p) ticket"
where
  "Ticket_from_bytes from_slice bytes = from_slice bytes"

definition Ticket_display ::
  "(byte list \<Rightarrow> uchar list) \<Rightarrow> (('t, 'p) ticket \<Rightarrow> string + byte list) \<Rightarrow> ('t, 'p) ticket \<Rightarrow>
     uchar list option"
where
  "Ticket_display encode to_vec t =
     map_option (\<lambda>bytes. map ascii_lower (encode bytes)) (Ticket_to_bytes to_vec t)"

definition Ticket_from_str ::
  "(uchar list \<Rightarrow> string + byte list) \<Rightarrow> (byte list \<Rightarrow> string + ('t, 'p) ticket) \<Rightarrow> uchar list \<Rightarrow>
     string + ('t, 'p) ticket"
where
  "Ticket_from_str decode from_slice s =
     (case decode (map ascii_upper s) of Inl e \<Rightarrow> Inl e | Inr bytes \<Rightarrow> Ticket_from_bytes from_slice bytes)"

section \<open>The discovery proxy\<close>

datatype response =
    Unreachable string
  | Response nat "string + byte list"

record 's proxy =
  px_post :: "string \<Rightarrow> byte list \<Rightarrow> 's \<Rightarrow> response \<times> 's"
  px_get :: "string \<Rightarrow> 's \<Rightarrow> response \<times> 's"
  px_put :: "string \<Rightarrow> byte list \<Rightarrow> 's \<Rightarrow> response \<times> 's"

record ('t, 'p) json =
  js_to_vec :: "('t, 'p) ticket \<Rightarrow> string + byte list"
  js_from_slice :: "byte list \<Rightarrow> string + ('t, 'p) ticket"

datatype shar_command = Create "string option" | Participate string

definition is_success :: "nat \<Rightarrow> bool" where
  "is_success status \<longleftrightarrow> 200 \<le> status \<and> status \<le> 299"

definition error_status :: "nat \<Rightarrow> bool" where
  "error_status status \<longleftrightarrow> 400 \<le> status \<and> status \<le> 599"

text \<open>
  The session of an instance: its name, topic and known peers. \<open>None\<close> is a panic, \<open>Inl\<close> an error that
  \<open>main\<close> returns. \<open>generated\<close> is the random name, \<open>random_topic\<close> the random topic.
\<close>

definition create_session ::
  "'s proxy \<Rightarrow> ('t, 'p) json \<Rightarrow> string \<Rightarrow> 't \<Rightarrow> 's \<Rightarrow>
     (string + string \<times> 't \<times> 'p list) option \<times> 's"
where
  "create_session px js session_name topic_id s =
     (case Ticket_to_bytes (js_to_vec js) \<lparr>tk_topic = topic_id, tk_peers = []\<rparr> of
        None \<Rightarrow> (None, s)
      | Some bytes \<Rightarrow>
          (case px_post px session_name bytes s of
             (Unreachable e, s') \<Rightarrow> (None, s')
           | (Response status body, s') \<Rightarrow>
               if status = 409 then (Some (Inl ''Session name already exists''), s')
               else if \<not> is_success status
                 then (Some (Inl ''Discovery proxy rejected session creation''), s')
               else (Some (Inr (session_name, topic_id, [])), s')))"

definition find_session ::
  "'s proxy \<Rightarrow> ('t, 'p) json \<Rightarrow> string \<Rightarrow> 's \<Rightarrow> (string + string \<times> 't \<times> 'p list) option \<times> 's"
where
  "find_session px js session_name s =
     (case px_get px session_name s of
        (Unreachable e, s') \<Rightarrow> (None, s')
      | (Response status body, s') \<Rightarrow>
          if status = 404 then (None, s')
          else (case body of
              Inl e \<Rightarrow> (None, s')
            | Inr ticket_bytes \<Rightarrow>
                (case Ticket_from_bytes (js_from_slice js) ticket_bytes of
                   Inl e \<Rightarrow> (None, s')
                 | Inr t \<Rightarrow> (Some (Inr (session_name, tk_topic t, tk_peers t)), s'))))"

definition open_session ::
  "'s proxy \<Rightarrow> ('t, 'p) json \<Rightarrow> string option \<Rightarrow> 't \<Rightarrow> shar_command option \<Rightarrow> 's \<Rightarrow>
     (string + string \<times> 't \<times> 'p list) option \<times> 's"
where
  "open_session px js generated random_topic command s =
     (case command of
        None \<Rightarrow> (None, s)
      | Some (Create (Some name)) \<Rightarrow> create_session px js name random_topic s
      | Some (Create None) \<Rightarrow>
          (case generated of
             None \<Rightarrow> (None, s)
           | Some name \<Rightarrow> create_session px js name random_topic s)
      | Some (Participate name) \<Rightarrow> find_session px js name s)"

text \<open>After the discovery: this instance adds itself to the peers it knows and stores the ticket.\<close>

definition register_peer ::
  "'s proxy \<Rightarrow> ('t, 'p) json \<Rightarrow> 'p \<Rightarrow> string \<times> 't \<times> 'p list \<Rightarrow> 's \<Rightarrow> 'p list option \<times> 's"
where
  "register_peer px js endpoint_id session s =
     (let (session_name, topic, peers) = session; peers' = peers @ [endpoint_id] in
      case Ticket_to_bytes (js_to_vec js) \<lparr>tk_topic = topic, tk_peers = peers'\<rparr> of
        None \<Rightarrow> (None, s)
      | Some bytes \<Rightarrow>
          (case px_put px session_name bytes s of
             (Unreachable e, s') \<Rightarrow> (None, s')
           | (Response status body, s') \<Rightarrow>
               if error_status status then (None, s') else (Some peers', s')))"

section \<open>What the code relies on\<close>

text \<open>A request that was answered, with what holds of the answer and of the proxy then.\<close>

fun answers :: "response \<times> 's \<Rightarrow> (nat \<Rightarrow> string + byte list \<Rightarrow> 's \<Rightarrow> bool) \<Rightarrow> bool" where
  "answers (Unreachable e, s') P = False"
| "answers (Response status body, s') P = P status body s'"

lemma answersE:
  assumes "answers r P"
  obtains status body s' where "r = (Response status body, s')" "P status body s'"
  using assms by (cases "(r, P)" rule: answers.cases) auto

text \<open>
  The proxy keeps a body per name: it creates a name once, shows what was stored, and overwrites.
  \<open>look\<close> is its content.
\<close>

definition proxy_contract :: "'s proxy \<Rightarrow> ('s \<Rightarrow> string \<Rightarrow> byte list option) \<Rightarrow> bool" where
  "proxy_contract px look \<longleftrightarrow>
     (\<forall>n b s. look s n = None \<longrightarrow>
        answers (px_post px n b s) (\<lambda>status body s'. is_success status \<and> look s' = (look s)(n \<mapsto> b))) \<and>
     (\<forall>n b s. look s n \<noteq> None \<longrightarrow>
        answers (px_post px n b s) (\<lambda>status body s'. status = 409 \<and> look s' = look s)) \<and>
     (\<forall>n b s. look s n = Some b \<longrightarrow>
        answers (px_get px n s) (\<lambda>status body s'. status = 200 \<and> body = Inr b \<and> look s' = look s)) \<and>
     (\<forall>n b s. look s n \<noteq> None \<longrightarrow>
        answers (px_put px n b s) (\<lambda>status body s'. is_success status \<and> look s' = (look s)(n \<mapsto> b)))"

lemma proxy_contractD:
  assumes "proxy_contract px look"
  shows "look s n = None \<Longrightarrow>
      answers (px_post px n b s) (\<lambda>status body s'. is_success status \<and> look s' = (look s)(n \<mapsto> b))"
    "look s n \<noteq> None \<Longrightarrow>
      answers (px_post px n b s) (\<lambda>status body s'. status = 409 \<and> look s' = look s)"
    "look s n = Some b \<Longrightarrow>
      answers (px_get px n s) (\<lambda>status body s'. status = 200 \<and> body = Inr b \<and> look s' = look s)"
    "look s n \<noteq> None \<Longrightarrow>
      answers (px_put px n b s) (\<lambda>status body s'. is_success status \<and> look s' = (look s)(n \<mapsto> b))"
  using assms unfolding proxy_contract_def by blast+

text \<open>Every ticket can be encoded, and is decoded again.\<close>

definition json_contract :: "('t, 'p) json \<Rightarrow> bool" where
  "json_contract js \<longleftrightarrow> serde_contract (\<lambda>t. True) (js_to_vec js) (js_from_slice js)"

definition ticket_bytes :: "('t, 'p) json \<Rightarrow> ('t, 'p) ticket \<Rightarrow> byte list" where
  "ticket_bytes js t = (case js_to_vec js t of Inl e \<Rightarrow> [] | Inr b \<Rightarrow> b)"

lemma ticket_coded:
  assumes "json_contract js"
  shows "Ticket_to_bytes (js_to_vec js) t = Some (ticket_bytes js t)"
    "Ticket_from_bytes (js_from_slice js) (ticket_bytes js t) = Inr t"
proof -
  obtain b where "js_to_vec js t = Inr b" "js_from_slice js b = Inr t"
    using serde_encodes [OF assms [unfolded json_contract_def], of t] by blast
  then show "Ticket_to_bytes (js_to_vec js) t = Some (ticket_bytes js t)"
    "Ticket_from_bytes (js_from_slice js) (ticket_bytes js t) = Inr t"
    by (simp_all add: Ticket_to_bytes_def Ticket_from_bytes_def ticket_bytes_def)
qed

lemma create_session_new:
  assumes px: "proxy_contract px look" "json_contract js" and s: "look s n = None"
  obtains s' where "create_session px js n t s = (Some (Inr (n, t, [])), s')"
    "look s' = (look s)(n \<mapsto> ticket_bytes js \<lparr>tk_topic = t, tk_peers = []\<rparr>)"
proof -
  let ?b = "ticket_bytes js \<lparr>tk_topic = t, tk_peers = []\<rparr>"
  obtain status body s' where r: "px_post px n ?b s = (Response status body, s')"
    "is_success status" "look s' = (look s)(n \<mapsto> ?b)"
    by (rule answersE [OF proxy_contractD(1) [OF px(1) s, of ?b]]) blast
  then have "create_session px js n t s = (Some (Inr (n, t, [])), s')"
    by (auto simp: create_session_def is_success_def ticket_coded [OF px(2)])
  with r(3) that show thesis by blast
qed

lemma create_session_taken:
  assumes px: "proxy_contract px look" "json_contract js" and s: "look s n = Some b"
  obtains s' where "create_session px js n t s = (Some (Inl ''Session name already exists''), s')"
    "look s' = look s"
proof -
  let ?b = "ticket_bytes js \<lparr>tk_topic = t, tk_peers = []\<rparr>"
  obtain body s' where "px_post px n ?b s = (Response 409 body, s')" "look s' = look s"
    by (rule answersE [OF proxy_contractD(2) [OF px(1), of s n ?b]]) (use s in auto)
  with that show thesis by (simp add: create_session_def ticket_coded [OF px(2)])
qed

lemma find_session_stored:
  assumes px: "proxy_contract px look" "json_contract js"
    and s: "look s n = Some (ticket_bytes js \<lparr>tk_topic = t, tk_peers = ps\<rparr>)"
  obtains s' where "find_session px js n s = (Some (Inr (n, t, ps)), s')" "look s' = look s"
proof -
  let ?b = "ticket_bytes js \<lparr>tk_topic = t, tk_peers = ps\<rparr>"
  obtain s' where "px_get px n s = (Response 200 (Inr ?b), s')" "look s' = look s"
    by (rule answersE [OF proxy_contractD(3) [OF px(1) s]]) blast
  with that px(2) show thesis by (simp add: find_session_def ticket_coded [OF px(2)])
qed

lemma register_peer_stored:
  assumes px: "proxy_contract px look" "json_contract js" and s: "look s n \<noteq> None"
  obtains s' where "register_peer px js p (n, t, ps) s = (Some (ps @ [p]), s')"
    "look s' = (look s)(n \<mapsto> ticket_bytes js \<lparr>tk_topic = t, tk_peers = ps @ [p]\<rparr>)"
proof -
  let ?b = "ticket_bytes js \<lparr>tk_topic = t, tk_peers = ps @ [p]\<rparr>"
  obtain status body s' where r: "px_put px n ?b s = (Response status body, s')"
    "is_success status" "look s' = (look s)(n \<mapsto> ?b)"
    by (rule answersE [OF proxy_contractD(4) [OF px(1) s, of ?b]]) blast
  then have "register_peer px js p (n, t, ps) s = (Some (ps @ [p]), s')"
    by (auto simp: register_peer_def is_success_def error_status_def ticket_coded [OF px(2)])
  with r(3) that show thesis by blast
qed

end
