(* ===== verification/StartupProperties.thy ===== *)
theory StartupProperties
  imports Startup
begin

text \<open>
  The properties of the start: tickets survive their text form, instances that come one after another
  learn of all before them, and two that come at once can erase each other.
\<close>

section \<open>Tickets\<close>

lemma upper_lower: "\<not> (97 \<le> c \<and> c \<le> 122) \<Longrightarrow> ascii_upper (ascii_lower c) = c"
  by (auto simp: ascii_upper_def ascii_lower_def)

lemma map_upper_lower:
  "\<forall>c \<in> set cs. \<not> (97 \<le> c \<and> c \<le> 122) \<Longrightarrow> map ascii_upper (map ascii_lower cs) = cs"
  using upper_lower by (auto intro!: map_idI)

text \<open>
  A ticket is read back from its text, however the letters are cased. The library is relied on to
  undo its own encodings of this ticket, and base32 to have no small letters.
\<close>

theorem ticket_roundtrip:
  assumes "to_vec t = Inr b" "from_slice b = Inr t" "decode (encode b) = Inr b"
    and "\<forall>c \<in> set (encode b). \<not> (97 \<le> c \<and> c \<le> 122)"
    and "Ticket_display encode to_vec t = Some d" "map ascii_upper s = map ascii_upper d"
  shows "Ticket_from_str decode from_slice s = Inr t"
proof -
  have "map ascii_upper s = encode b"
    using assms(1,5,6) map_upper_lower [OF assms(4)] by (auto simp: Ticket_display_def Ticket_to_bytes_def)
  then show ?thesis using assms(2,3) by (simp add: Ticket_from_str_def Ticket_from_bytes_def)
qed

text \<open>A codec of tickets of bytes, and a text form with two capital letters for a byte.\<close>

definition byte_json :: "(byte, byte) json" where
  "byte_json = \<lparr>js_to_vec = (\<lambda>t. Inr (tk_topic t # tk_peers t)),
     js_from_slice = (\<lambda>bs. case bs of [] \<Rightarrow> Inl ''empty'' | b # bs' \<Rightarrow> Inr \<lparr>tk_topic = b, tk_peers = bs'\<rparr>)\<rparr>"

fun letters :: "byte list \<Rightarrow> uchar list" where
  "letters [] = []"
| "letters (b # bs) = (65 + unat (b div 16)) # (65 + unat (b mod 16)) # letters bs"

fun unletters :: "uchar list \<Rightarrow> string + byte list" where
  "unletters [] = Inr []"
| "unletters [c] = Inl ''odd''"
| "unletters (c # d # cs) =
     (case unletters cs of Inl e \<Rightarrow> Inl e | Inr bs \<Rightarrow> Inr (of_nat ((c - 65) * 16 + (d - 65)) # bs))"

theorem ticket_roundtrip_witness:
  "Ticket_display letters (js_to_vec byte_json) \<lparr>tk_topic = 18, tk_peers = [1]\<rparr> = Some [98, 99, 97, 98] \<and>
   Ticket_from_str unletters (js_from_slice byte_json) [66, 99, 65, 98] = Inr \<lparr>tk_topic = 18, tk_peers = [1]\<rparr>"
proof -
  let ?t = "\<lparr>tk_topic = 18, tk_peers = [1]\<rparr> :: (byte, byte) ticket"
  have v: "js_to_vec byte_json ?t = Inr [18, 1]" by (simp add: byte_json_def)
  have e: "letters [18, 1] = [66, 67, 65, 66]" by simp
  have d: "unletters [66, 67, 65, 66] = Inr [18, 1]" by simp
  have t: "Ticket_display letters (js_to_vec byte_json) ?t = Some [98, 99, 97, 98]"
    by (simp only: Ticket_display_def Ticket_to_bytes_def v expect_simps option.map e) (simp add: ascii_lower_def)
  moreover have "Ticket_from_str unletters (js_from_slice byte_json) [66, 99, 65, 98] = Inr ?t"
    by (rule ticket_roundtrip [where to_vec = "js_to_vec byte_json" and encode = letters, OF v _ _ _ t])
      (simp_all only: e d, simp_all add: byte_json_def ascii_upper_def)
  ultimately show ?thesis by blast
qed

section \<open>Sessions\<close>

text \<open>Instances that participate in a session one after another: the topic and the peers each finds.\<close>

fun arrivals ::
  "'s proxy \<Rightarrow> ('t, 'p) json \<Rightarrow> string \<Rightarrow> 'p list \<Rightarrow> 's \<Rightarrow> ('t \<times> 'p list) list option \<times> 's"
where
  "arrivals px js n [] s = (Some [], s)"
| "arrivals px js n (p # ps) s =
     (case find_session px js n s of
        (Some (Inr session), s1) \<Rightarrow>
          (case register_peer px js p session s1 of
             (Some peers', s2) \<Rightarrow>
               (case arrivals px js n ps s2 of
                  (found, s3) \<Rightarrow> (map_option (\<lambda>xs. snd session # xs) found, s3))
           | (None, s2) \<Rightarrow> (None, s2))
      | (_, s1) \<Rightarrow> (None, s1))"

lemma arrivals_stored:
  assumes px: "proxy_contract px look" "json_contract js"
  shows "look s n = Some (ticket_bytes js \<lparr>tk_topic = t, tk_peers = qs\<rparr>) \<Longrightarrow>
    \<exists>s'. arrivals px js n ps s = (Some (map (\<lambda>i. (t, qs @ take i ps)) [0..<length ps]), s') \<and>
      look s' n = Some (ticket_bytes js \<lparr>tk_topic = t, tk_peers = qs @ ps\<rparr>)"
proof (induction ps arbitrary: qs s)
  case (Cons p ps)
  obtain s1 where s1: "find_session px js n s = (Some (Inr (n, t, qs)), s1)" "look s1 = look s"
    by (rule find_session_stored [OF px Cons.prems])
  have "look s1 n \<noteq> None" using s1(2) Cons.prems by simp
  then obtain s2 where s2: "register_peer px js p (n, t, qs) s1 = (Some (qs @ [p]), s2)"
    "look s2 = (look s1)(n \<mapsto> ticket_bytes js \<lparr>tk_topic = t, tk_peers = qs @ [p]\<rparr>)"
    by (rule register_peer_stored [OF px])
  from Cons.IH [of s2 "qs @ [p]"] s2(2) obtain s' where
    s': "arrivals px js n ps s2 = (Some (map (\<lambda>i. (t, (qs @ [p]) @ take i ps)) [0..<length ps]), s')"
      "look s' n = Some (ticket_bytes js \<lparr>tk_topic = t, tk_peers = (qs @ [p]) @ ps\<rparr>)" by auto
  have "map (\<lambda>i. (t, qs @ take i (p # ps))) [0..<length (p # ps)] =
      (t, qs) # map (\<lambda>i. (t, (qs @ [p]) @ take i ps)) [0..<length ps]"
    by (simp add: map_upt_Suc del: upt_Suc)
  then show ?case using s1(1) s2(1) s' by simp
qed simp

text \<open>
  C30. A session introduces its peers. An instance creates a session under a free name and
  registers; others participate one after another. Every one finds the creator's topic and exactly
  the instances before it, in order, and the name cannot be created again.
\<close>

theorem sessions_introduce_peers:
  assumes "proxy_contract px look" "json_contract js" "look s n = None"
  shows "\<exists>s1 s2 s3. open_session px js g t (Some (Create (Some n))) s = (Some (Inr (n, t, [])), s1) \<and>
    register_peer px js p (n, t, []) s1 = (Some [p], s2) \<and>
    arrivals px js n ps s2 = (Some (map (\<lambda>i. (t, p # take i ps)) [0..<length ps]), s3) \<and>
    fst (open_session px js g t' (Some (Create (Some n))) s3) = Some (Inl ''Session name already exists'')"
proof -
  obtain s1 where s1: "create_session px js n t s = (Some (Inr (n, t, [])), s1)"
    "look s1 = (look s)(n \<mapsto> ticket_bytes js \<lparr>tk_topic = t, tk_peers = []\<rparr>)"
    by (rule create_session_new [OF assms])
  then have "look s1 n \<noteq> None" by simp
  then obtain s2 where s2: "register_peer px js p (n, t, []) s1 = (Some ([] @ [p]), s2)"
    "look s2 = (look s1)(n \<mapsto> ticket_bytes js \<lparr>tk_topic = t, tk_peers = [] @ [p]\<rparr>)"
    by (rule register_peer_stored [OF assms(1,2)])
  from arrivals_stored [OF assms(1,2), of s2 n t "[p]" ps] s2(2) obtain s3 where
    s3: "arrivals px js n ps s2 = (Some (map (\<lambda>i. (t, [p] @ take i ps)) [0..<length ps]), s3)"
      "look s3 n = Some (ticket_bytes js \<lparr>tk_topic = t, tk_peers = [p] @ ps\<rparr>)" by auto
  have "fst (create_session px js n t' s3) = Some (Inl ''Session name already exists'')"
    using create_session_taken [OF assms(1,2) s3(2), where t = t'] by (metis fst_conv)
  then show ?thesis using s1(1) s2(1) s3(1)
    by (intro exI [of _ s1] exI [of _ s2] exI [of _ s3]) (simp add: open_session_def)
qed

text \<open>A proxy that is a map.\<close>

definition map_proxy :: "(string \<rightharpoonup> byte list) proxy" where
  "map_proxy =
     \<lparr>px_post = (\<lambda>n b m. if m n = None then (Response 201 (Inr []), m(n \<mapsto> b)) else (Response 409 (Inr []), m)),
      px_get = (\<lambda>n m. case m n of None \<Rightarrow> (Response 404 (Inr []), m) | Some b \<Rightarrow> (Response 200 (Inr b), m)),
      px_put = (\<lambda>n b m. (Response 200 (Inr []), m(n \<mapsto> b)))\<rparr>"

lemma map_proxy_contract: "proxy_contract map_proxy (\<lambda>m. m)"
  by (auto simp: proxy_contract_def map_proxy_def is_success_def)

lemma byte_json_contract: "json_contract byte_json"
  by (simp add: json_contract_def serde_contract_def byte_json_def)

theorem sessions_introduce_peers_witness:
  "\<exists>s1 s2 s3. open_session map_proxy byte_json None 7 (Some (Create (Some ''s''))) Map.empty =
       (Some (Inr (''s'', 7, [])), s1) \<and>
     register_peer map_proxy byte_json 1 (''s'', 7, []) s1 = (Some [1], s2) \<and>
     arrivals map_proxy byte_json ''s'' [2, 3] s2 = (Some [(7, [1]), (7, [1, 2])], s3)"
proof -
  obtain s1 s2 s3 where s: "open_session map_proxy byte_json None 7 (Some (Create (Some ''s''))) Map.empty =
       (Some (Inr (''s'', 7, [])), s1)"
     "register_peer map_proxy byte_json 1 (''s'', 7, []) s1 = (Some [1], s2)"
     "arrivals map_proxy byte_json ''s'' [2, 3] s2 =
        (Some (map (\<lambda>i. (7, 1 # take i [2, 3])) [0..<length [2 :: byte, 3]]), s3)"
    using sessions_introduce_peers [OF map_proxy_contract byte_json_contract, of Map.empty "''s''" None 7 1 "[2, 3]" 0]
    by blast
  have "map (\<lambda>i. (7 :: byte, 1 # take i [2, 3])) [0..<length [2 :: byte, 3]] = [(7, [1]), (7, [1, 2])]"
    by (simp add: upt_rec)
  with s show ?thesis by metis
qed

text \<open>
  C34. A registration can be lost. Two instances that look a session up before either has
  registered find the same peers; each stores its own list, so the ticket that is left names the
  second and not the first.
\<close>

theorem registration_lost:
  assumes "proxy_contract px look" "json_contract js"
    and "look s n = Some (ticket_bytes js \<lparr>tk_topic = t, tk_peers = ps\<rparr>)"
  shows "\<exists>s1 s2 s3 s4 s5. find_session px js n s = (Some (Inr (n, t, ps)), s1) \<and>
    find_session px js n s1 = (Some (Inr (n, t, ps)), s2) \<and>
    register_peer px js p (n, t, ps) s2 = (Some (ps @ [p]), s3) \<and>
    register_peer px js q (n, t, ps) s3 = (Some (ps @ [q]), s4) \<and>
    find_session px js n s4 = (Some (Inr (n, t, ps @ [q])), s5)"
proof -
  obtain s1 where s1: "find_session px js n s = (Some (Inr (n, t, ps)), s1)" "look s1 = look s"
    by (rule find_session_stored [OF assms])
  obtain s2 where s2: "find_session px js n s1 = (Some (Inr (n, t, ps)), s2)" "look s2 = look s1"
    by (rule find_session_stored [OF assms(1,2), of s1 n t ps]) (use s1(2) assms(3) in auto)
  have "look s2 n \<noteq> None" using s1(2) s2(2) assms(3) by simp
  then obtain s3 where s3: "register_peer px js p (n, t, ps) s2 = (Some (ps @ [p]), s3)"
    "look s3 = (look s2)(n \<mapsto> ticket_bytes js \<lparr>tk_topic = t, tk_peers = ps @ [p]\<rparr>)"
    by (rule register_peer_stored [OF assms(1,2)])
  then have "look s3 n \<noteq> None" by simp
  then obtain s4 where s4: "register_peer px js q (n, t, ps) s3 = (Some (ps @ [q]), s4)"
    "look s4 = (look s3)(n \<mapsto> ticket_bytes js \<lparr>tk_topic = t, tk_peers = ps @ [q]\<rparr>)"
    by (rule register_peer_stored [OF assms(1,2)])
  obtain s5 where "find_session px js n s4 = (Some (Inr (n, t, ps @ [q])), s5)" "look s5 = look s4"
    by (rule find_session_stored [OF assms(1,2), of s4 n t "ps @ [q]"]) (use s4(2) in auto)
  with s1(1) s2(1) s3(1) s4(1) show ?thesis by blast
qed

theorem registration_lost_witness:
  "\<exists>s1 s2 s3 s4 s5. find_session map_proxy byte_json ''s'' [''s'' \<mapsto> [7, 1]] = (Some (Inr (''s'', 7, [1])), s1) \<and>
    find_session map_proxy byte_json ''s'' s1 = (Some (Inr (''s'', 7, [1])), s2) \<and>
    register_peer map_proxy byte_json 2 (''s'', 7, [1]) s2 = (Some ([1] @ [2]), s3) \<and>
    register_peer map_proxy byte_json 3 (''s'', 7, [1]) s3 = (Some ([1] @ [3]), s4) \<and>
    find_session map_proxy byte_json ''s'' s4 = (Some (Inr (''s'', 7, [1] @ [3])), s5)"
  by (rule registration_lost [OF map_proxy_contract byte_json_contract]) (simp add: ticket_bytes_def byte_json_def)

end
