(* ===== verification/Instance.thy ===== *)
theory Instance
  imports StartupProperties PeerProperties
begin

text \<open>
  One run of the program: \<open>main\<close> of \<open>src/main.rs\<close> from its arguments to the servers it starts, and the
  task it spawns for the network, from the discovery to the registration, after which the subscriber
  and the broadcasts run. With the properties of the whole.
\<close>

section \<open>The start\<close>

record args =
  ar_command :: "shar_command option"
  ar_port :: nat
  ar_socket_benchmark :: bool

text \<open>
  What a start comes to. Both servers share one queue between their handlers and tasks; the one for
  socket benchmarks has a consumer that throws every message away.
\<close>

datatype ('t, 'p) started =
    Benchmark_done
  | Process_exits nat
  | Main_fails string
  | Serves_alone nat server
  | Serves_session nat "string \<times> 't \<times> 'p list" server

definition first_server :: server where
  "first_server =
     \<lparr>wrap = QueueWrap_default,
      out = \<lparr>attempts = 0, emitted = [], channel = [], listening = True, rooms = []\<rparr>\<rparr>"

text \<open>
  \<open>main\<close>: \<open>None\<close> is a panic. \<open>parse\<close> stands for clap, which ends the process with a code on arguments
  it does not know; \<open>bound\<close> says whether the endpoint of iroh is there.
\<close>

definition start_main ::
  "(string \<Rightarrow> string \<Rightarrow> string + unit) \<Rightarrow> (string list \<Rightarrow> nat + args) \<Rightarrow> bool \<Rightarrow> 's proxy \<Rightarrow>
     ('t, 'p) json \<Rightarrow> string option \<Rightarrow> 't \<Rightarrow> string list \<Rightarrow> 's \<Rightarrow> ('t, 'p) started option \<times> 's"
where
  "start_main run parse bound px js generated random_topic argv s =
     (case setup_benchmark run argv of
        None \<Rightarrow> (None, s)
      | Some (Exited code) \<Rightarrow> (Some (Process_exits code), s)
      | Some (Returned True) \<Rightarrow> (Some Benchmark_done, s)
      | Some (Returned False) \<Rightarrow>
          (case parse argv of
             Inl code \<Rightarrow> (Some (Process_exits code), s)
           | Inr a \<Rightarrow>
               if ar_socket_benchmark a then (Some (Serves_alone (ar_port a) first_server), s)
               else if \<not> bound then (None, s)
               else (case open_session px js generated random_topic (ar_command a) s of
                   (None, s') \<Rightarrow> (None, s')
                 | (Some (Inl e), s') \<Rightarrow> (Some (Main_fails e), s')
                 | (Some (Inr session), s') \<Rightarrow>
                     (Some (Serves_session (ar_port a) session first_server), s'))))"

section \<open>The network task\<close>

text \<open>
  The task that \<open>main\<close> spawns, up to the start of the subscriber. It owns the receiving end of the
  channel, so a panic in it stops the listening: every later \<open>send\<close> of a callback fails. \<open>shuffle\<close> is
  the random order, \<open>dial_of\<close> what becomes of dialling a peer, \<open>subscribed\<close> the answer of gossip.
\<close>

definition stopped :: "server \<Rightarrow> server" where
  "stopped srv = srv\<lparr>out := (out srv)\<lparr>listening := False\<rparr>\<rparr>"

definition network_task ::
  "(nat \<Rightarrow> bool) \<Rightarrow> codec \<Rightarrow> 's proxy \<Rightarrow> ('t, 'p) json \<Rightarrow> ('p list \<Rightarrow> 'p list) \<Rightarrow> ('p \<Rightarrow> dial) \<Rightarrow>
     string + unit \<Rightarrow> 'p \<Rightarrow> string \<times> 't \<times> 'p list \<Rightarrow> server \<Rightarrow> 's \<Rightarrow> server option \<times> 's"
where
  "network_task ok cd px js shuffle dial_of subscribed endpoint_id session srv s =
     (case discover ok cd (map dial_of (shuffle (snd (snd session)))) srv of
        None \<Rightarrow> (None, s)
      | Some srv' \<Rightarrow>
          (case subscribed of
             Inl e \<Rightarrow> (Some (stopped srv'), s)
           | Inr _ \<Rightarrow>
               (case register_peer px js endpoint_id session s of
                  (None, s') \<Rightarrow> (Some (stopped srv'), s')
                | (Some peers', s') \<Rightarrow> (Some srv', s'))))"

section \<open>Properties\<close>

text \<open>
  C20. An instance joins. Started with a session that exists, without the benchmark options, it serves, and
  its network task takes over the states of the first three peers that answer, in the order in which
  they are asked, into the buffer that the opening will replay, and leaves a ticket with the peers
  that were there and itself.
\<close>

theorem instance_joins:
  assumes "proxy_contract px look" "json_contract js"
    and "''--bench-internal'' \<notin> set argv" "parse argv = Inr a" "\<not> ar_socket_benchmark a"
    and "ar_command a = Some (Participate name)"
    and "look s name = Some (ticket_bytes js \<lparr>tk_topic = t, tk_peers = ps\<rparr>)"
  shows "\<exists>s1 s2 srv. start_main run parse True px js generated topic argv s =
      (Some (Serves_session (ar_port a) (name, t, ps) first_server), s1) \<and>
    network_task ok cd px js shuffle dial_of (Inr ()) me (name, t, ps) first_server s1 = (Some srv, s2) \<and>
    srv = buffered (concat (take 3 (SessionProperties.answers cd (map dial_of (shuffle ps))))) first_server \<and>
    look s2 = (look s)(name \<mapsto> ticket_bytes js \<lparr>tk_topic = t, tk_peers = ps @ [me]\<rparr>)"
proof -
  have "position (\<lambda>x. x = ''--bench-internal'') xs = None" if "''--bench-internal'' \<notin> set xs" for xs
    using that by (induction xs) auto
  then have bench: "setup_benchmark run argv = Some (Returned False)"
    using assms(3) by (simp add: setup_benchmark_def)
  obtain s1 where s1: "find_session px js name s = (Some (Inr (name, t, ps)), s1)" "look s1 = look s"
    by (rule find_session_stored [OF assms(1,2,7)])
  then have start: "start_main run parse True px js generated topic argv s =
      (Some (Serves_session (ar_port a) (name, t, ps) first_server), s1)"
    using bench assms(4-6) by (simp add: start_main_def open_session_def)
  have "look s1 name \<noteq> None" using s1(2) assms(7) by simp
  then obtain s2 where s2: "register_peer px js me (name, t, ps) s1 = (Some (ps @ [me]), s2)"
    "look s2 = (look s1)(name \<mapsto> ticket_bytes js \<lparr>tk_topic = t, tk_peers = ps @ [me]\<rparr>)"
    by (rule register_peer_stored [OF assms(1,2)])
  have "\<not> queue_initialized (wrap first_server)" by (simp add: first_server_def QueueWrap_default_def)
  from discover_closed [OF this] s2(1) have "network_task ok cd px js shuffle dial_of (Inr ()) me (name, t, ps) first_server s1 =
      (Some (buffered (concat (take 3 (SessionProperties.answers cd (map dial_of (shuffle ps))))) first_server), s2)"
    by (simp add: network_task_def)
  with start s1(2) s2(2) show ?thesis by metis
qed

text \<open>A session with one peer, who answers with one message.\<close>

theorem instance_joins_witness:
  "\<exists>s1 s2 srv. start_main (\<lambda>p l. Inr ()) (\<lambda>argv. Inr \<lparr>ar_command = Some (Participate ''n''), ar_port = 3000,
      ar_socket_benchmark = False\<rparr>) True map_proxy byte_json None 0 [''shario''] [''n'' \<mapsto> [18, 1]] =
      (Some (Serves_session 3000 (''n'', 18, [1]) first_server), s1) \<and>
    network_task (\<lambda>n. True) toy_codec map_proxy byte_json rev (\<lambda>p. Answer [0, 0, 0, 0, 0, 0, 0, 1, 7])
      (Inr ()) 2 (''n'', 18, [1]) first_server s1 = (Some srv, s2) \<and>
    buffer (wrap srv) = [m1] \<and> s2 ''n'' = Some [18, 1, 2]"
proof -
  let ?a = "\<lparr>ar_command = Some (Participate ''n''), ar_port = 3000, ar_socket_benchmark = False\<rparr>"
  have v: "ticket_bytes byte_json \<lparr>tk_topic = t, tk_peers = ps\<rparr> = t # ps" for t ps by (simp add: ticket_bytes_def byte_json_def)
  have s: "[''n'' \<mapsto> [18, 1]] ''n'' = Some (ticket_bytes byte_json \<lparr>tk_topic = 18, tk_peers = [1]\<rparr>)"
    unfolding v by simp
  have dial: "dial_state toy_codec (Answer [0, 0, 0, 0, 0, 0, 0, 1, 7]) = Inr [m1]"
    by (simp add: dial_state_def receive_state_def read_exact_def from_be_bytes_def MAX_STATE_BYTES_def
        toy_codec_def)
  have arg: "''--bench-internal'' \<notin> set [''shario'']" "\<not> ar_socket_benchmark ?a"
    "ar_command ?a = Some (Participate ''n'')" "ar_port ?a = 3000" by simp_all
  show ?thesis
    using instance_joins [where parse = "\<lambda>argv. Inr ?a" and a = ?a and look = "\<lambda>m. m" and name = "''n''"
        and argv = "[''shario'']" and s = "[''n'' \<mapsto> [18, 1]]", OF map_proxy_contract byte_json_contract
        arg(1) refl arg(2,3) s, where ok = "\<lambda>n. True" and cd = toy_codec and shuffle = rev and dial_of = "\<lambda>p. Answer [0, 0, 0, 0, 0, 0, 0, 1, 7]"
        and me = 2 and run = "\<lambda>p l. Inr ()" and generated = None and topic = 0]
    unfolding arg(4) v by (elim exE conjE) (intro exI conjI, assumption, assumption,
      simp_all add: dial first_server_def QueueWrap_default_def)
qed

text \<open>
  C33. A registration that fails silences the IDE. When the gossip subscription fails, or the discovery
  proxy does not take the ticket, the network task panics, whatever peers the session has and whatever
  their states brought, and drops the receiving end of the channel; the IDE's server goes on. The
  handler of a character that is then typed, at any place of a file that is open with nothing waiting, with ids
  left and sockets that recover, panics after the queue has carried it out: the character is in the
  tree, confirmed, and neither broadcast nor completed.
\<close>

theorem failed_registration_silences:
  assumes "discover ok cd (map dial_of (shuffle ps)) srv = Some srv1"
    and "(\<exists>e. subscribed = Inl e) \<and> s' = s \<or>
      subscribed = Inr () \<and> register_peer px js me (name, t, ps) s = (None, s')"
    and "shares rel (queue (wrap srv1)) f" "i \<le> length (text_of f)"
    and "unat (counter (queue (wrap srv1))) + 1 < 2 ^ 32" "\<And>n. \<exists>m \<ge> n. ok m"
    and "op = IdeAdd_new (tree_root (queue (wrap srv1)) @ rel) (Some (fst (flat f ! i)))
      (Some (snd (flat f ! i))) None v tag hint"
  shows "\<exists>srv' w' g. network_task ok cd px js shuffle dial_of subscribed me (name, t, ps) srv s = (Some srv', s') \<and>
    wrap srv' = wrap srv1 \<and> wrap_add_ide_operation op (wrap srv') = Some w' \<and>
    lookup_file (tree (queue w')) (tree_root (queue w') @ rel) = Some g \<and>
    text_of g = take i (text_of f) @ v # drop i (text_of f) \<and> on_ide_add ok op srv' = None"
proof -
  let ?q = "queue (wrap srv1)" and ?par = "flat f ! i"
  have q: "tree_inv (tree ?q)" "ids_counted ?q" "idle ?q" "lookup_file (tree ?q) (tree_root ?q @ rel) = Some f"
    using assms(3) by (simp_all add: shares_def)
  have op: "ia_file_path op = tree_root ?q @ rel" "ia_parent_id op = Some (fst ?par)"
    "ia_parent_peer op = Some (snd ?par)" "ia_val op = v" by (simp_all add: assms(7) IdeAdd_new_def)
  have i: "i < length (flat f)" using length_text [OF tree_inv_file [OF q(1,4)]] assms(4) by simp
  obtain q' f' p where q': "add_ide_operation op ?q = Some q'" "tree_root q' = tree_root ?q"
    "lookup_file (tree q') = (lookup_file (tree ?q))(tree_root ?q @ rel \<mapsto> f')"
    "text_of f' = take i (text_of f) @ v # drop i (text_of f)"
    "events q' = events ?q @ [Ide_add_confirmed (IdeAddConfirmed_new (ia_tag op) (counter ?q + 1) (peer ?q)),
       Ide_added (NetworkAdd_new rel (typed_crdt op ?par ?q) (fst (p :: pos))) (NetworkAdd_new rel (typed_crdt op ?par ?q) (fst p))]"
    using add_ide_typed [OF q(1,2) assms(5) idle_quiet [OF q(3)] q(4) op(1-3) i refl, unfolded op(4)]
    by (elim exE conjE) (rule that, assumption+)
  let ?srv = "stopped srv1" and ?w = "(wrap srv1)\<lparr>queue := q'\<rparr>"
  have task: "network_task ok cd px js shuffle dial_of subscribed me (name, t, ps) srv s = (Some ?srv, s')"
    using assms(1,2) by (auto simp: network_task_def)
  have w: "wrap ?srv = wrap srv1" "wrap_add_ide_operation op (wrap ?srv) = Some ?w"
    "\<not> listening (out ?srv)" using q'(1) by (simp_all add: stopped_def wrap_add_ide_operation_def)
  obtain n where "callback ok (Ide_add_confirmed (IdeAddConfirmed_new (ia_tag op) (counter ?q + 1) (peer ?q))) (out ?srv) =
      Some ((out ?srv)\<lparr>attempts := n, emitted := emitted (out ?srv) @
        [Msg_ide_add_confirmed (IdeAddConfirmed_new (ia_tag op) (counter ?q + 1) (peer ?q))]\<rparr>)"
    using emit_message_delivers [where ok = ok, OF assms(6)] by (simp add: callback_def do_ide_add_confirm_def) blast
  then have "callbacks ok (drop (length (events ?q)) (events q')) (out ?srv) = None"
    using q'(5) w(3) by (simp add: callback_def do_ide_add_def send_op_def)
  then have "on_ide_add ok op ?srv = None" using w(1,2) by (simp add: on_ide_add_def with_callbacks_def)
  with task w(1,2) q'(2-4) show ?thesis by (intro exI [of _ ?srv] exI [of _ ?w] exI [of _ f']) simp
qed

text \<open>A proxy that answers every registration with 500.\<close>

definition failing_proxy :: "(string \<rightharpoonup> byte list) proxy" where
  "failing_proxy = map_proxy\<lparr>px_put := (\<lambda>n b s. (Response 500 (Inr []), s))\<rparr>"

theorem failed_registration_silences_witness:
  "\<exists>srv'. network_task (\<lambda>n. True) toy_codec failing_proxy byte_json rev (\<lambda>p. No_connection '''') (Inr ()) 2
      (''n'', 18, [1]) (server_of sample_queue) [''n'' \<mapsto> [18, 1]] = (Some srv', [''n'' \<mapsto> [18, 1]]) \<and>
    on_ide_add (\<lambda>n. True) (IdeAdd_new [''/'', ''p'', ''t''] (Some 4) (Some 0) None 122 9 0) srv' = None"
proof -
  have reg: "register_peer failing_proxy byte_json 2 (''n'', 18, [1]) [''n'' \<mapsto> [18, 1]] = (None, [''n'' \<mapsto> [18, 1]])"
    by (simp add: register_peer_def failing_proxy_def error_status_def Ticket_to_bytes_def byte_json_def)
  have q: "queue (wrap (server_of sample_queue)) = sample_queue" by (simp add: server_of_def)
  obtain f where "shares [''t''] sample_queue f" using samples_in_step by (auto simp: in_step_def)
  then have s: "shares [''t''] (queue (wrap (server_of sample_queue))) sample_file"
    unfolding q by (simp add: shares_def sample_queue_simps sample_dir_lookup)
  have i: "3 \<le> length (text_of sample_file)" "flat sample_file ! 3 = (4, 0)"
    by (simp_all add: flat_def text_of_def)
  have bound: "unat (counter (queue (wrap (server_of sample_queue)))) + 1 < 2 ^ 32"
    unfolding q by (simp add: sample_queue_simps)
  have op: "IdeAdd_new [''/'', ''p'', ''t''] (Some 4) (Some 0) None 122 9 0 =
      IdeAdd_new (tree_root (queue (wrap (server_of sample_queue))) @ [''t''])
        (Some (fst (flat sample_file ! 3))) (Some (snd (flat sample_file ! 3))) None 122 9 0"
    unfolding q i(2) by (simp add: sample_queue_simps)
  have ok: "\<exists>m \<ge> n. (\<lambda>n. True) m" for n :: nat by blast
  have disc: "discover (\<lambda>n. True) toy_codec (map (\<lambda>p. No_connection '''') (rev [1 :: byte])) (server_of sample_queue) =
      Some (server_of sample_queue)"
    by (simp add: discover_def request_state_def dial_state_def)
  have fails: "(\<exists>e. Inr () = (Inl e :: string + unit)) \<and> [''n'' \<mapsto> [18, 1 :: byte]] = [''n'' \<mapsto> [18, 1]] \<or>
      Inr () = (Inr () :: string + unit) \<and>
      register_peer failing_proxy byte_json 2 (''n'', 18, [1]) [''n'' \<mapsto> [18, 1]] = (None, [''n'' \<mapsto> [18, 1]])"
    using reg by simp
  from failed_registration_silences [where shuffle = rev, OF disc fails s i(1) bound ok op] show ?thesis by auto
qed

end
