(* ===== verification/InstanceRuns.thy ===== *)
theory InstanceRuns
  imports EventLog BroadcastNames Instance
begin

text \<open>
  A whole instance through any sequence of what can happen to it: an IDE joins, types and removes, peers are
  asked for their state, gossip arrives, the broadcast task empties its channel. What the log of the
  queue says is what the IDE was told and what the peers were sent, once each and in its order.
\<close>

section \<open>Steps\<close>

text \<open>
  A step that returns, with the bytes that it broadcasts. The IDE's paths come as JSON, so they are
  UTF-8. The network task broadcasts as long as it lives; \<open>up\<close> says that it gets through its
  subscription and registration, and if not, it can fail at any time and stops listening.
\<close>

inductive instance_step ::
  "(nat \<Rightarrow> bool) \<Rightarrow> codec \<Rightarrow> (network_op \<Rightarrow> string + 'b) \<Rightarrow> ('b \<Rightarrow> string + network_op) \<Rightarrow>
     bool \<Rightarrow> server \<Rightarrow> 'b list \<Rightarrow> server \<Rightarrow> bool"
  for ok cd to_vec from_slice up
where
  joins: "on_join ok i listing data s = Some s' \<Longrightarrow> instance_step ok cd to_vec from_slice up s [] s'"
| types: "utf8_path (ia_file_path op) \<Longrightarrow> on_ide_add ok op s = Some s' \<Longrightarrow>
    instance_step ok cd to_vec from_slice up s [] s'"
| erases: "utf8_path (rm_file_path r) \<Longrightarrow> on_remove ok r s = Some s' \<Longrightarrow>
    instance_step ok cd to_vec from_slice up s [] s'"
| discovers: "discover ok cd ds s = Some s' \<Longrightarrow> instance_step ok cd to_vec from_slice up s [] s'"
| hears: "gossip_subscriber ok cd from_slice [e] s = Some s' \<Longrightarrow>
    instance_step ok cd to_vec from_slice up s [] s'"
| sends: "listening (out s) \<Longrightarrow> broadcast_loop to_vec s = (s', bs) \<Longrightarrow>
    instance_step ok cd to_vec from_slice up s bs s'"
| fails: "\<not> up \<Longrightarrow> instance_step ok cd to_vec from_slice up s [] (stopped s)"

inductive instance_run ::
  "(nat \<Rightarrow> bool) \<Rightarrow> codec \<Rightarrow> (network_op \<Rightarrow> string + 'b) \<Rightarrow> ('b \<Rightarrow> string + network_op) \<Rightarrow>
     bool \<Rightarrow> server \<Rightarrow> 'b list \<Rightarrow> server \<Rightarrow> bool"
  for ok cd to_vec from_slice up
where
  still: "instance_run ok cd to_vec from_slice up s [] s"
| onward: "instance_run ok cd to_vec from_slice up s bs s1 \<Longrightarrow>
    instance_step ok cd to_vec from_slice up s1 bs' s2 \<Longrightarrow>
    instance_run ok cd to_vec from_slice up s (bs @ bs') s2"

section \<open>What callbacks leave behind\<close>

lemma callback_effect:
  assumes "callback ok e o1 = Some o2"
  shows "emitted o2 = emitted o1 @ to_ide e \<and> channel o2 = channel o1 @ to_peers e \<and>
    listening o2 = listening o1 \<and> (to_peers e \<noteq> [] \<longrightarrow> listening o1)"
  using assms
  by (cases e) (auto simp: callback_def do_network_add_def do_network_remove_def do_ide_add_def
      do_ide_remove_def do_ide_add_confirm_def emit_message_def send_op_def to_ide_def to_peers_def
      split: if_splits elim!: bind_SomeE)

lemma callbacks_effect:
  assumes "callbacks ok es o1 = Some o2"
  shows "emitted o2 = emitted o1 @ concat (map to_ide es) \<and>
    channel o2 = channel o1 @ concat (map to_peers es) \<and> listening o2 = listening o1 \<and>
    (concat (map to_peers es) \<noteq> [] \<longrightarrow> listening o1)"
  using assms by (induction es arbitrary: o1) (auto elim!: bind_SomeE dest!: callback_effect)

section \<open>The wrapper's queue\<close>

text \<open>
  A queue has all its callbacks, or none and an empty log; and it has only UTF-8 names to hand over.
\<close>

definition sound :: "queue_wrap \<Rightarrow> bool" where
  "sound w \<longleftrightarrow> names_kept (queue w) \<and>
     (wiring (queue w) = replicate 5 True \<or>
      wiring (queue w) = replicate 5 False \<and> events (queue w) = [])"

definition wrap_grows :: "queue_wrap \<Rightarrow> queue_wrap \<Rightarrow> bool" where
  "wrap_grows w w' \<longleftrightarrow> (sound w \<longrightarrow> sound w' \<and> prefix (events (queue w)) (events (queue w')))"

lemma wrap_grows_refl [simp]: "wrap_grows w w"
  by (simp add: wrap_grows_def)

lemma wrap_grows_trans: "wrap_grows u v \<Longrightarrow> wrap_grows v w \<Longrightarrow> wrap_grows u w"
  unfolding wrap_grows_def by (blast intro: prefix_order.trans)

lemma wrap_grows_log:
  "log_grows (queue w) (queue w') \<Longrightarrow> (names_kept (queue w) \<Longrightarrow> names_kept (queue w')) \<Longrightarrow> wrap_grows w w'"
  by (auto simp: wrap_grows_def sound_def log_grows_def)

lemma wrap_receive_grows: "wrap_receive m w = Some w' \<Longrightarrow> wrap_grows w w'"
  by (cases "queue_initialized w")
    (auto simp: wrap_receive_open wrap_receive_closed intro!: wrap_grows_log dest: grows_net.related_receive named_net.related_receive)

lemma wrap_receive_all_grows: "wrap_receive_all ms w = Some w' \<Longrightarrow> wrap_grows w w'"
  by (induction ms arbitrary: w)
    (auto elim!: bind_SomeE dest: wrap_receive_grows intro: wrap_grows_trans)

lemma wrap_new_grows:
  assumes "QueueWrap_new p listing i w = Some (w', res)"
  shows "wrap_grows w w'"
proof (cases "w' = w")
  case False
  then obtain d c where q: "\<not> network_add_callback (queue w)"
    "replay_buffer (buffer w) (w\<lparr>queue := queue_of d c i, queue_initialized := True\<rparr>) = Some w'"
    using assms by (auto simp: QueueWrap_new_def SharQueue_new_def split: option.splits sum.splits if_splits)
  have "sound (w\<lparr>queue := queue_of d c i, queue_initialized := True\<rparr>)"
    by (simp add: sound_def) (simp add: wiring_def queue_of_def numeral_eq_Suc)
  with wrap_receive_all_grows [OF q(2) [unfolded replay_buffer_eq]] have "sound w'"
    by (simp add: wrap_grows_def)
  moreover have "sound w \<Longrightarrow> events (queue w) = []" using q(1) by (auto simp: sound_def wiring_def numeral_eq_Suc)
  ultimately show ?thesis by (auto simp: wrap_grows_def)
qed simp

lemma wrap_ide_grows:
  "wrap_add_ide_operation op w = Some w' \<Longrightarrow> utf8_path (ia_file_path op) \<Longrightarrow> wrap_grows w w'"
  "wrap_remove_ide_operation r w = Some w' \<Longrightarrow> utf8_path (rm_file_path r) \<Longrightarrow> wrap_grows w w'"
  by (auto simp: wrap_add_ide_operation_def wrap_remove_ide_operation_def op_named_def
      intro!: wrap_grows_log dest: add_ide_grows remove_ide_grows add_ide_named remove_ide_named)

section \<open>Accounts\<close>

text \<open>
  What was announced of the log: \<open>ops\<close> went to the peers, \<open>lost\<close> was given up with a broadcast task
  that panicked on the first of it, the channel holds the rest. Without a loss the task lives, if it
  got up at all.
\<close>

definition of_log :: "message \<Rightarrow> bool" where
  "of_log m = (case m of Msg_initial_state p rows \<Rightarrow> False | _ \<Rightarrow> True)"

lemma of_log_to_ide [simp]: "filter of_log (to_ide e) = to_ide e"
  by (cases e) (auto simp: to_ide_def of_log_def)

lemma of_log_all [simp]: "filter of_log (concat (map to_ide es)) = concat (map to_ide es)"
  by (induction es) simp_all

definition accounted :: "bool \<Rightarrow> (network_op \<Rightarrow> string + 'b) \<Rightarrow> network_op list \<Rightarrow> network_op list \<Rightarrow> server \<Rightarrow> bool" where
  "accounted up to_vec ops lost s \<longleftrightarrow>
     sound (wrap s) \<and>
     ops @ lost @ channel (out s) = concat (map to_peers (events (queue (wrap s)))) \<and>
     filter of_log (emitted (out s)) = concat (map to_ide (events (queue (wrap s)))) \<and>
     (up \<and> lost = [] \<longrightarrow> listening (out s)) \<and>
     (lost \<noteq> [] \<longrightarrow> \<not> listening (out s) \<and> channel (out s) = [] \<and> (\<exists>e. to_vec (hd lost) = Inl e))"

lemma accounted_call:
  assumes "with_callbacks ok call s = Some s'" "accounted up to_vec ops lost s"
    and "\<And>w'. call (wrap s) = Some w' \<Longrightarrow> wrap_grows (wrap s) w'"
  shows "accounted up to_vec ops lost s'"
proof -
  let ?n = "length (events (queue (wrap s)))"
  obtain w' o' where s': "call (wrap s) = Some w'"
    "callbacks ok (drop ?n (events (queue w'))) (out s) = Some o'" "s' = \<lparr>wrap = w', out = o'\<rparr>"
    using assms(1) by (auto simp: with_callbacks_def elim!: bind_SomeE)
  have "sound (wrap s)" using assms(2) by (simp add: accounted_def)
  with assms(3) [OF s'(1)] obtain es where
    w': "sound w'" "events (queue w') = events (queue (wrap s)) @ es"
    by (auto simp: wrap_grows_def prefix_def)
  have "drop ?n (events (queue w')) = es" by (simp add: w'(2))
  note o' = callbacks_effect [OF s'(2), unfolded this]
  have s: "concat (map to_peers (events (queue (wrap s)))) = ops @ lost @ channel (out s)"
    "concat (map to_ide (events (queue (wrap s)))) = filter of_log (emitted (out s))"
    "up \<and> lost = [] \<longrightarrow> listening (out s)"
    "lost \<noteq> [] \<longrightarrow> \<not> listening (out s) \<and> channel (out s) = [] \<and> (\<exists>e. to_vec (hd lost) = Inl e)"
    using assms(2) by (auto simp: accounted_def)
  show ?thesis unfolding accounted_def using o' by (auto simp: s'(3) w' s)
qed

lemma accounted_out:
  "accounted up to_vec ops lost s \<Longrightarrow> channel o' = channel (out s) \<Longrightarrow> listening o' = listening (out s) \<Longrightarrow>
     filter of_log (emitted o') = filter of_log (emitted (out s)) \<Longrightarrow>
     accounted up to_vec ops lost (s\<lparr>out := o'\<rparr>)"
  by (simp add: accounted_def)

lemma emit_states_quiet:
  "emit_states ok xs o1 = Some o2 \<Longrightarrow> channel o2 = channel o1 \<and> listening o2 = listening o1 \<and>
     filter of_log (emitted o2) = filter of_log (emitted o1)"
  by (induction ok xs o1 rule: emit_states.induct) (auto simp: of_log_def split: if_splits)

lemma accounted_receive:
  "with_callbacks ok (wrap_receive m) s = Some s' \<Longrightarrow> accounted up to_vec ops lost s \<Longrightarrow>
     accounted up to_vec ops lost s'"
  by (erule accounted_call, assumption) (rule wrap_receive_grows)

lemma accounted_deliver_all:
  "deliver_all ok ms s = Some s' \<Longrightarrow> accounted up to_vec ops lost s \<Longrightarrow> accounted up to_vec ops lost s'"
  by (induction ms arbitrary: s) (auto elim!: bind_SomeE dest: accounted_receive)

lemma accounted_request:
  "request_state ok cd d s = Some (s', r) \<Longrightarrow> accounted up to_vec ops lost s \<Longrightarrow> accounted up to_vec ops lost s'"
  by (auto simp: request_state_def dest: accounted_deliver_all split: sum.splits)

lemma accounted_discovery:
  "discovery_loop ok cd ds n s = Some s' \<Longrightarrow> accounted up to_vec ops lost s \<Longrightarrow> accounted up to_vec ops lost s'"
proof (induction ok cd ds n s rule: discovery_loop.induct)
  case (3 ok cd d ds n s)
  then obtain s1 r where r: "request_state ok cd d s = Some (s1, r)" by (auto split: option.splits)
  from accounted_request [OF this "3.prems"(2)] 3 r show ?case by (auto split: sum.splits)
qed simp_all

lemma accounted_join:
  assumes "on_join ok i l data s = Some s'" "accounted up to_vec ops lost s"
  shows "accounted up to_vec ops lost s'"
proof (cases "cn_local data")
  case True
  let ?s = "s\<lparr>out := (out s)\<lparr>rooms := [''local'']\<rparr>\<rparr>"
  obtain s1 xs o' where s1: "with_callbacks ok (\<lambda>w. map_option fst (QueueWrap_new (cn_path data) l i w)) ?s = Some s1"
    "emit_states ok xs (out s1) = Some o'" "s' = s1\<lparr>out := o'\<rparr>"
    using assms(1) True by (auto simp: on_join_def elim!: bind_SomeE)
  have "accounted up to_vec ops lost ?s" using assms(2) by (rule accounted_out) simp_all
  with s1(1) have "accounted up to_vec ops lost s1"
    by (rule accounted_call) (auto dest: wrap_new_grows)
  then show ?thesis unfolding s1(3) by (rule accounted_out) (use emit_states_quiet [OF s1(2)] in simp_all)
next
  case False
  with assms have "s' = s\<lparr>out := (out s)\<lparr>rooms := [''network'']\<rparr>\<rparr>" by (simp add: on_join_def)
  then show ?thesis using accounted_out [OF assms(2)] by simp
qed

text \<open>The broadcast task: all of the channel, or what comes before a message that cannot be encoded.\<close>

lemma broadcast_from_splits:
  "broadcast_from to_vec ms = (bs, alive) \<Longrightarrow>
     \<exists>sent rest. ms = sent @ rest \<and> map to_vec sent = map Inr bs \<and> (alive \<longleftrightarrow> rest = []) \<and>
       (rest \<noteq> [] \<longrightarrow> (\<exists>e. to_vec (hd rest) = Inl e))"
proof (induction ms arbitrary: bs alive)
  case Nil
  then show ?case by simp
next
  case (Cons m ms)
  show ?case
  proof (cases "to_vec m")
    case (Inl e)
    with Cons.prems show ?thesis
      by (intro exI [of _ "[]"] exI [of _ "m # ms"]) (auto simp: NetworkOp_serialize_def)
  next
    case (Inr b)
    obtain bs' where bs': "broadcast_from to_vec ms = (bs', alive)" "bs = b # bs'"
      using Cons.prems Inr by (auto simp: NetworkOp_serialize_def split: prod.splits)
    from Cons.IH [OF bs'(1)] obtain sent rest where "ms = sent @ rest" "map to_vec sent = map Inr bs'"
      "alive \<longleftrightarrow> rest = []" "rest \<noteq> [] \<longrightarrow> (\<exists>e. to_vec (hd rest) = Inl e)" by blast
    with Inr bs'(2) show ?thesis by (intro exI [of _ "m # sent"] exI [of _ rest]) simp
  qed
qed

lemma accounted_broadcast:
  assumes "listening (out s)" "broadcast_loop to_vec s = (s', bs)" "accounted up to_vec ops lost s"
  shows "\<exists>sent lost'. map to_vec sent = map Inr bs \<and> accounted up to_vec (ops @ sent) lost' s'"
proof -
  let ?ms = "channel (out s)"
  have s: "sound (wrap s)" "ops @ lost @ ?ms = concat (map to_peers (events (queue (wrap s))))"
    "filter of_log (emitted (out s)) = concat (map to_ide (events (queue (wrap s))))"
    "up \<and> lost = [] \<longrightarrow> listening (out s)"
    "lost \<noteq> [] \<longrightarrow> \<not> listening (out s) \<and> channel (out s) = [] \<and> (\<exists>e. to_vec (hd lost) = Inl e)"
    using assms(3) by (simp_all add: accounted_def)
  obtain alive where b: "broadcast_from to_vec ?ms = (bs, alive)"
    "s' = s\<lparr>out := (out s)\<lparr>channel := [], listening := listening (out s) \<and> alive\<rparr>\<rparr>"
    using assms(2) by (auto simp: broadcast_loop_def split: prod.splits)
  from broadcast_from_splits [OF b(1)] obtain sent rest where r: "?ms = sent @ rest"
    "map to_vec sent = map Inr bs" "alive \<longleftrightarrow> rest = []" "rest \<noteq> [] \<longrightarrow> (\<exists>e. to_vec (hd rest) = Inl e)"
    by blast
  have "lost = []" using s(5) assms(1) by blast
  with s assms(1) b(2) r have "accounted up to_vec (ops @ sent) rest s'" by (simp add: accounted_def)
  with r(2) show ?thesis by blast
qed

lemma accounted_gossip:
  assumes "gossip_subscriber ok cd from_slice [e] s = Some s'" "accounted up to_vec ops lost s"
  shows "accounted up to_vec ops lost s'"
  using assms
  by (cases e) (auto elim!: bind_SomeE dest: accounted_receive accounted_request split: sum.splits)

lemma announced_step:
  assumes "instance_step ok cd to_vec from_slice up s bs s'" "accounted up to_vec ops lost s"
  shows "\<exists>sent lost'. map to_vec sent = map Inr bs \<and> accounted up to_vec (ops @ sent) lost' s'"
proof -
  have quiet: ?thesis if "bs = []" "accounted up to_vec ops lost s'"
    using that by (intro exI [of _ "[]"] exI [of _ lost]) simp
  from assms(1) show ?thesis
  proof cases
    case (joins i listing data)
    with quiet accounted_join [OF _ assms(2)] show ?thesis by blast
  next
    case (types op)
    from accounted_call [OF types(3) [unfolded on_ide_add_def] assms(2)] wrap_ide_grows(1) [OF _ types(2)]
    have "accounted up to_vec ops lost s'" by blast
    with types(1) show ?thesis by (rule quiet)
  next
    case (erases r)
    from accounted_call [OF erases(3) [unfolded on_remove_def] assms(2)] wrap_ide_grows(2) [OF _ erases(2)]
    have "accounted up to_vec ops lost s'" by blast
    with erases(1) show ?thesis by (rule quiet)
  next
    case (discovers ds)
    with quiet accounted_discovery [OF _ assms(2)] show ?thesis by (auto simp: discover_def)
  next
    case (hears e)
    with quiet accounted_gossip [OF _ assms(2)] show ?thesis by blast
  next
    case sends
    with accounted_broadcast [OF _ _ assms(2)] show ?thesis by blast
  next
    case fails
    with assms(2) have "accounted up to_vec ops lost s'" by (simp add: accounted_def stopped_def)
    with fails(1) show ?thesis by (rule quiet)
  qed
qed

lemma announced_run:
  "instance_run ok cd to_vec from_slice up s bs s' \<Longrightarrow> accounted up to_vec [] [] s \<Longrightarrow>
     \<exists>ops lost. map to_vec ops = map Inr bs \<and> accounted up to_vec ops lost s'"
proof (induction rule: instance_run.induct)
  case (still s)
  then show ?case by (intro exI [of _ "[]"] exI [of _ "[]"]) simp
next
  case (onward s bs s1 bs' s2)
  then obtain ops lost where "map to_vec ops = map Inr bs" "accounted up to_vec ops lost s1" by blast
  with announced_step [OF onward.hyps(2)] show ?case by (metis map_append)
qed

lemma first_accounted: "accounted up to_vec [] [] first_server"
  by (simp add: accounted_def sound_def wiring_def first_server_def QueueWrap_default_def
      SharQueue_default_def queue_of_def numeral_eq_Suc names_kept_def bl.sorted_by_def bl_get_def)

lemma serde_decodes:
  "serde_contract op_encodable to_vec from_slice \<Longrightarrow> ops_encodable ops \<Longrightarrow>
     map to_vec ops = map Inr bs \<Longrightarrow> map from_slice bs = map Inr ops"
proof (induction ops arbitrary: bs)
  case (Cons m ops)
  then obtain b bs' where bs: "bs = b # bs'" "to_vec m = Inr b" "map to_vec ops = map Inr bs'" by auto
  have "op_encodable m" using Cons.prems(2) by simp
  from serde_encodes [OF Cons.prems(1) this] bs(2) have "from_slice b = Inr m" by auto
  with Cons bs show ?case by simp
qed simp

section \<open>Once each, in order\<close>

text \<open>
  C6. What happened is announced once. An instance goes from its start through joins, edits of an IDE
  whose paths are UTF-8, hydration, gossip and broadcasts in any order, each being a handler that returns;
  its network task may fail to subscribe or to register, and then broadcasts no more. The IDE was told
  exactly what the queue's log says, in its order, beside the initial states; and the bytes that were
  broadcast decode to the log's operations for the peers, once each and in its order, all but those
  that still lie in the channel. If the subscription and the registration succeed, the broadcast task
  lives, since the names that come from the IDE can be encoded.
\<close>

theorem announced_once:
  assumes "instance_run ok cd to_vec from_slice up first_server bs s"
    and "serde_contract op_encodable to_vec from_slice"
  shows "\<exists>ops. map from_slice bs = map Inr ops \<and> (up \<longrightarrow> listening (out s)) \<and>
    ops @ channel (out s) = concat (map to_peers (events (queue (wrap s)))) \<and>
    filter of_log (emitted (out s)) = concat (map to_ide (events (queue (wrap s))))"
proof -
  from announced_run [OF assms(1) first_accounted] obtain ops lost where
    ops: "map to_vec ops = map Inr bs" and a: "accounted up to_vec ops lost s" by blast
  have enc: "ops_encodable (ops @ lost @ channel (out s))"
    using a by (simp add: accounted_def sound_def names_kept_def del: ops_encodable_simps)
  then have "ops_encodable ops" by simp
  then have "map from_slice bs = map Inr ops" using ops serde_decodes [OF assms(2)] by blast
  moreover have "lost = []"
  proof (rule ccontr)
    assume "lost \<noteq> []"
    with a enc obtain e m ms where "to_vec m = Inl e" "op_encodable m" "lost = m # ms"
      by (cases lost) (auto simp: accounted_def)
    with serde_encodes [OF assms(2)] show False by (metis sum.distinct(1))
  qed
  ultimately show ?thesis using a unfolding accounted_def by (intro exI [of _ ops]) simp
qed

text \<open>An instance that opens a file with the text \<open>a\<close>, has \<open>z\<close> typed behind it, and broadcasts.\<close>

lemma sample_day:
  "map_option (\<lambda>s. (length (emitted (out s)), snd (broadcast_loop plain_codec s)))
     (Option.bind (on_join (\<lambda>n. True) 5 (Listing [File_entry ''t'' (Inr [97])])
        \<lparr>cn_local = True, cn_path = [''/'', ''p'']\<rparr> first_server)
       (on_ide_add (\<lambda>n. True) (IdeAdd_new [''/'', ''p'', ''t''] (Some 1) (Some 0) None 122 9 0))) =
   Some (3, [ADD (NetworkAdd_new [''t''] (CRDT_new 2 5 (CrdtRelation_new 122 1 0)) 0)])"
  by code_simp

lemma two_stages:
  "map_option g (Option.bind a b) = Some x \<Longrightarrow> \<exists>s1 s2. a = Some s1 \<and> b s1 = Some s2 \<and> g s2 = x"
  by (cases a) auto

theorem announced_once_witness:
  "\<exists>s m. instance_run (\<lambda>n. True) toy_codec plain_codec Inr True first_server [m] s \<and>
     length (emitted (out s)) = 3 \<and> listening (out s) \<and>
     m # channel (out s) = concat (map to_peers (events (queue (wrap s)))) \<and>
     filter of_log (emitted (out s)) = concat (map to_ide (events (queue (wrap s))))"
proof -
  let ?m = "ADD (NetworkAdd_new [''t''] (CRDT_new 2 5 (CrdtRelation_new 122 1 0)) 0)"
  let ?data = "\<lparr>cn_local = True, cn_path = [''/'', ''p'']\<rparr>"
  let ?op = "IdeAdd_new [''/'', ''p'', ''t''] (Some 1) (Some 0) None 122 9 0"
  let ?run = "instance_run (\<lambda>n. True) toy_codec plain_codec Inr True first_server"
  obtain s1 s2 where s: "on_join (\<lambda>n. True) 5 (Listing [File_entry ''t'' (Inr [97])]) ?data first_server = Some s1"
    "on_ide_add (\<lambda>n. True) ?op s1 = Some s2"
    "(length (emitted (out s2)), snd (broadcast_loop plain_codec s2)) = (3, [?m])"
    using two_stages [OF sample_day] by (elim exE conjE) (rule that)
  have s2: "length (emitted (out s2)) = 3" "snd (broadcast_loop plain_codec s2) = [?m]"
    using s(3) by (simp_all only: prod.inject)
  obtain s3 where s3: "broadcast_loop plain_codec s2 = (s3, [?m])" using s2(2) by (metis prod.collapse)
  then have "emitted (out s3) = emitted (out s2)" by (auto simp: broadcast_loop_def split: prod.splits)
  then have three: "length (emitted (out s3)) = 3" using s2(1) by (simp only:)
  have named: "utf8_path (ia_file_path ?op)" by (simp add: utf8_path_def IdeAdd_new_def)
  have "?run ([] @ []) s1" by (rule onward [OF still joins [OF s(1)]])
  then have day: "?run (([] @ []) @ []) s2" by (rule onward) (rule types [OF named s(2)])
  from announced_once [OF day plain_codec_contract] have live: "listening (out s2)" by blast
  from day have "?run ((([] @ []) @ []) @ [?m]) s3" by (rule onward) (rule sends [OF live s3])
  then have run: "?run [?m] s3" by simp
  from announced_once [OF run plain_codec_contract] obtain ops where a: "map Inr [?m] = (map Inr ops :: (string + network_op) list)"
    "True \<longrightarrow> listening (out s3)" "ops @ channel (out s3) = concat (map to_peers (events (queue (wrap s3))))"
    "filter of_log (emitted (out s3)) = concat (map to_ide (events (queue (wrap s3))))"
    by (elim exE conjE) (rule that)
  have "ops = [?m]" by (rule map_injective [OF a(1) [symmetric]]) (simp add: inj_def)
  then have "?m # channel (out s3) = concat (map to_peers (events (queue (wrap s3))))"
    using a(3) by (simp only: append.simps)
  then show ?thesis using mp [OF a(2) TrueI] a(4) by (intro exI conjI) (rule run, rule three)
qed

end
