(* ===== verification/FileNames.thy ===== *)
theory FileNames
  imports PeerProperties
begin

text \<open>
  Names of files that are not UTF-8: the file system allows them, \<open>SharDirectory::new\<close> opens them, and
  JSON cannot carry them. What becomes of the two places that list all files, the handler of \<open>join\<close>
  and the answer to a state request.
\<close>

lemma files_identities_paths: "files_identities fs = Some xs \<Longrightarrow> map fst xs = map file_path fs"
  by (induction fs arbitrary: xs) (auto elim!: bind_SomeE)

lemma dir_identities_paths:
  "dir_identities d = Some xs \<Longrightarrow> map fst xs = map file_path (all_files d)"
  "dirs_identities ds = Some xs \<Longrightarrow> map fst xs = map file_path (dirs_files ds)"
proof (induction d and ds arbitrary: xs and xs rule: dir_identities_dirs_identities.induct)
  case (1 name ds fs)
  then obtain ys zs where "files_identities fs = Some ys" "dirs_identities ds = Some zs" "xs = ys @ zs"
    by (auto elim!: bind_SomeE)
  with 1 show ?case using files_identities_paths by simp
next
  case (3 d ds)
  then obtain ys zs where "dir_identities d = Some ys" "dirs_identities ds = Some zs" "xs = ys @ zs"
    by (auto elim!: bind_SomeE)
  with 3 show ?case by simp
qed simp

lemma emit_states_names: "emit_states ok xs s = Some s' \<Longrightarrow> \<forall>x \<in> set xs. utf8_path (fst x)"
  by (induction ok xs s rule: emit_states.induct) (auto split: if_splits)

lemma join_names:
  assumes "on_join ok i l data b = Some b'" "cn_local data" "f \<in> set (all_files (tree (queue (wrap b'))))"
  shows "utf8_path (file_path f)"
proof -
  obtain srv xs o' where x: "wrap_identities (wrap srv) = Some xs" "emit_states ok xs (out srv) = Some o'"
    "b' = srv\<lparr>out := o'\<rparr>"
    using assms(1,2) by (auto simp: on_join_def elim!: bind_SomeE)
  then have "dir_identities (tree (queue (wrap b'))) = Some xs"
    by (simp add: wrap_identities_def queue_identities_def)
  from dir_identities_paths(1) [OF this] assms(3) have "file_path f \<in> set (map fst xs)" by simp
  with emit_states_names [OF x(2)] show ?thesis by auto
qed

lemma second_join:
  assumes "on_join ok i l data b = Some b'" "network_add_callback (queue (wrap b))"
  shows "wrap b' = wrap b"
proof (cases "cn_local data")
  case True
  have "w' = w" if "map_option fst (QueueWrap_new (cn_path data) l i w) = Some w'" "network_add_callback (queue w)"
    for w w' using that by (auto simp: QueueWrap_new_def split: option.splits sum.splits)
  with True assms show ?thesis by (auto simp: on_join_def with_callbacks_def elim!: bind_SomeE)
qed (use assms in \<open>auto simp: on_join_def\<close>)

lemma char_ops_file: "m \<in> set (char_ops p x) \<Longrightarrow> op_file m = p"
  by (cases m) (auto simp: char_ops_ADD char_ops_REMOVE)

lemma state_encodable_iff:
  assumes "lists_state l (queue_full_state q)"
  shows "ops_encodable (to_network_ops l) \<longleftrightarrow>
    (\<forall>f \<in> set (all_files (tree q)). dom (characters f) \<subseteq> {root} \<or> utf8_path (to_relative_path q (file_path f)))"
proof -
  have add: "ADD (NetworkAdd_new p (CRDT_new (fst k) (snd k) (r\<lparr>cr_deleted := False\<rparr>)) 0) \<in> set (char_ops p (k, r))"
    for p k r by (simp add: char_ops_ADD)
  show ?thesis
  proof
    assume enc: "ops_encodable (to_network_ops l)"
    show "\<forall>f \<in> set (all_files (tree q)). dom (characters f) \<subseteq> {root} \<or>
        utf8_path (to_relative_path q (file_path f))"
    proof (intro ballI disjCI)
      fix f
      assume f: "f \<in> set (all_files (tree q))" "\<not> utf8_path (to_relative_path q (file_path f))"
      have "characters f k = None" if "k \<noteq> root" for k
      proof (rule ccontr)
        assume "characters f k \<noteq> None"
        then obtain r where r: "characters f k = Some r" by blast
        let ?m = "ADD (NetworkAdd_new (to_relative_path q (file_path f))
          (CRDT_new (fst k) (snd k) (r\<lparr>cr_deleted := False\<rparr>)) 0)"
        have "?m \<in> set (to_network_ops l)" unfolding state_ops_iff [OF assms] using f(1) r that add by blast
        with enc have "op_encodable ?m" unfolding ops_encodable_def by blast
        moreover have "op_file ?m = to_relative_path q (file_path f)" by simp
        ultimately show False using f(2) unfolding op_encodable_def by metis
      qed
      then show "dom (characters f) \<subseteq> {root}" by (metis domIff singletonI subsetI)
    qed
  next
    assume names: "\<forall>f \<in> set (all_files (tree q)). dom (characters f) \<subseteq> {root} \<or>
        utf8_path (to_relative_path q (file_path f))"
    show "ops_encodable (to_network_ops l)"
      unfolding ops_encodable_def op_encodable_def
    proof
      fix m
      assume "m \<in> set (to_network_ops l)"
      then obtain f k r where m: "f \<in> set (all_files (tree q))" "characters f k = Some r" "k \<noteq> root"
        "m \<in> set (char_ops (to_relative_path q (file_path f)) (k, r))"
        unfolding state_ops_iff [OF assms] by blast
      then have "utf8_path (to_relative_path q (file_path f))" using names by blast
      with char_ops_file [OF m(4)] show "utf8_path (op_file m)" by simp
    qed
  qed
qed

text \<open>
  C35. Names decide who can join. An instance answers a state request exactly when every file that has
  characters has a relative path in UTF-8: otherwise the \<open>expect\<close> that calls the encoding infallible
  panics, the asking peer reads an empty stream, and its request fails without a change. And an IDE's
  \<open>join\<close> returns only when every path of the opened tree is UTF-8: otherwise it panics while it
  announces the files.
\<close>

theorem names_decide_hydration:
  assumes "\<And>ms. (\<exists>bytes. to_vec ms = Inr bytes) \<longleftrightarrow> ops_encodable ms"
    and "lists_state (order (wrap_full_state (wrap a))) (wrap_full_state (wrap a))"
  shows "(accept order to_vec a \<noteq> None \<longleftrightarrow>
      (\<forall>f \<in> set (all_files (tree (queue (wrap a)))). dom (characters f) \<subseteq> {root} \<or>
         utf8_path (to_relative_path (queue (wrap a)) (file_path f)))) \<and>
    (\<exists>e. request_state ok cd (Answer []) b = Some (b, Inl e)) \<and>
    (\<forall>i l p b'. on_join ok i l \<lparr>cn_local = True, cn_path = p\<rparr> b = Some b' \<longrightarrow>
       (\<forall>f \<in> set (all_files (tree (queue (wrap b')))). utf8_path (file_path f)))"
proof -
  have l: "lists_state (order (wrap_full_state (wrap a))) (queue_full_state (queue (wrap a)))"
    using assms(2) by (simp add: wrap_full_state_def)
  have "accept order to_vec a \<noteq> None \<longleftrightarrow> ops_encodable (to_network_ops (order (wrap_full_state (wrap a))))"
    unfolding assms(1) [symmetric] accept_def by (auto simp: expect_def split: sum.splits)
  moreover have "\<exists>e. request_state ok cd (Answer []) b = Some (b, Inl e)"
    by (simp add: request_state_def dial_state_def receive_state_def read_exact_def)
  ultimately show ?thesis unfolding state_encodable_iff [OF l] using join_names by (metis connect.select_convs(1))
qed

text \<open>A directory with a file named by the byte 255, with one character.\<close>

definition byte_file :: shar_file where
  "byte_file = \<lparr>file_path = [''/'', ''p'', [CHR 0xFF]],
     characters = [root \<mapsto> CrdtRelation_new 0 0 0, (1, 0) \<mapsto> CrdtRelation_new 97 0 0],
     projection = [[root, (1, 0)]]\<rparr>"

definition byte_server :: server where
  "byte_server = server_of (queue_of (SharDirectory [''/'', ''p''] [] [byte_file]) 1 0)"

definition byte_listing :: state_listing where
  "byte_listing = [([[CHR 0xFF]], [((1, 0), CrdtRelation_new 97 0 0)])]"

definition ops_codec :: "network_op list \<Rightarrow> string + byte list" where
  "ops_codec ms = (if ops_encodable ms then Inr [7] else Inl ''path contains invalid UTF-8 characters'')"

theorem names_decide_hydration_witness:
  "accept (\<lambda>_. byte_listing) ops_codec byte_server = None \<and>
   on_join (\<lambda>n. True) 5 (Listing [File_entry [CHR 0xFF] (Inr [97])])
     \<lparr>cn_local = True, cn_path = [''/'', ''p'']\<rparr> byte_server = None"
proof -
  have codec: "(\<exists>bytes. ops_codec ms = Inr bytes) \<longleftrightarrow> ops_encodable ms" for ms by (simp add: ops_codec_def)
  have bad: "\<not> utf8_path [[CHR 0xFF]]" "\<not> utf8_path [''/'', ''p'', [CHR 0xFF]]"
    by (simp_all add: utf8_path_def)
  have tree: "tree (queue (wrap byte_server)) = SharDirectory [''/'', ''p''] [] [byte_file]"
    by (simp add: byte_server_def server_of_def queue_of_def)
  have rel: "to_relative_path (queue (wrap byte_server)) [''/'', ''p'', [CHR 0xFF]] = [[CHR 0xFF]]"
    by (simp add: to_relative_path_def tree_root_def tree)
  have bytes: "file_path byte_file = [''/'', ''p'', [CHR 0xFF]]" "\<not> dom (characters byte_file) \<subseteq> {root}"
    by (auto simp: byte_file_def)
  have listed: "lists_state byte_listing (wrap_full_state (wrap byte_server))"
    by (auto simp: lists_state_def byte_listing_def wrap_full_state_def queue_full_state_def tree rel bytes(1))
      (auto simp: byte_file_def full_state_def fun_eq_iff)
  note names = names_decide_hydration [where order = "\<lambda>_. byte_listing" and cd = toy_codec and ok = "\<lambda>n. True"
      and b = byte_server, OF codec listed]
  have "accept (\<lambda>_. byte_listing) ops_codec byte_server = None"
  proof -
    from names have "accept (\<lambda>_. byte_listing) ops_codec byte_server \<noteq> None \<longleftrightarrow>
      (\<forall>f \<in> set (all_files (tree (queue (wrap byte_server)))). dom (characters f) \<subseteq> {root} \<or>
         utf8_path (to_relative_path (queue (wrap byte_server)) (file_path f)))" by (rule conjunct1)
    moreover have "byte_file \<in> set (all_files (tree (queue (wrap byte_server))))" by (simp add: tree)
    moreover have "\<not> utf8_path (to_relative_path (queue (wrap byte_server)) (file_path byte_file))"
      using bytes(1) bad(1) rel by metis
    ultimately show ?thesis using bytes(2) by blast
  qed
  moreover have "on_join (\<lambda>n. True) 5 (Listing [File_entry [CHR 0xFF] (Inr [97])])
      \<lparr>cn_local = True, cn_path = [''/'', ''p'']\<rparr> byte_server = None"
  proof (rule ccontr)
    assume "\<not> ?thesis"
    then obtain b' where j: "on_join (\<lambda>n. True) 5 (Listing [File_entry [CHR 0xFF] (Inr [97])])
      \<lparr>cn_local = True, cn_path = [''/'', ''p'']\<rparr> byte_server = Some b'" by blast
    have "network_add_callback (queue (wrap byte_server))"
      by (simp add: byte_server_def server_of_def queue_of_def)
    then have "tree (queue (wrap b')) = SharDirectory [''/'', ''p''] [] [byte_file]"
      using second_join [OF j] tree by simp
    moreover from names have "\<forall>f \<in> set (all_files (tree (queue (wrap b')))). utf8_path (file_path f)"
      using j by blast
    ultimately show False using bad(2) bytes(1) by simp
  qed
  ultimately show ?thesis ..
qed

end
