(* ===== verification/EnvFile.thy ===== *)
theory EnvFile
  imports RustText
begin

text \<open>
  The build script \<open>build.rs\<close>: it reads a local \<open>.env\<close> file and passes every setting on to the
  compiler, as a variable of the environment. The contents of the file, if it can be read, are the
  argument; the result is the list of the settings it prints. With its round trip: a file of settings
  in double quotes, comments and blank lines gives these settings.
\<close>

section \<open>The script\<close>

text \<open>A matching pair of quotes around the value is taken off, the double ones first.\<close>

definition unquote_with :: "uchar \<Rightarrow> uchar list \<Rightarrow> uchar list option" where
  "unquote_with q v =
     (case v of
        [] \<Rightarrow> None
      | c # cs \<Rightarrow> if c = q \<and> cs \<noteq> [] \<and> last cs = q then Some (butlast cs) else None)"

definition unquote :: "uchar list \<Rightarrow> uchar list" where
  "unquote value =
     (case unquote_with 34 value of
        Some v \<Rightarrow> v
      | None \<Rightarrow> (case unquote_with 39 value of Some v \<Rightarrow> v | None \<Rightarrow> value))"

definition env_line :: "uchar list \<Rightarrow> (uchar list \<times> uchar list) option" where
  "env_line l =
     (let line = trim l in
      if line = [] \<or> hd line = 35 then None
      else map_option (\<lambda>(key, value). (trim key, unquote (trim value))) (split_once 61 line))"

definition build_env :: "uchar list option \<Rightarrow> (uchar list \<times> uchar list) list" where
  "build_env file_contents =
     (case file_contents of
        None \<Rightarrow> []
      | Some contents \<Rightarrow> List.map_filter env_line (lines_from [] contents))"

section \<open>Lemmas\<close>

lemma unquote_quoted: "unquote (34 # v @ [34]) = v"
  by (simp add: unquote_def unquote_with_def butlast_append)

text \<open>What people write into the file.\<close>

datatype env_entry = Setting "uchar list" "uchar list" | Comment "uchar list" | Blank

fun write_entry :: "env_entry \<Rightarrow> uchar list" where
  "write_entry (Setting k v) = k @ 61 # 34 # v @ [34]"
| "write_entry (Comment s) = 35 # s"
| "write_entry Blank = []"

fun entry_ok :: "env_entry \<Rightarrow> bool" where
  "entry_ok (Setting k v) \<longleftrightarrow>
     k \<noteq> [] \<and> \<not> is_whitespace (hd k) \<and> \<not> is_whitespace (last k) \<and> hd k \<noteq> 35 \<and>
     61 \<notin> set k \<and> 10 \<notin> set k \<and> 10 \<notin> set v"
| "entry_ok (Comment s) \<longleftrightarrow> 10 \<notin> set s"
| "entry_ok Blank \<longleftrightarrow> True"

fun settings_of :: "env_entry \<Rightarrow> (uchar list \<times> uchar list) option" where
  "settings_of (Setting k v) = Some (k, v)"
| "settings_of (Comment s) = None"
| "settings_of Blank = None"

lemma env_line_setting:
  assumes "entry_ok (Setting k v)"
  shows "env_line (k @ 61 # 34 # v @ [34]) = Some (k, v)"
proof -
  have k: "trim k = k" "k \<noteq> []" using assms trim_bare by auto
  have "trim (k @ 61 # 34 # v @ [34]) = k @ 61 # 34 # v @ [34]"
    by (rule trim_bare) (use assms in \<open>simp_all add: is_whitespace_def\<close>)
  moreover have "trim (34 # v @ [34]) = 34 # v @ [34]" by (rule trim_quoted) (simp add: is_whitespace_def)
  moreover have "split_once 61 (k @ 61 # (34 # v @ [34])) = Some (k, 34 # v @ [34])"
    by (rule split_once_first) (use assms in simp)
  ultimately show ?thesis
    using assms k unquote_quoted [of v] by (simp add: env_line_def)
qed

lemma env_line_entry: "entry_ok e \<Longrightarrow> env_line (strip_return (write_entry e)) = settings_of e"
proof (cases e)
  case (Setting k v)
  assume "entry_ok e"
  then show ?thesis using Setting env_line_setting by (simp add: strip_return_def)
next
  case (Comment s)
  have "\<exists>s'. strip_return (35 # s) = 35 # s'" by (simp add: strip_return_def)
  then show ?thesis using Comment hd_trim [of 35] by (auto simp: env_line_def is_whitespace_def)
next
  case Blank
  then show ?thesis by (simp add: strip_return_def env_line_def trim_def)
qed

section \<open>Property\<close>

text \<open>
  The settings of a \<open>.env\<close> file come out as they were put in: a file of any settings in double quotes,
  with comments and blank lines anywhere, gives exactly these settings in order; equals signs,
  quotes, number signs and spaces inside a value are kept.
\<close>

theorem env_file_roundtrip:
  assumes "\<forall>e \<in> set es. entry_ok e"
  shows "build_env (Some (concat (map (\<lambda>e. write_entry e @ [10]) es))) = List.map_filter settings_of es"
proof -
  have "10 \<notin> set (write_entry e)" if "entry_ok e" for e using that by (cases e) auto
  with assms have "lines_from [] (concat (map (\<lambda>e. write_entry e @ [10]) es)) =
      map (strip_return \<circ> write_entry) es"
    by (induction es) (simp_all add: lines_from_line)
  moreover have "List.map_filter env_line (map (strip_return \<circ> write_entry) es) = List.map_filter settings_of es"
    using assms env_line_entry by (induction es) (auto simp: map_filter_simps split: option.splits)
  ultimately show ?thesis by (simp add: build_env_def)
qed

theorem env_file_roundtrip_witness:
  "build_env (Some [35, 32, 120, 10, 10, 65, 61, 34, 98, 61, 32, 34, 10]) = [([65], [98, 61, 32])]"
  using env_file_roundtrip [of "[Comment [32, 120], Blank, Setting [65] [98, 61, 32]]"]
  by (simp add: is_whitespace_def map_filter_simps)

end
