(* ===== verification/Spec2Isabelle.thy ===== *)
theory Spec2Isabelle
  imports FileProperties LostDeletion QueueRuns WrapRace BenchProperties NetworkProperties Relay InstanceRuns FileNames EnvFile
begin

text \<open>
  A verification library for shario, a peer-to-peer shared editor: one process per user keeps the text
  files of a directory (a \<open>shar\<close>) as replicated sequences of characters, takes keystrokes from an IDE
  over socket.io, and exchanges operations with other processes over gossip.

  The program and its parts. A file (\<open>SharFile\<close> in \<open>src/shar/core/tree.rs\<close>) is a map from identities
  \<open>(id, peer)\<close> to characters with a parent and a tombstone flag, and a projection: the rows of
  identities that are shown. \<open>SharDirectory\<close> is the tree of such files, with routing by path.
  \<open>SharQueue\<close> (\<open>src/shar/core/queue.rs\<close>) carries out operations of the IDE and of the network on the
  tree, keeps what cannot be carried out yet in backlogs, and reports through callbacks. \<open>QueueWrap\<close>
  (\<open>src/queue_wrap.rs\<close>) shares the queue between tasks and buffers messages until a directory is
  opened. \<open>src/network_callbacks.rs\<close> sends what the queue reports to the IDE and to the channel of
  broadcasts. \<open>src/main.rs\<close> connects these: socket handlers, discovery, the gossip subscriber;
  \<open>src/state_request.rs\<close> hands the whole state to a peer that asks. \<open>src/bench.rs\<close> replays an editing
  trace on a queue and checks the text.

  The model, theory by theory.
  Base: \<open>Prelude\<close> (widths, vectors), \<open>Paths\<close> (\<open>std::path\<close>), \<open>Types\<close> (\<open>src/types.rs\<close>,
  \<open>src/shar/error.rs\<close>), \<open>RustText\<close> (\<open>str\<close>), \<open>Delivery\<close> and \<open>Reorder\<close> (sequences of messages, and when
  their order does not matter), \<open>Samples\<close> (a file for witnesses).
  File: \<open>SharFile\<close> has \<open>find_crdt\<close> with its ring search, \<open>find_tombstone\<close>, \<open>add_crdt\<close>, \<open>remove_crdt\<close>
  and the loading; \<open>FindCrdt\<close>, \<open>InsertOrder\<close>, \<open>Wellformed\<close>, \<open>SharFileOps\<close>, \<open>Tombstone\<close> (\<open>climbs\<close>: the place below
  removed characters), \<open>Convergence\<close>,
  \<open>LoadFile\<close>, \<open>FileFacts\<close> prove the facts, \<open>FileProperties\<close> and \<open>Anomalies\<close> state the properties.
  Directory: \<open>SharDirectory\<close>; \<open>DirectoryFacts\<close>, \<open>LoadTree\<close>, \<open>Links\<close> (what each character of a tree
  hangs from); \<open>DirectoryProperties\<close>; \<open>FileStore\<close> is what the queue needs of it.
  Queue: \<open>Backlog\<close>, \<open>DrainLoop\<close>, \<open>SharQueue\<close>; \<open>NetworkQueue\<close> (messages in any order), \<open>IdeQueue\<close> (one
  edit), \<open>OpenQueue\<close> (a queue just opened), \<open>QueueRuns\<close> (any sequence of operations), \<open>EventLog\<close> and
  \<open>BroadcastNames\<close> (its log), \<open>Relative\<close> (the queue seen from the root of its shar), \<open>LocalEdit\<close> (an
  edit among messages); \<open>QueueProperties\<close>, \<open>QueueAnomalies\<close>, \<open>LostDeletion\<close> (a removal that waits for ever).
  Instance: \<open>StateRequest\<close>, \<open>QueueWrap\<close>, \<open>WrapRace\<close> (the wrapper between its awaits), \<open>Callbacks\<close>,
  \<open>Encoding\<close> (\<open>serialize\<close> and its panics), \<open>Session\<close> (\<open>on_connect\<close>, \<open>iroh_gossip_subscriber\<close>, the
  broadcast loop), \<open>Startup\<close> (subcommands, sessions at the discovery proxy), \<open>Instance\<close> (\<open>main\<close> and
  its network task), \<open>InstanceRuns\<close> (any sequence of what happens to an instance); \<open>Hydration\<close>,
  \<open>Propagation\<close>; \<open>SessionProperties\<close>, \<open>PeerProperties\<close>, \<open>StartupProperties\<close>, \<open>FileNames\<close>.
  Many instances: \<open>Network\<close>, \<open>Traffic\<close>, \<open>NetworkRuns\<close>, \<open>OpenNetwork\<close>, \<open>NetworkProperties\<close>
  (messages, and answers to state requests, arrive anywhere, in any order and number), \<open>Relay\<close> (messages arrive in order, and late).
  Beside: \<open>Bench\<close>, \<open>BenchFacts\<close>, \<open>BenchReport\<close>, \<open>BenchProperties\<close>; \<open>EnvFile\<close> (\<open>build.rs\<close>).

  Conventions. Structs are records and enums datatypes with the names of the source, prefixed where
  two structs share a field. A Rust \<open>Result\<close> is a sum with the error on the left. \<open>None\<close> around a
  result is a panic or a call that does not return. \<open>u32\<close> is \<open>32 word\<close>, so the counter wraps as in a
  release build; \<open>usize\<close> is \<open>nat\<close>, every subtraction being guarded or a panic. A \<open>char\<close> is its code
  point; a component of a path is its bytes. A mutable borrow is the location of what is borrowed. An
  awaited callback is an entry of the
  queue's log; \<open>Callbacks\<close> says what becomes of it. The queue is borrowed mutably by every operation,
  so its operations do not interleave; \<open>WrapRace\<close> interleaves the tasks of the wrapper.

  Interfaces. \<open>reorderable\<close> (removals, and siblings below one parent, are interpretations),
  \<open>waiting_room\<close> (the backlogs), \<open>drain_loop\<close> (the two worklist loops), \<open>network_relation\<close> and
  \<open>ide_relation\<close> (what every call of one side of the queue respects, interpreted by what a call may
  change, by the growth of the log, by the names that wait), \<open>file_store\<close> (the directory tree
  as the queue sees it), \<open>sequence\<close> and \<open>layered\<close> (the queue, its wrapper and the instance handle
  messages one after another, each carrying out what the layer below does).

  What the lemmas show. On one file: an insertion below a live parent is the abstract insertion into
  the reading order, and a removal takes exactly one character out, whatever the line hint; every
  call on a well-formed file returns and every run keeps it well-formed; siblings, removals, and
  insertions that do not pass each other's parent commute; loading and reading back is the identity.
  On the tree: an operation changes the file of its path and no other. On the queue: its loops end;
  messages in any order are all carried out or wait for a character that does not exist, so that
  replicas with the same messages agree on what exists; the backlogs stay sorted and identified; no
  identity is given twice; the log only grows. On instances: a
  keystroke reaches the other IDE; a peer that asks for the state ends with all of it; discovery
  never panics; messages before the opening are kept, and those that race with it are accounted for;
  an instance starts, joins its session and leaves its ticket; in every run of an instance the IDE and
  the peers are told what the log says, once each and in its order.
  On any number of instances, as long as the log is orderly (below): whatever the order and number in
  which messages arrive, no call panics or runs for ever, no identity is given twice, and replicas that
  were told of the whole log, by its messages or by the answers of others, hold the same characters,
  values, parents and tombstones; a replica that missed anything is level with them once it has replayed
  the answer of one. When only an up-to-date replica edits and messages arrive in the order of the log,
  however late, every replica shows the plain text after the edits it has taken. Instances that open the
  same files, listed in the same order, start alike. The replay of a trace passes its own check, and its
  report is consistent.

  Orderly logs. \<open>orderly_log\<close> and \<open>orderly_run\<close> are conditions on the messages, not on their order: no
  insertion is a line break whose parent is removed, in the opening or by any message, and none has a
  parent that is removed with no live ancestor but the sentinel. Other insertions below removed characters
  are covered. What is excluded is what the code gets wrong when the removal arrives first
  (\<open>break_below_tombstone_panics\<close>, \<open>sentinel_displaced\<close>), and it is ordinary editing: typing a character, a
  line break behind it, and deleting the character. \<open>placeable\<close> is the same condition on an answered state.

  What fails, each a theorem under stated conditions, or on a concrete run: two replicas with the same
  characters can differ (\<open>replicas_diverge\<close>, \<open>line_breaks_diverge\<close>), even when only one author types
  and one message is late (\<open>late_message_diverges\<close>); a line break below a tombstone goes to a wrong
  row, and removing it panics (\<open>break_below_tombstone_panics\<close>), so that catching up can change the text
  (\<open>hydration_changes_text\<close>); a character below a removed first one displaces the sentinel
  (\<open>sentinel_displaced\<close>); a deletion of a character that waits for the tag of its parent waits for ever
  (\<open>deletion_lost\<close>); a directory named like
  one above it cannot be reached (\<open>same_name_unroutable\<close>); two documents mix (\<open>documents_mix\<close>); a
  message that races with the opening can be lost (\<open>race_loses_message\<close>), a registration too
  (\<open>registration_lost\<close>); after a registration that failed every typed character panics
  (\<open>failed_registration_silences\<close>); with a file name that is not UTF-8 no peer can catch up and the
  IDE's join panics (\<open>names_decide_hydration\<close>).

  Bounds and fuel. There is no fuel: loops are structural, or functions with a measure (the ring
  search: the lines that are left in each direction; the worklists: the operations that wait, then the list), or
  partial functions whose return is proved (the climb over tombstones: every parent chain of a
  well-formed file ends; emission: sockets recover). Theorems on typing assume that ids are left,
  a counter below \<open>2 ^ 32\<close>.

  Parameters, being code outside the repository: the file system below a directory, the order in
  which a hash map is iterated, JSON and base32, the success of an emission, the bytes of a
  connection, what peers answer, gossip events, the discovery proxy, random numbers and names, the
  parsing of arguments by clap, measured times and the arithmetic of floats.

  Not modelled: \<open>Display\<close> and \<open>Debug\<close> instances that only print, tracing and logging, key generation
  and the set-up of iroh, socket.io and HTTP servers, which are calls into libraries, the binding of the
  TCP port included (a port that is taken panics \<open>main\<close>); the taking of
  time and the printing of the report in the benchmark; the module files and type aliases. Handlers
  are steps: of the interleavings of tasks between the awaits inside them, those of the wrapper's
  opening and deliveries are modelled. A run of an instance ends at a panic of a handler, which in the
  program ends the task of that handler only. In the network of many instances the answers to
  state requests are messages like others, asked for at any time and by anyone.
\<close>

section \<open>Two replicas\<close>

text \<open>
  An edit propagates. A character typed in the IDE of one replica is broadcast with a path that
  a second replica, with its shar at another place, resolves to its copy of the file. When the two
  copies agree before, with nothing waiting for the new identity, both calls return, the copies
  agree again, and both show the character right behind the element it was typed behind.
\<close>

theorem edit_propagates:
  assumes "tree_inv (tree q)" "ids_counted q" "unat (counter q) + 1 < 2 ^ 32" "quiet_for op q"
    and "lookup_file (tree q) (tree_root q @ rel) = Some f" "ia_file_path op = tree_root q @ rel"
    and "ia_parent_id op = Some (fst par)" "ia_parent_peer op = Some (snd par)"
    and "i < length (flat f)" "flat f ! i = par"
    and "tree_inv (tree r)" "map_of (network_backlog r) (counter q + 1, peer q) = None"
    and "network_add_callback r" "is_absolute (tree_root r)" "rel = [] \<or> hd rel \<notin> {''/'', ''.''}"
    and "lookup_file (tree r) (tree_root r @ rel) = Some g" "shar_file_eq f g"
  shows "\<exists>q' r' m f' g'. add_ide_operation op q = Some q' \<and> last (events q') = Ide_added m m \<and>
    add_network_operation m r = Some r' \<and>
    lookup_file (tree q') (tree_root q @ rel) = Some f' \<and>
    lookup_file (tree r') (tree_root r @ rel) = Some g' \<and> shar_file_eq f' g' \<and>
    text_of f' = take i (text_of f) @ ia_val op # drop i (text_of f) \<and> text_of g' = text_of f'"
proof -
  obtain q' r' f' g' c n where t: "add_ide_operation op q = Some q'"
    "events q' = events q @ [Ide_add_confirmed (IdeAddConfirmed_new (ia_tag op) (counter q + 1) (peer q)),
       Ide_added (NetworkAdd_new rel c n) (NetworkAdd_new rel c n)]"
    "add_network_operation (NetworkAdd_new rel c n) r = Some r'"
    "lookup_file (tree q') (tree_root q @ rel) = Some f'"
    "lookup_file (tree r') (tree_root r @ rel) = Some g'" "shar_file_eq f' g'"
    "text_of f' = take i (text_of f) @ ia_val op # drop i (text_of f)"
    by (rule edit_transfer [OF assms]) blast
  then have "last (events q') = Ide_added (NetworkAdd_new rel c n) (NetworkAdd_new rel c n)" by simp
  with t same_file(3) [OF t(6)] show ?thesis by auto
qed

theorem edit_propagates_witness:
  "\<exists>q' r' m g'. add_ide_operation type_z sample_queue = Some q' \<and> last (events q') = Ide_added m m \<and>
     add_network_operation m other_queue = Some r' \<and>
     lookup_file (tree r') [''/'', ''q'', ''t''] = Some g' \<and> text_of g' = [97, 10, 99, 122]"
proof -
  have other: "tree_root other_queue = [''/'', ''q'']" "network_add_callback other_queue"
    "map_of (network_backlog other_queue) (5, 1) = None" "is_absolute [''/'', ''q'']"
    "lookup_file (tree other_queue) [''/'', ''q'', ''t''] = Some other_file"
    by (simp_all add: other_queue_def queue_of_def tree_root_def lookup_file_def other_file_def
        is_absolute_def)
  have "shar_file_eq sample_file other_file" by (simp add: shar_file_eq_def other_file_def)
  with edit_propagates [of sample_queue type_z "[''t'']" sample_file "(4, 0)" 3 other_queue other_file]
    sample_dir_inv sample_counted sample_quiet other_queue_inv other
  show ?thesis
    by (simp add: sample_queue_simps type_z_simps sample_dir_lookup)
      (auto simp: flat_def text_of_def char_at_def)
qed

end
